(* ===== verification/Prelude.thy ===== *)
theory Prelude
  imports Main "HOL-Library.Word"
begin

text \<open>
  The prelude of the development: the part of the C language and of its standard library that
  the components use, as executable functions on byte strings, and the lemmas about them that the
  component proofs share.

  A C string is a value of type \<^typ>\<open>string\<close> (a list of bytes) without its terminating NUL; the
  predicate \<open>cstr\<close> says that a string is one, that is, holds no NUL byte itself. A character array
  that the code reads back as a string is turned into one by \<open>cread\<close>. Character classification
  is that of the C locale. Machine integers are those of the appliance's ILP32 platform: \<open>int\<close> and
  \<open>long\<close> are 32 bits wide.
\<close>

named_theorems clib \<open>equations that unfold the C library functions\<close>
named_theorems byte_count \<open>lengths of outputs, for the byte accounting of the filters\<close>

type_synonym bytes = "char list"
type_synonym cptr = "string option"  \<comment> \<open>a \<open>char *\<close> argument: \<open>None\<close> is NULL\<close>

section \<open>Bytes and characters\<close>

definition NUL :: char where "NUL = CHR 0x00"

definition cstr :: "string \<Rightarrow> bool" where
  "cstr s \<longleftrightarrow> NUL \<notin> set s"

definition cread :: "bytes \<Rightarrow> string" where
  "cread b = takeWhile (\<lambda>c. c \<noteq> NUL) b"

definition ord :: "char \<Rightarrow> nat" where
  "ord c = of_char c"

definition isspace :: "char \<Rightarrow> bool" where
  "isspace c \<longleftrightarrow> c = CHR '' '' \<or> (9 \<le> ord c \<and> ord c \<le> 13)"

definition isdigit :: "char \<Rightarrow> bool" where
  "isdigit c \<longleftrightarrow> 48 \<le> ord c \<and> ord c \<le> 57"

definition tolower :: "char \<Rightarrow> char" where
  "tolower c = (if 65 \<le> ord c \<and> ord c \<le> 90 then char_of (ord c + 32) else c)"

definition toupper :: "char \<Rightarrow> char" where
  "toupper c = (if 97 \<le> ord c \<and> ord c \<le> 122 then char_of (ord c - 32) else c)"

section \<open>String functions of the C library\<close>

definition starts_with :: "string \<Rightarrow> string \<Rightarrow> bool" where
  "starts_with p s \<longleftrightarrow> take (length p) s = p"

text \<open>\<open>strstr\<close>: the offset of the first occurrence, \<open>None\<close> for NULL.\<close>

fun strstr :: "string \<Rightarrow> string \<Rightarrow> nat option" where
  "strstr [] n = (if n = [] then Some 0 else None)"
| "strstr (c # cs) n =
     (if starts_with n (c # cs) then Some 0 else map_option Suc (strstr cs n))"

fun strchr :: "string \<Rightarrow> char \<Rightarrow> nat option" where
  "strchr [] d = None"
| "strchr (c # cs) d = (if c = d then Some 0 else map_option Suc (strchr cs d))"

definition strcasecmp0 :: "string \<Rightarrow> string \<Rightarrow> bool" where
  \<comment> \<open>\<open>strcasecmp(a, b) == 0\<close>\<close>
  "strcasecmp0 a b \<longleftrightarrow> map tolower a = map tolower b"

definition strcasestr :: "string \<Rightarrow> string \<Rightarrow> nat option" where
  "strcasestr h n = strstr (map tolower h) (map tolower n)"

definition strncmp0 :: "string \<Rightarrow> string \<Rightarrow> nat \<Rightarrow> bool" where
  \<comment> \<open>\<open>strncmp(a, b, n) == 0\<close> on two C strings\<close>
  "strncmp0 a b n \<longleftrightarrow> take n a = take n b"

definition strspn :: "string \<Rightarrow> string \<Rightarrow> nat" where
  "strspn s acc = length (takeWhile (\<lambda>c. c \<in> set acc) s)"

definition snprintf_s :: "nat \<Rightarrow> string \<Rightarrow> string" where
  \<comment> \<open>\<open>snprintf(buf, n, "%s", s)\<close>: what \<open>buf\<close> holds afterwards, for \<open>n > 0\<close>\<close>
  "snprintf_s n s = take (n - 1) s"

text \<open>
  \<open>fgets(buf, n, f)\<close> on a stream given by the bytes still to be read: the line read (at most
  \<open>n - 1\<close> bytes, up to and including a newline) and the rest of the stream.
\<close>

fun fgets_line :: "nat \<Rightarrow> bytes \<Rightarrow> bytes \<times> bytes" where
  "fgets_line 0 s = ([], s)"
| "fgets_line (Suc n) [] = ([], [])"
| "fgets_line (Suc n) (c # cs) =
     (if c = CHR 0x0A then ([c], cs)
      else (case fgets_line n cs of (l, r) \<Rightarrow> (c # l, r)))"

definition fgets :: "nat \<Rightarrow> bytes \<Rightarrow> (bytes \<times> bytes) option" where
  "fgets n s = (if s = [] then None else Some (fgets_line (n - 1) s))"

text \<open>All the buffers that \<open>while (fgets(buf, n, f))\<close> sees, for \<open>n > 1\<close>.\<close>

function fgets_all :: "nat \<Rightarrow> bytes \<Rightarrow> bytes list" where
  "fgets_all n s =
     (if n \<le> 1 then [] else
        (case fgets n s of None \<Rightarrow> [] | Some (l, r) \<Rightarrow> l # fgets_all n r))"
  by pat_completeness auto

section \<open>Decimal output and input\<close>

fun dec_nat :: "nat \<Rightarrow> string" where
  "dec_nat n =
     (if n < 10 then [char_of (48 + n)] else dec_nat (n div 10) @ [char_of (48 + n mod 10)])"

declare dec_nat.simps [simp del]

definition dec_int :: "int \<Rightarrow> string" where
  "dec_int i = (if i < 0 then CHR ''-'' # dec_nat (nat (- i)) else dec_nat (nat i))"

definition digits_val :: "string \<Rightarrow> nat" where
  "digits_val ds = fold (\<lambda>c a. 10 * a + (ord c - 48)) ds 0"

definition clamp32 :: "int \<Rightarrow> int" where
  "clamp32 i = max (- (2 ^ 31)) (min (2 ^ 31 - 1) i)"

definition atoi :: "string \<Rightarrow> int" where
  \<comment> \<open>\<open>(int) strtol(s, NULL, 10)\<close> with a 32-bit \<open>long\<close>\<close>
  "atoi s =
     (let t = dropWhile isspace s;
          neg = (t \<noteq> [] \<and> hd t = CHR ''-'');
          u = (if t \<noteq> [] \<and> (hd t = CHR ''-'' \<or> hd t = CHR ''+'') then tl t else t);
          v = int (digits_val (takeWhile isdigit u))
      in clamp32 (if neg then - v else v))"

section \<open>Lemmas\<close>

lemma NUL_simps [simp]: "ord NUL = 0"
  by (simp add: ord_def NUL_def)

lemma ord_lt_256 [simp]: "ord c < 256"
  by (simp add: ord_def)

lemma char_eq_ord: "c = d \<longleftrightarrow> ord c = ord d"
  by (simp add: ord_def)

lemma ord_char_of [simp]: "ord (char_of n) = n mod 256"
  by (simp add: ord_def)

lemma isspace_not_NUL [simp]: "\<not> isspace NUL"
  by (simp add: isspace_def char_eq_ord) (simp add: ord_def)

lemma tolower_idem [simp]: "tolower (tolower c) = tolower c"
  by (auto simp: tolower_def)

lemma tolower_NUL_iff [simp]: "tolower c = NUL \<longleftrightarrow> c = NUL"
  by (auto simp: tolower_def char_eq_ord)

lemma toupper_NUL_iff [simp]: "toupper c = NUL \<longleftrightarrow> c = NUL"
proof -
  have "(ord c - 32) mod 256 = ord c - 32"
    using ord_lt_256[of c] by (intro mod_less) arith
  then show ?thesis by (auto simp: toupper_def char_eq_ord)
qed

lemma cstr_simps [simp]:
  "cstr []" "cstr (c # s) \<longleftrightarrow> c \<noteq> NUL \<and> cstr s" "cstr (s @ t) \<longleftrightarrow> cstr s \<and> cstr t"
  by (auto simp: cstr_def)

lemma cstr_subset: "cstr s \<Longrightarrow> set t \<subseteq> set s \<Longrightarrow> cstr t"
  by (auto simp: cstr_def)

lemma cstr_take [simp, intro]: "cstr s \<Longrightarrow> cstr (take n s)"
  and cstr_drop [simp, intro]: "cstr s \<Longrightarrow> cstr (drop n s)"
  by (auto simp: cstr_def dest: in_set_takeD in_set_dropD)

lemma cstr_cread [simp]: "cstr (cread b)"
  by (auto simp: cstr_def cread_def dest: set_takeWhileD)

lemma cread_cstr [simp]: "cstr s \<Longrightarrow> cread s = s"
  unfolding cread_def by (rule takeWhile_eq_all_conv [THEN iffD2]) (auto simp: cstr_def)

lemma cread_append_NUL [simp]: "cstr s \<Longrightarrow> cread (s @ NUL # r) = s"
  by (induction s) (auto simp: cread_def)

lemma starts_with_Nil [simp]: "starts_with [] s"
  by (simp add: starts_with_def)

lemma starts_with_append: "starts_with p s \<longleftrightarrow> (\<exists>r. s = p @ r)"
  unfolding starts_with_def by (metis append_eq_conv_conj append_take_drop_id)

lemma strstr_Some_drop:
  "strstr h n = Some i \<Longrightarrow> i \<le> length h \<and> starts_with n (drop i h)"
  by (induction h n arbitrary: i rule: strstr.induct) (auto split: if_splits)

lemma strstr_Some_first:
  "strstr h n = Some i \<Longrightarrow> j < i \<Longrightarrow> \<not> starts_with n (drop j h)"
proof (induction h n arbitrary: i j rule: strstr.induct)
  case (2 c cs n)
  then show ?case by (cases j) (auto split: if_splits)
qed (auto split: if_splits)

lemma strstr_None:
  "strstr h n = None \<longleftrightarrow> (\<forall>i \<le> length h. \<not> starts_with n (drop i h))"
proof (induction h n rule: strstr.induct)
  case (2 c cs n)
  show ?case
  proof
    assume "strstr (c # cs) n = None"
    with 2 show "\<forall>i\<le>length (c # cs). \<not> starts_with n (drop i (c # cs))"
      by (auto simp: drop_Cons split: if_splits nat.splits)
  next
    assume a: "\<forall>i\<le>length (c # cs). \<not> starts_with n (drop i (c # cs))"
    then have "\<not> starts_with n (c # cs)" by (metis drop0 zero_le)
    moreover from a have "\<forall>i\<le>length cs. \<not> starts_with n (drop i cs)"
      by (metis Suc_le_mono drop_Suc_Cons length_Cons)
    ultimately show "strstr (c # cs) n = None" using 2 by simp
  qed
qed (auto simp: starts_with_def)

lemma strchr_Some:
  "strchr s d = Some i \<Longrightarrow> i < length s \<and> s ! i = d \<and> d \<notin> set (take i s)"
  by (induction s d arbitrary: i rule: strchr.induct) (auto split: if_splits)

lemma strchr_None [simp]: "strchr s d = None \<longleftrightarrow> d \<notin> set s"
  by (induction s d rule: strchr.induct) auto

lemma strcasecmp0_refl [simp]: "strcasecmp0 s s"
  by (simp add: strcasecmp0_def)

lemma strcasecmp0_length: "strcasecmp0 a b \<Longrightarrow> length a = length b"
  unfolding strcasecmp0_def by (metis length_map)

lemma snprintf_s_length: "0 < n \<Longrightarrow> length (snprintf_s n s) < n"
  by (simp add: snprintf_s_def)

lemma fgets_line_split: "fgets_line n s = (l, r) \<Longrightarrow> l @ r = s \<and> length l \<le> n"
  by (induction n s arbitrary: l r rule: fgets_line.induct) (auto split: if_splits prod.splits)

lemma fgets_line_progress: "fgets_line (Suc n) (c # cs) = (l, r) \<Longrightarrow> length r < length (c # cs)"
  by (auto split: if_splits prod.splits dest!: fgets_line_split)

termination fgets_all
proof (relation "measure (\<lambda>(n, s). length s)")
  fix n :: nat and s l r :: bytes and x y
  assume n: "\<not> n \<le> 1" and f: "fgets n s = Some x" and x: "(l, r) = x"
  from n obtain m where m: "n - 1 = Suc m" by (cases n) (auto simp: gr0_conv_Suc)
  from f obtain c cs where s: "s = c # cs" by (cases s) (auto simp: fgets_def)
  from f x m s have "fgets_line (Suc m) (c # cs) = (l, r)" by (simp add: fgets_def)
  then show "((n, r), n, s) \<in> measure (\<lambda>(n, s). length s)"
    using fgets_line_progress s by simp
qed simp

declare fgets_all.simps [simp del]

lemma fgets_all_concat: "1 < n \<Longrightarrow> concat (fgets_all n s) = s"
proof (induction n s rule: fgets_all.induct)
  case (1 n s)
  show ?case
  proof (cases "fgets n s")
    case None
    then show ?thesis using 1 by (subst fgets_all.simps) (auto simp: fgets_def split: if_splits)
  next
    case (Some lr)
    obtain l r where lr: "lr = (l, r)" by (cases lr)
    with Some have "l @ r = s" by (auto simp: fgets_def dest!: fgets_line_split split: if_splits)
    moreover from 1 Some lr have "concat (fgets_all n r) = r" by simp
    ultimately show ?thesis using 1 Some lr by (subst fgets_all.simps) simp
  qed
qed

lemma fgets_all_length:
  "l \<in> set (fgets_all n s) \<Longrightarrow> length l < n"
proof (induction n s rule: fgets_all.induct)
  case (1 n s)
  from "1.prems" obtain a r where n: "\<not> n \<le> 1" and f: "fgets n s = Some (a, r)"
    and l: "l = a \<or> l \<in> set (fgets_all n r)"
    by (cases "fgets n s") (auto simp: fgets_all.simps [of n s] split: if_splits)
  from f n have "length a < n" by (auto simp: fgets_def dest!: fgets_line_split split: if_splits)
  with l "1.IH" [OF n f refl] show ?case by auto
qed

lemma clamp32_bounds: "- (2 ^ 31) \<le> clamp32 i" "clamp32 i < 2 ^ 31"
  by (auto simp: clamp32_def)

end
