(* ===== verification/HtmlFilter.thy ===== *)
theory HtmlFilter
  imports Prelude
begin

text \<open>
  The streaming HTML filter of the web proxy, \<^verbatim>\<open>filters/cfmod_htmlfilter.c\<close> and
  \<^verbatim>\<open>filters/htmlfilter.h\<close>: the tokeniser \<open>htmlCfFilter\<close> that cuts the byte stream of a page into
  text and tags, the attribute parser \<open>processTag0\<close>, and \<open>insertTag\<close>, with which a client module
  writes a cleaned tag. The module's own \<open>processTag\<close> function is a parameter of the model, as it is
  a function pointer in the code; what the tokeniser relies on is the locale \<open>tag_processor\<close>.

  The parser's scratch copy of the tag is a byte list, its pointers are offsets into it, and the
  arrays \<open>atts\<close> and \<open>vals\<close> are lists of offsets. A failed \<open>assert\<close> is the result \<open>None\<close>.
\<close>

section \<open>Data\<close>

datatype tpos = T_TEXT | T_STAG | T_TAG | T_EQU | T_META | T_COMM | T_DQUOT | T_SQUOT

fun tpos_code :: "tpos \<Rightarrow> nat" where
  "tpos_code T_TEXT = 0"
| "tpos_code T_STAG = 1"
| "tpos_code T_TAG = 2"
| "tpos_code T_EQU = 3"
| "tpos_code T_META = 4"
| "tpos_code T_COMM = 5"
| "tpos_code T_DQUOT = 34"
| "tpos_code T_SQUOT = 39"

record htmlFilterObject =
  cf_uri :: string
  contlen :: int
  posin :: int
  posout :: int
  tag :: bytes
  inTag :: tpos
  inBSQuot :: int
  eating :: int

type_synonym processTagFunc =
  "htmlFilterObject \<Rightarrow> bytes \<Rightarrow> cptr list \<Rightarrow> cptr list \<Rightarrow> htmlFilterObject \<times> bytes \<times> int"

abbreviation DQ :: char where "DQ \<equiv> CHR 0x22"
abbreviation SQ :: char where "SQ \<equiv> CHR 0x27"
abbreviation LT :: char where "LT \<equiv> CHR ''<''"
abbreviation GT :: char where "GT \<equiv> CHR ''>''"
abbreviation BS :: char where "BS \<equiv> CHR 0x5C"

section \<open>Inserting a tag\<close>

text \<open>The length \<open>insertTag\<close> computes before it writes anything.\<close>

fun attribs_len :: "cptr list \<Rightarrow> cptr list \<Rightarrow> nat" where
  "attribs_len (Some a # as) (v # vs) =
     length a + 1 + (case v of None \<Rightarrow> 0 | Some x \<Rightarrow> length x + 1) + attribs_len as vs"
| "attribs_len (None # as) (v # vs) = attribs_len as vs"
| "attribs_len _ _ = 0"

fun attribs_text :: "cptr list \<Rightarrow> cptr list \<Rightarrow> bytes" where
  "attribs_text (Some a # as) (v # vs) =
     '' '' @ a @ (case v of None \<Rightarrow> [] | Some x \<Rightarrow> ''='' @ x) @ attribs_text as vs"
| "attribs_text (None # as) (v # vs) = attribs_text as vs"
| "attribs_text _ _ = []"

definition attr0 :: "cptr list \<Rightarrow> string" where
  \<comment> \<open>\<open>attribs[0]\<close>, the tag name, never NULL\<close>
  "attr0 as = (case as of Some a # _ \<Rightarrow> a | _ \<Rightarrow> [])"

definition insertTag ::
  "htmlFilterObject \<Rightarrow> bytes \<Rightarrow> cptr list \<Rightarrow> cptr list \<Rightarrow> htmlFilterObject \<times> bytes" where
  "insertTag this target attribs valus =
     (if eating this \<noteq> 0 then (this, target)
      else
        (let len = 2 + length (attr0 attribs) + attribs_len (tl attribs) (tl valus) in
         if 0 < contlen this \<and> posin this < posout this + int len then (this, target)
         else (this\<lparr>posout := posout this + int len\<rparr>,
               target @ ''<'' @ attr0 attribs @ attribs_text (tl attribs) (tl valus) @ ''>'')))"

section \<open>Parsing a tag\<close>

datatype vpos = V_WSP | V_COMM | V_ATT | V_SVAL | V_VAL | V_DQUOT | V_SQUOT

record tagparse =
  scratch :: bytes
  pv :: vpos
  pv0 :: vpos
  pp :: nat
  pi :: nat
  atts :: "nat list"
  vals :: "nat option list"

definition push_att :: "nat \<Rightarrow> tagparse \<Rightarrow> tagparse" where
  \<comment> \<open>\<open>atts[n++] = p\<close>; \<open>vals\<close> starts out zeroed\<close>
  "push_att p s = s\<lparr>atts := atts s @ [p], vals := vals s @ [None]\<rparr>"

definition set_val :: "nat \<Rightarrow> tagparse \<Rightarrow> tagparse" where
  \<comment> \<open>\<open>vals[n-1] = p\<close>\<close>
  "set_val p s = s\<lparr>vals := (vals s)[length (atts s) - 1 := Some p]\<rparr>"

definition poke :: "nat \<Rightarrow> tagparse \<Rightarrow> tagparse" where
  \<comment> \<open>\<open>scratch[k] = '\0'\<close>\<close>
  "poke k s = s\<lparr>scratch := (scratch s)[k := NUL]\<rparr>"

definition quoted :: "vpos \<Rightarrow> bool" where
  "quoted v \<longleftrightarrow> v = V_DQUOT \<or> v = V_SQUOT"

text \<open>The code of \<open>case V_VAL\<close>, which \<open>case V_SVAL\<close> falls into.\<close>

definition ptag_val :: "tagparse \<Rightarrow> tagparse" where
  "ptag_val s =
     (let i = pi s; c = scratch s ! i in
      if isspace c then
        (let s = (if quoted (pv0 s) then set_val (pp s + 1) (poke (i - 1) s)
                  else set_val (pp s) (poke i s))
         in s\<lparr>pv0 := V_WSP, pv := V_WSP\<rparr>)
      else if c = SQ then s\<lparr>pv0 := V_SQUOT, pv := V_SQUOT\<rparr>
      else if c = DQ then s\<lparr>pv0 := V_DQUOT, pv := V_DQUOT\<rparr>
      else s)"

text \<open>One run of the body of the \<open>for\<close> loop of \<open>processTag0\<close>, without the final \<open>++i\<close>.\<close>

definition ptag_body :: "tagparse \<Rightarrow> tagparse" where
  "ptag_body s =
     (let i = pi s; c = scratch s ! i in
      case pv s of
        V_WSP \<Rightarrow>
          (if isspace c then s
           else if c = CHR ''='' \<and> 0 < length (atts s) then s\<lparr>pp := i + 1, pv := V_VAL\<rparr>
           else if c = CHR ''-'' \<and> scratch s ! (i + 1) = CHR ''-''
             then s\<lparr>pp := i, pv := V_COMM, pi := i + 2\<rparr>
           else s\<lparr>pp := i, pv := V_ATT\<rparr>)
      | V_ATT \<Rightarrow>
          (if isspace c then (push_att (pp s) (poke i s))\<lparr>pv := V_WSP\<rparr>
           else if c = CHR ''='' then (push_att (pp s) (poke i s))\<lparr>pp := i + 1, pv := V_SVAL\<rparr>
           else s)
      | V_SVAL \<Rightarrow> (if isspace c then s else ptag_val (s\<lparr>pp := i, pv := V_VAL\<rparr>))
      | V_VAL \<Rightarrow> ptag_val s
      | V_DQUOT \<Rightarrow>
          (if c = DQ \<and> scratch s ! (i - 1) \<noteq> BS then s\<lparr>pv := V_VAL\<rparr> else s)
      | V_SQUOT \<Rightarrow>
          (if c = SQ \<and> scratch s ! (i - 1) \<noteq> BS then s\<lparr>pv := V_VAL\<rparr> else s)
      | V_COMM \<Rightarrow>
          (if 2 < i \<and> isspace c \<and> scratch s ! (i - 1) = CHR ''-''
              \<and> scratch s ! (i - 2) = CHR ''-''
             then (push_att (pp s) (poke i s))\<lparr>pv := V_WSP\<rparr> else s))"

definition ptag_step :: "tagparse \<Rightarrow> tagparse" where
  "ptag_step s = (let t = ptag_body s in t\<lparr>pi := pi t + 1\<rparr>)"

lemma ptag_body_scratch [simp]: "length (scratch (ptag_body s)) = length (scratch s)"
  by (auto simp: ptag_body_def ptag_val_def push_att_def set_val_def poke_def Let_def
      split: vpos.split)

lemma ptag_body_pi: "pi s \<le> pi (ptag_body s)"
  by (auto simp: ptag_body_def ptag_val_def push_att_def set_val_def poke_def Let_def
      split: vpos.split)

lemma ptag_step_scratch [simp]: "length (scratch (ptag_step s)) = length (scratch s)"
  by (simp add: ptag_step_def Let_def)

lemma ptag_step_pi: "pi s < pi (ptag_step s)"
  using ptag_body_pi [of s] by (simp add: ptag_step_def Let_def)

function ptag_loop :: "tagparse \<Rightarrow> tagparse" where
  "ptag_loop s = (if pi s < length (scratch s) - 1 then ptag_loop (ptag_step s) else s)"
  by pat_completeness auto
termination
proof (relation "measure (\<lambda>s. length (scratch s) - pi s)")
  fix s :: tagparse
  assume "pi s < length (scratch s) - 1"
  then show "(ptag_step s, s) \<in> measure (\<lambda>s. length (scratch s) - pi s)"
    using ptag_step_pi [of s] by simp
qed simp

declare ptag_loop.simps [simp del]

definition ptag_init :: "bytes \<Rightarrow> tagparse" where
  "ptag_init t =
     \<lparr>scratch = t[length t - 1 := NUL], pv = V_WSP, pv0 = V_WSP, pp = 1, pi = 1,
      atts = [], vals = []\<rparr>"

definition ptag_finish :: "tagparse \<Rightarrow> tagparse" where
  "ptag_finish s =
     (if pv s = V_ATT \<or> pv s = V_COMM then push_att (pp s) s
      else if pv s = V_VAL then
        (if quoted (pv0 s) then set_val (pp s + 1) (poke (pi s - 1) s) else set_val (pp s) s)
      else s)"

definition parse_tag :: "bytes \<Rightarrow> tagparse" where
  "parse_tag t = ptag_finish (ptag_loop (ptag_init t))"

definition str_at :: "tagparse \<Rightarrow> nat \<Rightarrow> string" where
  \<comment> \<open>the C string that a pointer into the scratch buffer denotes\<close>
  "str_at s p = cread (drop p (scratch s))"

text \<open>\<open>None\<close> when the assertion \<open>tag.buf[0]=='<'\<close> fails.\<close>

definition processTag0 ::
  "processTagFunc \<Rightarrow> htmlFilterObject \<Rightarrow> bytes \<Rightarrow> (htmlFilterObject \<times> bytes \<times> int) option" where
  "processTag0 processTag this target =
     (if tag this = [] \<or> hd (tag this) \<noteq> LT then None
      else
        (let s = parse_tag (tag this) in
         if 0 < length (atts s) then
           Some (processTag this target (map (\<lambda>p. Some (str_at s p)) (atts s))
                  (map (map_option (str_at s)) (vals s)))
         else Some (this, target, 0)))"

section \<open>The tokeniser\<close>

definition storeText :: "char \<Rightarrow> htmlFilterObject \<times> bytes \<Rightarrow> htmlFilterObject \<times> bytes" where
  "storeText c = (\<lambda>(this, target).
     if eating this = 0 then (this\<lparr>posout := posout this + 1\<rparr>, target @ [c])
     else (this, target))"

definition storeTag :: "char \<Rightarrow> htmlFilterObject \<times> bytes \<Rightarrow> htmlFilterObject \<times> bytes" where
  "storeTag c = (\<lambda>(this, target). (this\<lparr>tag := tag this @ [c], inBSQuot := 0\<rparr>, target))"

text \<open>\<open>case T_DQUOT: case T_SQUOT:\<close>\<close>

definition quot_case :: "char \<Rightarrow> htmlFilterObject \<times> bytes \<Rightarrow> htmlFilterObject \<times> bytes" where
  "quot_case c = (\<lambda>(this, target).
     storeTag c
       (if inBSQuot this = 0 then
          (if c = BS then this\<lparr>inBSQuot := 1\<rparr>
           else if ord c = tpos_code (inTag this) then this\<lparr>inTag := T_TAG\<rparr>
           else this)
        else this, target))"

text \<open>The common part of the two \<open>switch\<close> branches that end a tag.\<close>

definition close_tag ::
  "processTagFunc \<Rightarrow> htmlFilterObject \<times> bytes \<Rightarrow> (htmlFilterObject \<times> bytes) option" where
  "close_tag processTag = (\<lambda>(this, target).
     (let this = this\<lparr>tag := tag this @ ''>''\<rparr> in
      case processTag0 processTag this target of
        None \<Rightarrow> None
      | Some (this, target, ret) \<Rightarrow>
          (let (this, target) =
             (if ret = 0 \<and> eating this = 0
              then (this\<lparr>posout := posout this + int (length (tag this))\<rparr>, target @ tag this)
              else (this, target))
           in Some (this\<lparr>tag := []\<rparr>, target))))"

definition tag_case ::
  "processTagFunc \<Rightarrow> char \<Rightarrow> htmlFilterObject \<times> bytes \<Rightarrow> (htmlFilterObject \<times> bytes) option" where
  "tag_case processTag c st =
     (if c = GT then
        map_option (\<lambda>(this, target). (this\<lparr>inTag := T_TEXT\<rparr>, target)) (close_tag processTag st)
      else if c = LT then
        map_option (\<lambda>(this, target). storeTag c (this\<lparr>inTag := T_STAG\<rparr>, target))
          (close_tag processTag st)
      else if c = CHR ''='' then Some (quot_case c ((fst st)\<lparr>inTag := T_EQU\<rparr>, snd st))
      else Some (quot_case c st))"

definition equ_case ::
  "processTagFunc \<Rightarrow> char \<Rightarrow> htmlFilterObject \<times> bytes \<Rightarrow> (htmlFilterObject \<times> bytes) option" where
  "equ_case processTag c = (\<lambda>(this, target).
     if (c = DQ \<or> c = SQ) \<and> inBSQuot this = 0 then
       Some (this\<lparr>tag := tag this @ [c], inTag := (if c = DQ then T_DQUOT else T_SQUOT)\<rparr>, target)
     else tag_case processTag c (this\<lparr>inTag := T_TAG\<rparr>, target))"

definition stag_case ::
  "processTagFunc \<Rightarrow> char \<Rightarrow> htmlFilterObject \<times> bytes \<Rightarrow> (htmlFilterObject \<times> bytes) option" where
  "stag_case processTag c = (\<lambda>(this, target).
     if c = CHR ''!'' then
       (let (this, target) =
          (if eating this = 0 then (this\<lparr>posout := posout this + 2\<rparr>, target @ ''<!'')
           else (this, target))
        in Some (this\<lparr>tag := [], inTag := T_META, inBSQuot := 0\<rparr>, target))
     else if c = LT then Some (this, target)
     else equ_case processTag c
            (if isspace c then this else this\<lparr>inTag := T_TAG\<rparr>, target))"

definition meta_case :: "char \<Rightarrow> htmlFilterObject \<times> bytes \<Rightarrow> htmlFilterObject \<times> bytes" where
  "meta_case c = (\<lambda>(this, target).
     (let this =
        (if 0 \<le> inBSQuot this then
           (if c = CHR ''-'' then
              (let this = this\<lparr>inBSQuot := inBSQuot this + 1\<rparr> in
               if 2 \<le> inBSQuot this then this\<lparr>inTag := T_COMM, inBSQuot := 0\<rparr> else this)
            else this\<lparr>inBSQuot := - 1\<rparr>)
         else this);
          this = (if c = GT then this\<lparr>inTag := T_TEXT\<rparr> else this)
      in storeText c (this, target)))"

definition comm_case :: "char \<Rightarrow> htmlFilterObject \<times> bytes \<Rightarrow> htmlFilterObject \<times> bytes" where
  "comm_case c = (\<lambda>(this, target).
     (let this = (if c = GT \<and> 2 \<le> inBSQuot this then this\<lparr>inTag := T_TEXT\<rparr> else this);
          this = (if c = CHR ''-'' then this\<lparr>inBSQuot := inBSQuot this + 1\<rparr>
                  else this\<lparr>inBSQuot := 0\<rparr>)
      in storeText c (this, target)))"

text \<open>The \<open>switch (this->inTag)\<close> of \<open>htmlCfFilter\<close> on one byte.\<close>

definition html_byte ::
  "processTagFunc \<Rightarrow> char \<Rightarrow> htmlFilterObject \<times> bytes \<Rightarrow> (htmlFilterObject \<times> bytes) option" where
  "html_byte processTag c st =
     (case inTag (fst st) of
        T_TEXT \<Rightarrow>
          Some (if c = LT then storeTag c ((fst st)\<lparr>inTag := T_STAG\<rparr>, snd st) else storeText c st)
      | T_META \<Rightarrow> Some (meta_case c st)
      | T_COMM \<Rightarrow> Some (comm_case c st)
      | T_STAG \<Rightarrow> stag_case processTag c st
      | T_EQU \<Rightarrow> equ_case processTag c st
      | T_TAG \<Rightarrow> tag_case processTag c st
      | T_DQUOT \<Rightarrow> Some (quot_case c st)
      | T_SQUOT \<Rightarrow> Some (quot_case c st))"

text \<open>The loop over the bytes of the block; a NUL byte ends it with the return value \<open>-1\<close>.\<close>

fun html_bytes ::
  "processTagFunc \<Rightarrow> bytes \<Rightarrow> htmlFilterObject \<times> bytes
     \<Rightarrow> (int \<times> htmlFilterObject \<times> bytes) option" where
  "html_bytes processTag [] st = Some (0, st)"
| "html_bytes processTag (c # cs) st =
     (if c = NUL then Some (- 1, st)
      else (case html_byte processTag c st of
              None \<Rightarrow> None
            | Some st' \<Rightarrow> html_bytes processTag cs st'))"

definition html_pad :: "htmlFilterObject \<Rightarrow> bytes" where
  "html_pad this =
     (if 0 \<le> contlen this \<and> contlen this \<le> posin this
      then replicate (nat (contlen this - posout this)) (CHR '' '') else [])"

definition htmlCfFilter ::
  "processTagFunc \<Rightarrow> htmlFilterObject \<Rightarrow> bytes \<Rightarrow> bytes
     \<Rightarrow> (int \<times> htmlFilterObject \<times> bytes) option" where
  "htmlCfFilter processTag this target buf =
     (case html_bytes processTag buf (this\<lparr>posin := posin this + int (length buf)\<rparr>, target) of
        None \<Rightarrow> None
      | Some (r, this, target) \<Rightarrow>
          (if r = 0 then Some (0, this, target @ html_pad this) else Some (r, this, target)))"

definition html_new :: "string \<Rightarrow> int \<Rightarrow> htmlFilterObject" where
  \<comment> \<open>the object \<open>htmlContFilter\<close> creates for a reply of the given content length\<close>
  "html_new uri len =
     \<lparr>cf_uri = uri, contlen = len, posin = 0, posout = 0, tag = [], inTag = T_TEXT,
      inBSQuot = 0, eating = 0\<rparr>"

section \<open>The interface to client modules\<close>

text \<open>
  What the tokeniser relies on from a module's \<open>processTag\<close> (\<^verbatim>\<open>htmlfilter.h\<close>): it touches nothing of the
  filter object but \<open>eating\<close> and, through \<open>insertTag\<close>, \<open>posout\<close>; the bytes it writes are counted
  in \<open>posout\<close>; it writes nothing while output is suppressed; and when it returns 0 it has changed
  nothing, so that the original tag can be passed on.
\<close>

definition same_lexer :: "htmlFilterObject \<Rightarrow> htmlFilterObject \<Rightarrow> bool" where
  "same_lexer a b \<longleftrightarrow> contlen b = contlen a \<and> posin b = posin a \<and> tag b = tag a
     \<and> inTag b = inTag a \<and> inBSQuot b = inBSQuot a"

definition accounted :: "htmlFilterObject \<times> bytes \<Rightarrow> htmlFilterObject \<times> bytes \<Rightarrow> bool" where
  \<comment> \<open>the target only grows, and \<open>posout\<close> counts what was written\<close>
  "accounted st st' \<longleftrightarrow> (\<exists>out. snd st' = snd st @ out
     \<and> posout (fst st') = posout (fst st) + int (length out))
     \<and> contlen (fst st') = contlen (fst st) \<and> posin (fst st') = posin (fst st)"

locale tag_processor =
  fixes processTag :: processTagFunc
  assumes pt_frame: "processTag this target as vs = (this', target', r) \<Longrightarrow> same_lexer this this'"
    and pt_account:
      "processTag this target as vs = (this', target', r)
         \<Longrightarrow> accounted (this, target) (this', target')"
    and pt_silent:
      "processTag this target as vs = (this', target', r) \<Longrightarrow> eating this \<noteq> 0 \<Longrightarrow> target' = target"
    and pt_zero:
      "processTag this target as vs = (this', target', r) \<Longrightarrow> r = 0
         \<Longrightarrow> this' = this \<and> target' = target"

section \<open>The tokeniser's invariant\<close>

text \<open>
  Between bytes the tag buffer is empty outside of tags, holds exactly the opening bracket just
  after it, and starts with it inside a tag, where no backslash is ever pending.
\<close>

definition html_inv :: "htmlFilterObject \<Rightarrow> bool" where
  "html_inv this \<longleftrightarrow>
     (if inTag this = T_TEXT \<or> inTag this = T_META \<or> inTag this = T_COMM then tag this = []
      else tag this \<noteq> [] \<and> hd (tag this) = LT \<and> inBSQuot this = 0
           \<and> (inTag this = T_STAG \<longrightarrow> tag this = [LT]))"

lemma accounted_refl [simp]: "accounted st st"
  by (auto simp: accounted_def)

lemma accounted_trans: "accounted a b \<Longrightarrow> accounted b c \<Longrightarrow> accounted a c"
  by (auto simp: accounted_def)

lemma accounted_lexer:
  "accounted (this, target) (this\<lparr>inTag := t, inBSQuot := q, tag := g\<rparr>, target)"
  by (simp add: accounted_def)

lemma accounted_upd [simp]:
  "accounted (this\<lparr>inTag := t\<rparr>, target) st' = accounted (this, target) st'"
  "accounted st (this\<lparr>inTag := t\<rparr>, target) = accounted st (this, target)"
  "accounted (this\<lparr>tag := g\<rparr>, target) st' = accounted (this, target) st'"
  "accounted st (this\<lparr>tag := g\<rparr>, target) = accounted st (this, target)"
  "accounted (this\<lparr>inBSQuot := q\<rparr>, target) st' = accounted (this, target) st'"
  "accounted st (this\<lparr>inBSQuot := q\<rparr>, target) = accounted st (this, target)"
  by (simp_all add: accounted_def)

lemma accounted_storeText [simp]: "accounted st (storeText c st)"
  by (cases st) (auto simp: storeText_def accounted_def)

lemma accounted_storeTag [simp]: "accounted st (storeTag c st)"
  by (cases st) (simp add: storeTag_def)

lemma accounted_quot_case [simp]: "accounted st (quot_case c st)"
  by (cases st) (simp add: quot_case_def storeTag_def)

lemma accounted_meta_case [simp]: "accounted st (meta_case c st)"
  by (cases st) (auto simp: meta_case_def storeText_def accounted_def Let_def)

lemma accounted_comm_case [simp]: "accounted st (comm_case c st)"
  by (cases st) (auto simp: comm_case_def storeText_def accounted_def Let_def)

lemma fst_storeText [simp]:
  "inTag (fst (storeText c st)) = inTag (fst st)" "tag (fst (storeText c st)) = tag (fst st)"
  "inBSQuot (fst (storeText c st)) = inBSQuot (fst st)"
  "eating (fst (storeText c st)) = eating (fst st)"
  by (cases st, simp add: storeText_def)+

lemma snd_quot_case [simp]: "snd (quot_case c st) = snd st"
  by (cases st) (simp add: quot_case_def storeTag_def)

lemma html_inv_quot_case:
  assumes "html_inv this" "inTag this \<in> {T_TAG, T_EQU, T_DQUOT, T_SQUOT}"
  shows "html_inv (fst (quot_case c (this, target)))"
  using assms by (auto simp: html_inv_def quot_case_def storeTag_def)

lemma html_inv_meta_case:
  "html_inv this \<Longrightarrow> inTag this = T_META \<Longrightarrow> html_inv (fst (meta_case c (this, target)))"
  by (auto simp: html_inv_def meta_case_def storeText_def Let_def)

lemma html_inv_comm_case:
  "html_inv this \<Longrightarrow> inTag this = T_COMM \<Longrightarrow> html_inv (fst (comm_case c (this, target)))"
  by (auto simp: html_inv_def comm_case_def storeText_def Let_def)

lemma same_lexer_refl [simp]: "same_lexer a a"
  by (simp add: same_lexer_def)

lemma html_inv_upd [simp]:
  "html_inv (this\<lparr>posin := x\<rparr>) = html_inv this" "html_inv (this\<lparr>posout := x\<rparr>) = html_inv this"
  "html_inv (this\<lparr>eating := e\<rparr>) = html_inv this"
  by (simp_all add: html_inv_def)

lemma html_inv_new [simp]: "html_inv (html_new uri len)"
  by (simp add: html_inv_def html_new_def)

end
