(* ===== verification/HtmlStream.thy ===== *)
theory HtmlStream
  imports HtmlFilter
begin

text \<open>
  The behaviour of the tokeniser \<open>htmlCfFilter\<close> for any client module that keeps the contract
  \<open>tag_processor\<close>: it never fails its assertion, its byte accounting is right, it is silent while
  output is suppressed, it does not depend on how the page is cut into blocks, and a module that
  changes nothing is transparent. The client modules interpret the locale and inherit all of this.
\<close>

section \<open>One byte\<close>

definition good_step :: "htmlFilterObject \<times> bytes \<Rightarrow> htmlFilterObject \<times> bytes \<Rightarrow> bool" where
  "good_step st st' \<longleftrightarrow> accounted st st' \<and> html_inv (fst st')
     \<and> (eating (fst st) \<noteq> 0 \<longrightarrow> snd st' = snd st)"

text \<open>Output is suppressed at the start of the bytes and after each of them.\<close>

fun stays_eating :: "processTagFunc \<Rightarrow> bytes \<Rightarrow> htmlFilterObject \<times> bytes \<Rightarrow> bool" where
  "stays_eating processTag [] st = (eating (fst st) \<noteq> 0)"
| "stays_eating processTag (c # cs) st = (eating (fst st) \<noteq> 0
     \<and> (case html_byte processTag c st of
          None \<Rightarrow> False | Some st' \<Rightarrow> stays_eating processTag cs st'))"

context tag_processor
begin

lemma processTag0_spec:
  assumes "tag this \<noteq> []" "hd (tag this) = LT"
  obtains this' target' r where "processTag0 processTag this target = Some (this', target', r)"
    "same_lexer this this'" "accounted (this, target) (this', target')"
    "eating this \<noteq> 0 \<Longrightarrow> target' = target" "r = 0 \<Longrightarrow> this' = this \<and> target' = target"
proof (cases "processTag this target
    (map (\<lambda>p. Some (str_at (parse_tag (tag this)) p)) (atts (parse_tag (tag this))))
    (map (map_option (str_at (parse_tag (tag this)))) (vals (parse_tag (tag this))))")
  case (fields this' target' r)
  show thesis
  proof (cases "atts (parse_tag (tag this)) = []")
    case True
    with assms that [of this target 0] show ?thesis by (simp add: processTag0_def Let_def)
  next
    case False
    with assms fields that [of this' target' r] pt_frame [OF fields] pt_account [OF fields]
      pt_silent [OF fields] pt_zero [OF fields] show ?thesis
      by (simp add: processTag0_def Let_def)
  qed
qed

lemma close_tag_spec:
  assumes "tag this \<noteq> []" "hd (tag this) = LT"
  obtains this' target' where "close_tag processTag (this, target) = Some (this', target')"
    "tag this' = []" "inTag this' = inTag this" "inBSQuot this' = inBSQuot this"
    "accounted (this, target) (this', target')" "eating this \<noteq> 0 \<Longrightarrow> target' = target"
proof -
  let ?u = "this\<lparr>tag := tag this @ ''>''\<rparr>"
  have t: "tag ?u \<noteq> []" "hd (tag ?u) = LT" using assms by auto
  obtain w target' r where
    u: "processTag0 processTag ?u target = Some (w, target', r)" "same_lexer ?u w"
    "accounted (?u, target) (w, target')" "eating this \<noteq> 0 \<Longrightarrow> target' = target"
    "r = 0 \<Longrightarrow> w = ?u \<and> target' = target"
    by (rule processTag0_spec [OF t, of target]) simp
  show thesis
  proof (cases "r = 0 \<and> eating w = 0")
    case True
    with u(5) have "w = ?u" "target' = target" by simp_all
    with True u(1) show ?thesis
      by (intro that [of "w\<lparr>posout := posout w + int (length (tag w)), tag := []\<rparr>" "target @ tag w"])
         (auto simp: close_tag_def Let_def accounted_def)
  next
    case False
    with u(1-4) show ?thesis
      by (intro that [of "w\<lparr>tag := []\<rparr>" target']) (auto simp: close_tag_def Let_def same_lexer_def)
  qed
qed

lemma tag_case_good:
  assumes "html_inv this" "inTag this \<in> {T_TAG, T_EQU}"
  shows "\<exists>st'. tag_case processTag c (this, target) = Some st' \<and> good_step (this, target) st'"
proof -
  from assms have t: "tag this \<noteq> []" "hd (tag this) = LT" "inBSQuot this = 0"
    by (auto simp: html_inv_def)
  obtain this' target' where c: "close_tag processTag (this, target) = Some (this', target')"
    "tag this' = []" "accounted (this, target) (this', target')"
    "inBSQuot this' = 0" "eating this \<noteq> 0 \<Longrightarrow> target' = target"
    using close_tag_spec [OF t(1,2), of target] t(3) by metis
  have i: "html_inv (this\<lparr>inTag := T_EQU\<rparr>)" "html_inv this"
    using t assms by (auto simp: html_inv_def)
  from accounted_quot_case [of "(this\<lparr>inTag := T_EQU\<rparr>, target)" c]
  have e: "accounted (this, target) (quot_case c (this\<lparr>inTag := T_EQU\<rparr>, target))"
    by (simp only: accounted_upd)
  show ?thesis
  proof (cases "c = GT \<or> c = LT")
    case True
    with c show ?thesis by (auto simp: tag_case_def good_step_def storeTag_def html_inv_def)
  next
    case False
    with e i assms(2) show ?thesis
      by (auto simp: tag_case_def good_step_def html_inv_quot_case simp del: split_paired_Ex)
  qed
qed

lemma equ_case_good:
  assumes "html_inv this" "inTag this \<in> {T_TAG, T_EQU, T_STAG}"
  shows "\<exists>st'. equ_case processTag c (this, target) = Some st' \<and> good_step (this, target) st'"
proof -
  have i: "html_inv (this\<lparr>inTag := T_TAG\<rparr>)" using assms by (auto simp: html_inv_def)
  obtain st' where st': "tag_case processTag c (this\<lparr>inTag := T_TAG\<rparr>, target) = Some st'"
    "good_step (this, target) st'"
    using tag_case_good [OF i, of c target] by (auto simp: good_step_def)
  from assms have t: "tag this \<noteq> []" "hd (tag this) = LT" "inBSQuot this = 0"
    by (auto simp: html_inv_def)
  show ?thesis
  proof (cases "c = DQ \<or> c = SQ")
    case True
    with t show ?thesis by (auto simp: equ_case_def good_step_def html_inv_def)
  next
    case False
    with t st' show ?thesis by (auto simp: equ_case_def simp del: split_paired_Ex)
  qed
qed

lemma stag_case_good:
  assumes "html_inv this" "inTag this = T_STAG"
  shows "\<exists>st'. stag_case processTag c (this, target) = Some st' \<and> good_step (this, target) st'"
proof -
  let ?u = "if isspace c then this else this\<lparr>inTag := T_TAG\<rparr>"
  have i: "html_inv ?u" "inTag ?u \<in> {T_TAG, T_EQU, T_STAG}"
    using assms by (auto simp: html_inv_def)
  have "accounted (?u, target) st \<Longrightarrow> accounted (this, target) st" for st
    by (auto split: if_splits)
  moreover have "eating ?u = eating this" by simp
  ultimately have e: "\<exists>st'. equ_case processTag c (?u, target) = Some st'
      \<and> good_step (this, target) st'"
    using equ_case_good [OF i, of c target] by (auto simp: good_step_def)
  show ?thesis
  proof (cases "c = CHR ''!'' \<or> c = LT")
    case True
    then show ?thesis using assms
      by (auto simp: stag_case_def good_step_def accounted_def html_inv_def)
  next
    case False
    with e show ?thesis by (simp add: stag_case_def)
  qed
qed

lemma html_byte_good:
  assumes "html_inv (fst st)"
  shows "\<exists>st'. html_byte processTag c st = Some st' \<and> good_step st st'"
proof (cases st)
  case (Pair this target)
  with assms have inv: "html_inv this" by simp
  show ?thesis
  proof (cases "inTag this")
    case T_TEXT
    with inv Pair show ?thesis
      by (auto simp: html_byte_def good_step_def storeTag_def html_inv_def storeText_def accounted_def)
  next
    case T_META
    with inv Pair show ?thesis
      by (auto simp: html_byte_def good_step_def html_inv_meta_case)
         (auto simp: meta_case_def storeText_def Let_def)
  next
    case T_COMM
    with inv Pair show ?thesis
      by (auto simp: html_byte_def good_step_def html_inv_comm_case)
         (auto simp: comm_case_def storeText_def Let_def)
  next
    case T_STAG
    with inv Pair show ?thesis by (simp add: html_byte_def stag_case_good del: split_paired_Ex)
  next
    case T_EQU
    with inv Pair show ?thesis by (simp add: html_byte_def equ_case_good del: split_paired_Ex)
  next
    case T_TAG
    with inv Pair show ?thesis by (simp add: html_byte_def tag_case_good del: split_paired_Ex)
  next
    case T_DQUOT
    with inv Pair show ?thesis
      by (simp add: html_byte_def good_step_def html_inv_quot_case del: split_paired_Ex)
  next
    case T_SQUOT
    with inv Pair show ?thesis
      by (simp add: html_byte_def good_step_def html_inv_quot_case del: split_paired_Ex)
  qed
qed

section \<open>A block\<close>

lemma html_bytes_good:
  assumes "html_inv (fst st)"
  shows "\<exists>r st'. html_bytes processTag bs st = Some (r, st') \<and> html_inv (fst st')
    \<and> accounted st st' \<and> (r = 0 \<longleftrightarrow> cstr bs) \<and> (r = 0 \<or> r = - 1)"
  using assms
proof (induction bs arbitrary: st)
  case Nil
  then show ?case by auto
next
  case (Cons c cs)
  obtain st1 where st1: "html_byte processTag c st = Some st1" "good_step st st1"
    using html_byte_good [OF Cons.prems] by blast
  then have "html_inv (fst st1)" "accounted st st1" by (simp_all add: good_step_def)
  then obtain r st' where "html_bytes processTag cs st1 = Some (r, st')" "html_inv (fst st')"
    "accounted st st'" "r = 0 \<longleftrightarrow> cstr cs" "r = 0 \<or> r = - 1"
    using Cons.IH [of st1] by (blast intro: accounted_trans)
  with Cons.prems st1 show ?case by (cases "c = NUL") (simp_all del: split_paired_Ex)
qed

lemma html_bytes_append:
  "cstr as \<Longrightarrow> html_bytes processTag as st = Some (0, st1)
     \<Longrightarrow> html_bytes processTag (as @ bs) st = html_bytes processTag bs st1"
  by (induction as arbitrary: st) (auto split: option.splits)

lemma htmlCfFilter_good:
  assumes "html_inv this"
  shows "\<exists>r this' out. htmlCfFilter processTag this target buf = Some (r, this', target @ out)
    \<and> html_inv this' \<and> (r = 0 \<longleftrightarrow> cstr buf) \<and> (r = 0 \<or> r = - 1)
    \<and> contlen this' = contlen this \<and> posin this' = posin this + int (length buf)
    \<and> int (length out) = posout this' - posout this
        + (if r = 0 then int (length (html_pad this')) else 0)"
proof -
  let ?u = "this\<lparr>posin := posin this + int (length buf)\<rparr>"
  have "html_inv (fst (?u, target))" using assms by simp
  from html_bytes_good [OF this, of buf] obtain r u t where
    h: "html_bytes processTag buf (?u, target) = Some (r, u, t)" "html_inv u"
      "accounted (?u, target) (u, t)" "r = 0 \<longleftrightarrow> cstr buf" "r = 0 \<or> r = - 1"
    by auto
  then show ?thesis by (auto simp: htmlCfFilter_def accounted_def)
qed

lemma html_bytes_silent:
  assumes "html_inv (fst st)" "stays_eating processTag bs st" "html_bytes processTag bs st = Some (r, st')"
  shows "snd st' = snd st"
  using assms
proof (induction bs arbitrary: st)
  case (Cons c cs)
  obtain st1 where st1: "html_byte processTag c st = Some st1" "good_step st st1"
    using html_byte_good [OF Cons.prems(1)] by blast
  with Cons.prems have "snd st1 = snd st" "html_inv (fst st1)" "stays_eating processTag cs st1"
    by (simp_all add: good_step_def)
  with Cons.IH [of st1] Cons.prems(3) st1 show ?case by (simp split: if_splits)
qed simp

end

section \<open>A page\<close>

text \<open>The calls that the proxy makes for the blocks of one page; it stops at the first failure.\<close>

fun html_run ::
  "processTagFunc \<Rightarrow> bytes list \<Rightarrow> htmlFilterObject \<times> bytes
     \<Rightarrow> (int \<times> htmlFilterObject \<times> bytes) option" where
  "html_run processTag [] st = Some (0, st)"
| "html_run processTag (b # bs) st =
     (case htmlCfFilter processTag (fst st) (snd st) b of
        None \<Rightarrow> None
      | Some (r, st') \<Rightarrow> if r < 0 then Some (r, st') else html_run processTag bs st')"

context tag_processor
begin

lemma html_run_total:
  assumes "html_inv (fst st)"
  shows "\<exists>r st'. html_run processTag bs st = Some (r, st') \<and> html_inv (fst st')"
  using assms
proof (induction bs arbitrary: st)
  case (Cons b bs)
  obtain r this' out where h: "htmlCfFilter processTag (fst st) (snd st) b
      = Some (r, this', snd st @ out)" "html_inv this'" "r = 0 \<or> r = - 1"
    using htmlCfFilter_good [OF Cons.prems, of "snd st" b] by blast
  from Cons.IH [of "(this', snd st @ out)"] h show ?case by (auto simp del: split_paired_Ex)
qed auto

text \<open>
  A page of known length, delivered in non-empty blocks without NUL bytes, comes out with at least
  its announced length: short output is filled up with blanks, by the last block only.
\<close>

lemma html_run_content_length:
  assumes "html_inv this" "list_all (\<lambda>b. b \<noteq> [] \<and> cstr b) bs" "bs \<noteq> []"
    "contlen this = posin this + int (length (concat bs))" "0 \<le> posin this"
  shows "\<exists>this' out. html_run processTag bs (this, target) = Some (0, this', target @ out)
     \<and> posout this + int (length out) = max (contlen this) (posout this')"
  using assms
proof (induction bs arbitrary: this target)
  case (Cons b bs)
  obtain r u out where h: "htmlCfFilter processTag this target b = Some (r, u, target @ out)"
    "html_inv u" "r = 0 \<longleftrightarrow> cstr b" "contlen u = contlen this"
    "posin u = posin this + int (length b)"
    "int (length out) = posout u - posout this
       + (if r = 0 then int (length (html_pad u)) else 0)"
    using htmlCfFilter_good [OF Cons.prems(1), of target b] by blast
  with Cons.prems have r: "r = 0" by simp
  show ?case
  proof (cases bs)
    case Nil
    with Cons.prems h r show ?thesis by (auto simp: html_pad_def)
  next
    case (Cons b' bs')
    with Cons.prems have "0 < length (concat bs)" by (auto simp: neq_Nil_conv)
    moreover have "contlen u = posin u + int (length (concat bs))" using Cons.prems h by simp
    ultimately have "posin u < contlen u" by linarith
    then have "html_pad u = []" by (simp add: html_pad_def)
    moreover from Cons.IH [OF h(2), of "target @ out"] Cons.prems h Cons obtain this' out' where
      "html_run processTag bs (u, target @ out) = Some (0, this', (target @ out) @ out')"
      "posout u + int (length out') = max (contlen this) (posout this')"
      by auto
    ultimately show ?thesis using h r by auto
  qed
qed simp

end

section \<open>Independence of the block boundaries\<close>

text \<open>
  When no content length is announced, a processor that only looks at \<open>posin\<close> through \<open>insertTag\<close>
  does not see how the page is cut into blocks.
\<close>

locale stream_tag_processor = tag_processor +
  assumes pt_posin:
    "contlen this \<le> 0 \<Longrightarrow> processTag (this\<lparr>posin := x\<rparr>) target as vs
       = (case processTag this target as vs of (this', target', r) \<Rightarrow>
            (this'\<lparr>posin := x\<rparr>, target', r))"
begin

definition at_posin :: "int \<Rightarrow> htmlFilterObject \<times> bytes \<Rightarrow> htmlFilterObject \<times> bytes" where
  "at_posin x st = ((fst st)\<lparr>posin := x\<rparr>, snd st)"

lemma posin_commute:
  fixes this :: htmlFilterObject
  shows "this\<lparr>posin := x, tag := g\<rparr> = this\<lparr>tag := g, posin := x\<rparr>"
    "this\<lparr>posin := x, inTag := t\<rparr> = this\<lparr>inTag := t, posin := x\<rparr>"
    "this\<lparr>posin := x, inBSQuot := q\<rparr> = this\<lparr>inBSQuot := q, posin := x\<rparr>"
    "this\<lparr>posin := x, posout := y\<rparr> = this\<lparr>posout := y, posin := x\<rparr>"
  by simp_all

lemma at_posin_simps [simp]:
  "inTag (fst (at_posin x st)) = inTag (fst st)" "tag (fst (at_posin x st)) = tag (fst st)"
  "inBSQuot (fst (at_posin x st)) = inBSQuot (fst st)" "snd (at_posin x st) = snd st"
  "contlen (fst (at_posin x st)) = contlen (fst st)" "posin (fst (at_posin x st)) = x"
  "eating (fst (at_posin x st)) = eating (fst st)"
  by (simp_all add: at_posin_def)

lemma processTag0_posin:
  "contlen this \<le> 0 \<Longrightarrow> processTag0 processTag (this\<lparr>posin := x\<rparr>) target
     = map_option (\<lambda>(this', target', r). (this'\<lparr>posin := x\<rparr>, target', r))
         (processTag0 processTag this target)"
  by (simp add: processTag0_def Let_def pt_posin)

lemma close_tag_posin:
  assumes "contlen (fst st) \<le> 0"
  shows "close_tag processTag (at_posin x st) = map_option (at_posin x) (close_tag processTag st)"
proof (cases st)
  case (Pair this target)
  have "processTag0 processTag (this\<lparr>tag := tag this @ ''>'', posin := x\<rparr>) target
     = map_option (\<lambda>(this', target', r). (this'\<lparr>posin := x\<rparr>, target', r))
         (processTag0 processTag (this\<lparr>tag := tag this @ ''>''\<rparr>) target)"
    using assms Pair by (intro processTag0_posin) simp
  with Pair show ?thesis
    by (auto simp: close_tag_def at_posin_def posin_commute Let_def split: option.splits)
qed

lemma step_posin:
  "storeText c (at_posin x st) = at_posin x (storeText c st)"
  "storeTag c (at_posin x st) = at_posin x (storeTag c st)"
  "quot_case c (at_posin x st) = at_posin x (quot_case c st)"
  "meta_case c (at_posin x st) = at_posin x (meta_case c st)"
  "comm_case c (at_posin x st) = at_posin x (comm_case c st)"
  by (cases st, simp add: storeText_def storeTag_def quot_case_def meta_case_def comm_case_def
      at_posin_def Let_def posin_commute)+

lemma html_byte_posin:
  assumes "contlen (fst st) \<le> 0"
  shows "html_byte processTag c (at_posin x st) = map_option (at_posin x) (html_byte processTag c st)"
proof -
  have up: "(fst (at_posin x st'), snd (at_posin x st')) = at_posin x st'"
    "((fst (at_posin x st'))\<lparr>inTag := t\<rparr>, snd st') = at_posin x ((fst st')\<lparr>inTag := t\<rparr>, snd st')"
    for st' t by (simp_all add: at_posin_def posin_commute)
  have tag: "tag_case processTag c (at_posin x st') = map_option (at_posin x) (tag_case processTag c st')"
    if "contlen (fst st') \<le> 0" for st'
    using that close_tag_posin [OF that, of x]
    by (auto simp: tag_case_def up step_posin option.map_comp comp_def split_beta
        intro!: option.map_cong)
  have equ: "equ_case processTag c (at_posin x st') = map_option (at_posin x) (equ_case processTag c st')"
    if "contlen (fst st') \<le> 0" for st'
    using that tag [of "((fst st')\<lparr>inTag := T_TAG\<rparr>, snd st')"]
    by (auto simp: equ_case_def split_beta up) (auto simp: at_posin_def posin_commute)
  have stag: "stag_case processTag c (at_posin x st) = map_option (at_posin x) (stag_case processTag c st)"
    using assms equ [of st] equ [of "((fst st)\<lparr>inTag := T_TAG\<rparr>, snd st)"]
    by (auto simp: stag_case_def split_beta up) (auto simp: at_posin_def posin_commute)
  show ?thesis
    using assms tag [of st] equ [of st] stag
    by (auto simp: html_byte_def step_posin up split: tpos.split)
qed

lemma html_bytes_posin:
  assumes "html_inv (fst st)" "contlen (fst st) \<le> 0"
  shows "html_bytes processTag bs (at_posin x st)
    = map_option (\<lambda>(r, st'). (r, at_posin x st')) (html_bytes processTag bs st)"
  using assms
proof (induction bs arbitrary: st)
  case (Cons c cs)
  obtain st1 where st1: "html_byte processTag c st = Some st1" "good_step st st1"
    using html_byte_good [OF Cons.prems(1)] by blast
  then have "html_inv (fst st1)" "contlen (fst st1) \<le> 0"
    using Cons.prems(2) by (simp_all add: good_step_def accounted_def)
  with Cons.IH [of st1] st1 html_byte_posin [OF Cons.prems(2)] show ?case by simp
qed simp

lemma htmlCfFilter_append:
  assumes inv: "html_inv this" and len: "contlen this < 0" and a: "cstr a"
  shows "htmlCfFilter processTag this target (a @ b)
    = (case htmlCfFilter processTag this target a of
         None \<Rightarrow> None | Some (_, this', target') \<Rightarrow> htmlCfFilter processTag this' target' b)"
proof -
  let ?st = "\<lambda>x. (this\<lparr>posin := x\<rparr>, target)" and ?la = "posin this + int (length a)"
  have i: "html_inv (fst (?st ?la))" using inv by simp
  obtain r st1 where h: "html_bytes processTag a (?st ?la) = Some (r, st1)" "html_inv (fst st1)"
    "accounted (?st ?la) st1" "r = 0"
    using html_bytes_good [OF i, of a] a by blast
  have "at_posin x (?st ?la) = ?st x" for x by (simp add: at_posin_def)
  with html_bytes_posin [OF i, of a] h len have any: "html_bytes processTag a (?st x) = Some (0, at_posin x st1)" for x by simp
  have whole: "html_bytes processTag (a @ b) (?st x) = html_bytes processTag b (at_posin x st1)" for x
    using html_bytes_append [OF a any] .
  have pads: "html_pad u = []" if "contlen u < 0" for u using that by (simp add: html_pad_def)
  have c1: "contlen (fst st1) < 0" "posin (fst st1) = ?la"
    using h(3) len by (simp_all add: accounted_def)
  have "htmlCfFilter processTag this target a = Some (0, fst st1, snd st1)"
    using h c1 pads by (cases st1) (simp add: htmlCfFilter_def)
  moreover have "htmlCfFilter processTag (fst st1) (snd st1) b
      = htmlCfFilter processTag this target (a @ b)"
    using whole [of "posin this + int (length (a @ b))"] c1
    by (simp add: htmlCfFilter_def at_posin_def add.assoc)
  ultimately show ?thesis by (simp add: split_beta)
qed

end

section \<open>Transparency\<close>

text \<open>
  A \<open><\<close> inside a tag is a syntax error that the tokeniser repairs by closing the tag. On pages
  without such stray brackets, tags that the module leaves alone pass through unchanged.
\<close>

fun stray_free :: "processTagFunc \<Rightarrow> bytes \<Rightarrow> htmlFilterObject \<times> bytes \<Rightarrow> bool" where
  "stray_free processTag [] st = True"
| "stray_free processTag (c # cs) st =
     (\<not> (c = LT \<and> (inTag (fst st) = T_STAG \<or> inTag (fst st) = T_TAG \<or> inTag (fst st) = T_EQU))
      \<and> (case html_byte processTag c st of None \<Rightarrow> False | Some st' \<Rightarrow> stray_free processTag cs st'))"

definition leaves_alone :: "processTagFunc \<Rightarrow> bool" where
  "leaves_alone processTag \<longleftrightarrow>
     (\<forall>this target as vs. processTag this target as vs = (this, target, 0))"

lemma close_tag_alone:
  assumes "leaves_alone pt" "tag this \<noteq> []" "hd (tag this) = LT" "eating this = 0"
  shows "close_tag pt (this, target) = Some (this\<lparr>tag := [], posout := posout this
     + int (length (tag this) + 1)\<rparr>, target @ tag this @ ''>'')"
  using assms by (auto simp: close_tag_def processTag0_def Let_def leaves_alone_def)

definition passes :: "char \<Rightarrow> htmlFilterObject \<times> bytes \<Rightarrow> htmlFilterObject \<times> bytes \<Rightarrow> bool" where
  "passes c st st' \<longleftrightarrow> snd st' @ tag (fst st') = snd st @ tag (fst st) @ [c]
     \<and> eating (fst st') = 0 \<and> html_inv (fst st')"

lemma passes_quot_case:
  assumes "html_inv this" "inTag this \<in> {T_TAG, T_EQU, T_DQUOT, T_SQUOT}" "eating this = 0"
  shows "passes c (this, target) (quot_case c (this, target))"
  using assms html_inv_quot_case [OF assms(1,2), of c target]
  by (auto simp: passes_def) (auto simp: quot_case_def storeTag_def)

lemma passes_tag_case:
  assumes "leaves_alone pt" "html_inv this" "inTag this \<in> {T_TAG, T_EQU}" "eating this = 0" "c \<noteq> LT"
    "tag_case pt c (this, target) = Some st'"
  shows "passes c (this, target) st'"
proof -
  from assms have t: "tag this \<noteq> []" "hd (tag this) = LT" by (auto simp: html_inv_def)
  have i: "html_inv (this\<lparr>inTag := T_EQU\<rparr>)" using assms by (auto simp: html_inv_def)
  have "passes c (this, target) (quot_case c (this\<lparr>inTag := T_EQU\<rparr>, target))"
    using passes_quot_case [OF i, of c target] assms(4) by (simp add: passes_def)
  then show ?thesis
    using assms close_tag_alone [OF assms(1) t assms(4), of target] passes_quot_case [of this c target]
    by (auto simp: tag_case_def split: if_splits) (auto simp: passes_def html_inv_def)
qed

lemma passes_equ_case:
  assumes "leaves_alone pt" "html_inv this" "inTag this \<in> {T_TAG, T_EQU, T_STAG}" "eating this = 0"
    "c \<noteq> LT" "equ_case pt c (this, target) = Some st'"
  shows "passes c (this, target) st'"
proof -
  have i: "html_inv (this\<lparr>inTag := T_TAG\<rparr>)" using assms by (auto simp: html_inv_def)
  show ?thesis
    using assms passes_tag_case [OF assms(1) i _ _ assms(5), of target st']
    by (auto simp: equ_case_def split: if_splits) (auto simp: passes_def html_inv_def)
qed

lemma html_byte_transparent:
  assumes "leaves_alone pt" "html_inv (fst st)" "eating (fst st) = 0"
    "stray_free pt [c] st" "html_byte pt c st = Some st'"
  shows "passes c st st'"
proof (cases st)
  case (Pair this target)
  show ?thesis
  proof (cases "inTag this")
    case T_STAG
    let ?u = "if isspace c then this else this\<lparr>inTag := T_TAG\<rparr>"
    have u: "html_inv ?u" "inTag ?u \<in> {T_TAG, T_EQU, T_STAG}" "eating ?u = 0" "tag ?u = tag this"
      using assms Pair T_STAG by (auto simp: html_inv_def)
    show ?thesis
    proof (cases "c = CHR ''!''")
      case True
      with T_STAG assms Pair show ?thesis
        by (auto simp: html_byte_def stag_case_def passes_def html_inv_def)
    next
      case False
      with T_STAG assms Pair have "equ_case pt c (?u, target) = Some st'" "c \<noteq> LT"
        by (auto simp: html_byte_def stag_case_def)
      then show ?thesis using passes_equ_case [OF assms(1) u(1-3)] u(4) Pair
        by (simp add: passes_def)
    qed
  next
    case T_TAG
    with assms Pair show ?thesis by (auto simp: html_byte_def intro: passes_tag_case)
  next
    case T_EQU
    with assms Pair show ?thesis by (auto simp: html_byte_def intro: passes_equ_case)
  next
    case T_DQUOT
    with assms Pair passes_quot_case [of this c target] show ?thesis by (auto simp: html_byte_def)
  next
    case T_SQUOT
    with assms Pair passes_quot_case [of this c target] show ?thesis by (auto simp: html_byte_def)
  qed (use assms Pair in \<open>auto simp: html_byte_def storeTag_def storeText_def meta_case_def
        comm_case_def passes_def html_inv_def Let_def split: if_splits\<close>)
qed

lemma html_bytes_transparent:
  assumes "leaves_alone pt" "html_inv (fst st)" "eating (fst st) = 0"
    "stray_free pt bs st" "cstr bs" "html_bytes pt bs st = Some (r, st')"
  shows "snd st' @ tag (fst st') = snd st @ tag (fst st) @ bs"
  using assms(2-)
proof (induction bs arbitrary: st)
  case (Cons c cs)
  then obtain st1 where st1: "html_byte pt c st = Some st1" "stray_free pt cs st1"
    by (auto split: option.splits)
  with Cons.prems have "stray_free pt [c] st" by simp
  from html_byte_transparent [OF assms(1) Cons.prems(1,2) this st1(1)]
  have "passes c st st1" .
  then have "snd st1 @ tag (fst st1) = snd st @ tag (fst st) @ [c]" "eating (fst st1) = 0"
    "html_inv (fst st1)" by (simp_all add: passes_def)
  with Cons.IH [of st1] Cons.prems st1 show ?case by (simp split: if_splits)
qed simp

section \<open>Properties\<close>

text \<open>
  The tokeniser does not honour backslash escapes. In a double-quoted value, in any state the
  filter can be in, a backslash followed by a quote ends the value, because the flag that the
  backslash sets is cleared again before the next byte; the attribute parser \<open>processTag0\<close>, which
  sees the same bytes later, takes such a quote as part of the value.
\<close>

theorem tokeniser_ignores_backslash:
  assumes "html_inv this" "inTag this = T_DQUOT"
  shows "html_bytes pt [BS, DQ] (this, target)
    = Some (0, this\<lparr>tag := tag this @ [BS, DQ], inTag := T_TAG\<rparr>, target)"
  using assms
  by (simp add: html_inv_def html_byte_def quot_case_def storeTag_def NUL_def ord_def)

theorem tokeniser_ignores_backslash_witness:
  "html_bytes (\<lambda>this target as vs. (this, target, 0)) [BS, DQ]
     ((html_new ''u'' (- 1))\<lparr>inTag := T_DQUOT, tag := [LT, CHR ''a'', CHR ''='', DQ]\<rparr>, [])
    = Some (0, (html_new ''u'' (- 1))\<lparr>inTag := T_TAG,
        tag := [LT, CHR ''a'', CHR ''='', DQ, BS, DQ]\<rparr>, [])"
  using tokeniser_ignores_backslash
    [of "(html_new ''u'' (- 1))\<lparr>inTag := T_DQUOT, tag := [LT, CHR ''a'', CHR ''='', DQ]\<rparr>"
      "\<lambda>this target as vs. (this, target, 0)" "[]"]
  by (simp add: html_inv_def html_new_def del: html_bytes.simps)

end
