(* ===== verification/HtmlParse.thy ===== *)
theory HtmlParse
  imports HtmlFilter
begin

text \<open>
  Memory safety of the attribute parser \<open>processTag0\<close>. The C code carves the arrays \<open>atts\<close> and
  \<open>vals\<close> out of one block of \<open>tag.size\<close> pointers, \<open>vals\<close> starting at \<open>tag.size/2\<close>, on the strength of
  a comment that a tag has at most half as many attributes as bytes. The invariant \<open>ptag_inv\<close> counts
  the bytes that every attribute consumes and shows the comment right; it also shows that every
  pointer handed to a module points into the scratch buffer, before its final NUL.
\<close>

section \<open>The invariant of the loop\<close>

fun opt_below :: "nat \<Rightarrow> nat option \<Rightarrow> bool" where
  "opt_below n None = True"
| "opt_below n (Some p) = (p < n)"

definition in_buf :: "tagparse \<Rightarrow> bool" where
  "in_buf s \<longleftrightarrow> list_all (\<lambda>p. p < length (scratch s)) (atts s)
     \<and> list_all (opt_below (length (scratch s))) (vals s)
     \<and> length (vals s) = length (atts s)
     \<and> scratch s ! (length (scratch s) - 1) = NUL \<and> 2 \<le> length (scratch s)"

definition ptag_inv :: "tagparse \<Rightarrow> bool" where
  "ptag_inv s \<longleftrightarrow> in_buf s \<and> 1 \<le> pi s \<and>
     (let used = 1 + 2 * length (atts s) in
      case pv s of
        V_WSP \<Rightarrow> used \<le> pi s \<and> pv0 s = V_WSP \<and> pi s < length (scratch s)
      | V_ATT \<Rightarrow> used \<le> pp s \<and> pp s < pi s \<and> pp s < length (scratch s) - 1 \<and> pv0 s = V_WSP
      | V_COMM \<Rightarrow> used \<le> pp s \<and> pp s < pi s \<and> pp s < length (scratch s) - 1 \<and> pv0 s = V_WSP
      | V_SVAL \<Rightarrow> used \<le> pi s \<and> atts s \<noteq> [] \<and> pv0 s = V_WSP \<and> pi s < length (scratch s)
      | V_VAL \<Rightarrow> used \<le> pi s \<and> atts s \<noteq> [] \<and> pp s \<le> pi s \<and> pi s < length (scratch s)
                 \<and> (quoted (pv0 s) \<longrightarrow> pp s < pi s)
      | _ \<Rightarrow> used \<le> pi s \<and> atts s \<noteq> [] \<and> pp s < pi s \<and> pi s < length (scratch s)
             \<and> quoted (pv0 s))"

lemma in_buf_push: "in_buf s \<Longrightarrow> p < length (scratch s) \<Longrightarrow> in_buf (push_att p s)"
  by (simp add: in_buf_def push_att_def)

lemma in_buf_set_val: "in_buf s \<Longrightarrow> p < length (scratch s) \<Longrightarrow> in_buf (set_val p s)"
  by (auto simp: in_buf_def set_val_def list_all_iff dest: set_update_subset_insert [THEN subsetD])

lemma in_buf_poke: "in_buf s \<Longrightarrow> in_buf (poke k s)"
  by (cases "k = length (scratch s) - 1") (auto simp: in_buf_def poke_def)

lemma in_buf_upd [simp]:
  "in_buf (s\<lparr>pv := v\<rparr>) = in_buf s" "in_buf (s\<lparr>pv0 := v\<rparr>) = in_buf s"
  "in_buf (s\<lparr>pp := p\<rparr>) = in_buf s" "in_buf (s\<lparr>pi := i\<rparr>) = in_buf s"
  by (simp_all add: in_buf_def)

lemma field_simps' [simp]:
  "scratch (push_att p s) = scratch s" "pv (push_att p s) = pv s" "pv0 (push_att p s) = pv0 s"
  "pp (push_att p s) = pp s" "pi (push_att p s) = pi s" "atts (push_att p s) = atts s @ [p]"
  "scratch (set_val p s) = scratch s" "pv (set_val p s) = pv s" "pv0 (set_val p s) = pv0 s"
  "pp (set_val p s) = pp s" "pi (set_val p s) = pi s" "atts (set_val p s) = atts s"
  "length (scratch (poke k s)) = length (scratch s)" "pv (poke k s) = pv s"
  "pv0 (poke k s) = pv0 s" "pp (poke k s) = pp s" "pi (poke k s) = pi s" "atts (poke k s) = atts s"
  by (simp_all add: push_att_def set_val_def poke_def)

lemma ptag_val_inv:
  assumes "in_buf s" "1 \<le> pi s" "1 + 2 * length (atts s) \<le> pi s" "atts s \<noteq> []" "pp s \<le> pi s"
    "quoted (pv0 s) \<longrightarrow> pp s < pi s" "pi s < length (scratch s) - 1" "pv s = V_VAL"
  shows "ptag_inv ((ptag_val s)\<lparr>pi := pi (ptag_val s) + 1\<rparr>)"
  using assms
  by (auto simp: ptag_val_def ptag_inv_def Let_def quoted_def in_buf_set_val in_buf_poke)

lemma ptag_step_inv:
  assumes "ptag_inv s" "pi s < length (scratch s) - 1"
  shows "ptag_inv (ptag_step s)"
proof (cases "pv s")
  case V_SVAL
  let ?s = "s\<lparr>pp := pi s, pv := V_VAL\<rparr>"
  from V_SVAL assms have "ptag_inv ((ptag_val ?s)\<lparr>pi := pi (ptag_val ?s) + 1\<rparr>)"
    by (intro ptag_val_inv) (auto simp: ptag_inv_def Let_def quoted_def)
  with V_SVAL assms show ?thesis
    by (auto simp: ptag_step_def ptag_body_def ptag_inv_def Let_def)
next
  case V_VAL
  with assms have "ptag_inv ((ptag_val s)\<lparr>pi := pi (ptag_val s) + 1\<rparr>)"
    by (intro ptag_val_inv) (auto simp: ptag_inv_def Let_def)
  with V_VAL show ?thesis by (simp add: ptag_step_def ptag_body_def Let_def)
qed (use assms in \<open>auto simp: ptag_step_def ptag_body_def ptag_inv_def Let_def in_buf_push
      in_buf_poke quoted_def\<close>)

lemma ptag_loop_inv: "ptag_inv s \<Longrightarrow> ptag_inv (ptag_loop s)"
proof (induction s rule: ptag_loop.induct)
  case (1 s)
  then show ?case using ptag_step_inv [of s] by (subst ptag_loop.simps) auto
qed

lemma ptag_loop_exit: "length (scratch s) - 1 \<le> pi (ptag_loop s)"
proof (induction s rule: ptag_loop.induct)
  case (1 s)
  then show ?case by (subst ptag_loop.simps) (auto simp: ptag_loop.simps)
qed

lemma ptag_loop_scratch [simp]: "length (scratch (ptag_loop s)) = length (scratch s)"
proof (induction s rule: ptag_loop.induct)
  case (1 s)
  then show ?case by (subst ptag_loop.simps) auto
qed

lemma ptag_init_inv: "2 \<le> length t \<Longrightarrow> ptag_inv (ptag_init t)"
  by (auto simp: ptag_inv_def ptag_init_def in_buf_def nth_list_update)

section \<open>The bounds\<close>

lemma ptag_finish_bounds:
  assumes "ptag_inv s" "length (scratch s) - 1 \<le> pi s"
  shows "in_buf (ptag_finish s) \<and> 2 * length (atts (ptag_finish s)) \<le> length (scratch s)"
  using assms
  by (cases "pv s")
     (auto simp: ptag_finish_def ptag_inv_def Let_def in_buf_push in_buf_set_val in_buf_poke)

lemma parse_tag_scratch [simp]: "length (scratch (parse_tag t)) = length t"
  by (simp add: parse_tag_def ptag_finish_def ptag_init_def)

lemma parse_tag_bounds:
  assumes "2 \<le> length t"
  shows "in_buf (parse_tag t) \<and> length (atts (parse_tag t)) \<le> length t div 2"
proof -
  let ?s = "ptag_loop (ptag_init t)"
  have l: "length (scratch ?s) = length t" by (simp add: ptag_init_def)
  have "ptag_inv ?s" using assms by (intro ptag_loop_inv ptag_init_inv)
  moreover have "length (scratch ?s) - 1 \<le> pi ?s" using ptag_loop_exit [of "ptag_init t"] by simp
  ultimately have "in_buf (ptag_finish ?s)"
    "2 * length (atts (ptag_finish ?s)) \<le> length (scratch ?s)"
    using ptag_finish_bounds by blast+
  then show ?thesis using l by (auto simp: parse_tag_def)
qed

section \<open>Properties\<close>



end
