(* ===== verification/JsAttrib.thy ===== *)
theory JsAttrib
  imports Prelude
begin

text \<open>
  The recogniser of JavaScript event attributes, \<^verbatim>\<open>filters/jsattrib.c\<close>: a perfect hash that gperf
  generated and that was then edited by hand to ignore case. The tables are those of the source.
  The main result, \<open>isJSAttrib_correct\<close>, is that the hash finds exactly the eighteen keywords, in
  any case, and nothing else: the optimised lookup agrees with a linear search.
\<close>

section \<open>The tables\<close>

definition asso_values :: "nat list" where
  "asso_values =
    [27, 27, 27, 27, 27, 27, 27, 27, 27, 27,
     27, 27, 27, 27, 27, 27, 27, 27, 27, 27,
     27, 27, 27, 27, 27, 27, 27, 27, 27, 27,
     27, 27, 27, 27, 27, 27, 27, 27, 27, 27,
     27, 27, 27, 27, 27, 27, 27, 27, 27, 27,
     27, 27, 27, 27, 27, 27, 27, 27, 27, 27,
     27, 27, 27, 27, 27, 27, 27, 27, 27, 27,
     27, 27, 27, 27, 27, 27, 27, 27, 27, 27,
     27, 27, 27, 27, 27, 27, 27, 27, 27, 27,
     27, 27, 27, 27, 27, 27, 27, 10, 5, 10,
     10, 5, 27, 27, 27, 0, 27, 10, 0, 27,
     10, 0, 0, 27, 0, 5, 0, 0, 27, 27,
     27, 0, 27, 27, 27, 27, 27, 27, 27, 27,
     27, 27, 27, 27, 27, 27, 27, 27, 27, 27,
     27, 27, 27, 27, 27, 27, 27, 27, 27, 27,
     27, 27, 27, 27, 27, 27, 27, 27, 27, 27,
     27, 27, 27, 27, 27, 27, 27, 27, 27, 27,
     27, 27, 27, 27, 27, 27, 27, 27, 27, 27,
     27, 27, 27, 27, 27, 27, 27, 27, 27, 27,
     27, 27, 27, 27, 27, 27, 27, 27, 27, 27,
     27, 27, 27, 27, 27, 27, 27, 27, 27, 27,
     27, 27, 27, 27, 27, 27, 27, 27, 27, 27,
     27, 27, 27, 27, 27, 27, 27, 27, 27, 27,
     27, 27, 27, 27, 27, 27, 27, 27, 27, 27,
     27, 27, 27, 27, 27, 27, 27, 27, 27, 27,
     27, 27, 27, 27, 27, 27]"

definition lengthtable :: "nat list" where
  "lengthtable =
    [0, 0, 0, 0, 0, 0, 6, 7, 8, 9, 10, 11, 7, 8,
     0, 10, 11, 7, 8, 9, 10, 11, 7, 8, 0, 0, 6]"

definition js_wordlist :: "string list" where
  "js_wordlist =
    ['''', '''', '''', '''', '''', '''',
     ''onblur'', ''onkeyup'', ''onselect'', ''onmouseup'', ''onmouseout'', ''onmouseover'',
     ''onreset'', ''onsubmit'', '''', ''onkeypress'', ''onmousemove'', ''onclick'',
     ''onunload'', ''onkeydown'', ''ondblclick'', ''onmousedown'', ''onfocus'', ''onchange'',
     '''', '''', ''onload'']"

definition MIN_WORD_LENGTH :: nat where "MIN_WORD_LENGTH = 6"
definition MAX_WORD_LENGTH :: nat where "MAX_WORD_LENGTH = 11"
definition MAX_HASH_VALUE :: nat where "MAX_HASH_VALUE = 26"

section \<open>The lookup\<close>

text \<open>\<open>hash\<close> reads bytes 0, 4 and \<open>len - 1\<close>; its only caller has checked that \<open>len\<close> is at least 6.\<close>

definition js_hash :: "string \<Rightarrow> nat \<Rightarrow> nat" where
  "js_hash str len =
     len + asso_values ! ord (tolower (str ! 4))
         + asso_values ! ord (tolower (str ! 0))
         + asso_values ! ord (tolower (str ! (len - 1)))"

definition isJSAttrib :: "string \<Rightarrow> nat \<Rightarrow> string option" where
  "isJSAttrib str len =
     (if len \<le> MAX_WORD_LENGTH \<and> MIN_WORD_LENGTH \<le> len then
        (let key = js_hash str len in
         if key \<le> MAX_HASH_VALUE then
           (if len = lengthtable ! key then
              (let s = js_wordlist ! key in
               if strcasecmp0 str s then Some s else None)
            else None)
         else None)
      else None)"

text \<open>The reference: a linear search through the keyword list of \<^verbatim>\<open>filters/jsattrib.gperf\<close>.\<close>

definition js_keywords :: "string list" where
  "js_keywords = filter (\<lambda>w. w \<noteq> []) js_wordlist"

definition js_keyword_of :: "string \<Rightarrow> string option" where
  "js_keyword_of str = find (\<lambda>w. strcasecmp0 str w) js_keywords"

section \<open>Correctness of the perfect hash\<close>

lemma length_tables:
  "length asso_values = 256" "length lengthtable = 27" "length js_wordlist = 27"
  by (simp_all add: asso_values_def lengthtable_def js_wordlist_def)

text \<open>Every keyword hashes to its own slot, and the length table agrees with the word list.\<close>

definition slot_ok :: "nat \<Rightarrow> bool" where
  "slot_ok k \<longleftrightarrow>
     (let w = js_wordlist ! k in
      w = [] \<or> (js_hash w (length w) = k \<and> lengthtable ! k = length w
                 \<and> MIN_WORD_LENGTH \<le> length w \<and> length w \<le> MAX_WORD_LENGTH
                 \<and> map tolower w = w))"

text \<open>The table at the lower-case letters that occur at the hashed positions.\<close>

lemma asso_letters:
  "asso_values ! 97 = 10" "asso_values ! 98 = 5" "asso_values ! 99 = 10"
  "asso_values ! 100 = 10" "asso_values ! 101 = 5" "asso_values ! 105 = 0"
  "asso_values ! 107 = 10" "asso_values ! 108 = 0" "asso_values ! 110 = 10"
  "asso_values ! 111 = 0" "asso_values ! 112 = 0" "asso_values ! 114 = 0"
  "asso_values ! 115 = 5" "asso_values ! 116 = 0" "asso_values ! 117 = 0"
  "asso_values ! 121 = 0"
  by (simp_all add: asso_values_def)

lemma hash_keywords:
  "js_hash ''onblur'' 6 = 6"
  "js_hash ''onkeyup'' 7 = 7"
  "js_hash ''onselect'' 8 = 8"
  "js_hash ''onmouseup'' 9 = 9"
  "js_hash ''onmouseout'' 10 = 10"
  "js_hash ''onmouseover'' 11 = 11"
  "js_hash ''onreset'' 7 = 12"
  "js_hash ''onsubmit'' 8 = 13"
  "js_hash ''onkeypress'' 10 = 15"
  "js_hash ''onmousemove'' 11 = 16"
  "js_hash ''onclick'' 7 = 17"
  "js_hash ''onunload'' 8 = 18"
  "js_hash ''onkeydown'' 9 = 19"
  "js_hash ''ondblclick'' 10 = 20"
  "js_hash ''onmousedown'' 11 = 21"
  "js_hash ''onfocus'' 7 = 22"
  "js_hash ''onchange'' 8 = 23"
  "js_hash ''onload'' 6 = 26"
  by (simp_all add: js_hash_def asso_letters tolower_def ord_def)

lemma slots_ok: "k < 27 \<Longrightarrow> slot_ok k"
proof -
  have "list_all slot_ok
    [0, 1, 2, 3, 4, 5, 6, 7, 8, 9, 10, 11, 12, 13, 14, 15, 16, 17, 18, 19, 20, 21, 22, 23, 24, 25, 26]"
    by (simp add: slot_ok_def js_wordlist_def lengthtable_def hash_keywords
        numeral_2_eq_2 [symmetric] tolower_def ord_def MIN_WORD_LENGTH_def MAX_WORD_LENGTH_def)
  moreover have "[0, 1, 2, 3, 4, 5, 6, 7, 8, 9, 10, 11, 12, 13, 14, 15, 16, 17, 18, 19, 20, 21, 22,
    23, 24, 25, 26] = [0..<27::nat]" by code_simp
  ultimately have "list_all slot_ok [0..<27]" by (simp only:)
  then show "k < 27 \<Longrightarrow> slot_ok k" unfolding list_all_iff by simp
qed

text \<open>The hash only looks at the lower-cased bytes, so it is the same for equal words.\<close>

lemma js_hash_casecong:
  assumes "strcasecmp0 a b" and "6 \<le> length a"
  shows "js_hash a (length a) = js_hash b (length b)"
proof -
  from assms(1) have m: "map tolower a = map tolower b" by (simp add: strcasecmp0_def)
  from assms(1) have l: "length a = length b" by (rule strcasecmp0_length)
  have e: "tolower (a ! i) = tolower (b ! i)" if "i < length a" for i
    using that m l by (metis nth_map)
  from assms(2) have "0 < length a" "4 < length a" "length a - 1 < length a" by linarith+
  from this [THEN e] l show ?thesis by (simp add: js_hash_def)
qed

lemma isJSAttrib_sound:
  "isJSAttrib str (length str) = Some s \<Longrightarrow> s \<in> set js_keywords \<and> strcasecmp0 str s"
  by (auto simp: isJSAttrib_def js_keywords_def Let_def MAX_HASH_VALUE_def MIN_WORD_LENGTH_def
      length_tables split: if_splits dest: strcasecmp0_length)

lemma isJSAttrib_complete:
  assumes w: "w \<in> set js_keywords" and eq: "strcasecmp0 str w"
  shows "isJSAttrib str (length str) = Some w"
proof -
  from w obtain k where k: "k < 27" "js_wordlist ! k = w" "w \<noteq> []"
    by (auto simp: js_keywords_def in_set_conv_nth length_tables)
  from slots_ok [OF k(1)] k(2,3) have
    s: "js_hash w (length w) = k" "lengthtable ! k = length w" "6 \<le> length w" "length w \<le> 11"
    by (simp_all add: slot_ok_def Let_def MIN_WORD_LENGTH_def MAX_WORD_LENGTH_def)
  from eq have l: "length str = length w" by (rule strcasecmp0_length)
  with js_hash_casecong [OF eq] s have "js_hash str (length str) = k" by simp
  with l s k eq show ?thesis
    by (simp add: isJSAttrib_def Let_def MIN_WORD_LENGTH_def MAX_WORD_LENGTH_def MAX_HASH_VALUE_def)
qed

lemma js_keyword_of_Some:
  "js_keyword_of str = Some w \<Longrightarrow> w \<in> set js_keywords \<and> strcasecmp0 str w"
  by (auto simp: js_keyword_of_def find_Some_iff)

lemma js_keyword_of_None:
  "js_keyword_of str = None \<Longrightarrow> w \<in> set js_keywords \<Longrightarrow> \<not> strcasecmp0 str w"
  by (auto simp: js_keyword_of_def find_None_iff)

lemma isJSAttrib_linear: "isJSAttrib str (length str) = js_keyword_of str"
proof (cases "js_keyword_of str")
  case None
  then show ?thesis
    using isJSAttrib_sound js_keyword_of_None by (cases "isJSAttrib str (length str)") auto
next
  case (Some w)
  then show ?thesis using isJSAttrib_complete js_keyword_of_Some by auto
qed

end
