(* ===== verification/CfContent.thy ===== *)
theory CfContent
  imports HtmlStream HtmlParse JsAttrib
begin

text \<open>
  The client modules of the HTML filter: \<^verbatim>\<open>filters/cfmod_content.c\<close> (remove images, plug-in objects
  and JavaScript, as configured) and \<^verbatim>\<open>filters/cfmod_script.c\<close> (remove JavaScript). Their \<open>scriptProcessTag\<close>
  functions interpret the contract \<open>stream_tag_processor\<close>, so that everything proved of the tokeniser
  holds for them.

  The regular expression for JavaScript entities is put together from strings that the build
  generates (\<^verbatim>\<open>jsre.h\<close>); whether it matches a value is the parameter \<open>entityRE\<close>. The expression for
  style types is the literal \<open>text/javascript\<close>, ignoring case.
\<close>

section \<open>Shared pieces\<close>

definition myboxuri :: string where "myboxuri = ''mybox.internal.proxy''"

definition submit_attrs :: "cptr list" where "submit_attrs = [Some ''INPUT'', Some ''TYPE'']"
definition submit_valus :: "cptr list" where "submit_valus = [None, Some ''SUBMIT'']"

definition jsStyleRE :: "string \<Rightarrow> bool" where
  "jsStyleRE v \<longleftrightarrow> strcasestr v ''text/javascript'' \<noteq> None"

text \<open>Is there an attribute from position 1 on whose value the style expression matches?\<close>

fun js_style :: "cptr list \<Rightarrow> cptr list \<Rightarrow> bool" where
  "js_style (Some a # as) (Some v # vs) = (jsStyleRE v \<or> js_style as vs)"
| "js_style (_ # as) (_ # vs) = js_style as vs"
| "js_style _ _ = False"

definition has_submit :: "cptr \<Rightarrow> bool" where
  "has_submit v = (case v of None \<Rightarrow> False | Some x \<Rightarrow> strstr x ''submit()'' \<noteq> None)"

text \<open>
  The loop that removes JavaScript attributes: the attribute array afterwards and the flags \<open>mod\<close>
  and \<open>sub\<close>.
\<close>

fun js_clean :: "(string \<Rightarrow> bool) \<Rightarrow> cptr list \<Rightarrow> cptr list \<Rightarrow> cptr list \<times> bool \<times> bool" where
  "js_clean entityRE (a # as) (v # vs) =
     (case js_clean entityRE as vs of (as', mod', sub) \<Rightarrow>
        (case a of
           None \<Rightarrow> (None # as', mod', sub)
         | Some n \<Rightarrow>
             (if isJSAttrib n (length n) \<noteq> None then (None # as', True, has_submit v \<or> sub)
              else (case v of
                      None \<Rightarrow> (Some n # as', mod', sub)
                    | Some x \<Rightarrow>
                        (if entityRE x then (None # as', True, has_submit v \<or> sub)
                         else (Some n # as', mod', sub))))))"
| "js_clean entityRE as vs = (as, False, False)"

text \<open>The end of both \<open>scriptProcessTag\<close> functions: clean the attributes, write the cleaned tag.\<close>

definition js_attributes :: "(string \<Rightarrow> bool) \<Rightarrow> processTagFunc" where
  "js_attributes entityRE cf target attrs valus =
     (case js_clean entityRE (tl attrs) (tl valus) of (as', mod', sub) \<Rightarrow>
        (if \<not> mod' then (cf, target, 0)
         else
           (let (cf, target) = insertTag cf target (hd attrs # as') valus;
                (cf, target) =
                  (if sub then insertTag cf target submit_attrs submit_valus else (cf, target))
            in (cf, target, 1))))"

definition is_tag :: "cptr list \<Rightarrow> string \<Rightarrow> bool" where
  \<comment> \<open>\<open>!strcasecmp(attrs[0], name)\<close>\<close>
  "is_tag attrs name \<longleftrightarrow> strcasecmp0 (attr0 attrs) name"

section \<open>The JavaScript filter, cfmod\_script.c\<close>

definition scriptProcessTag_script :: "(string \<Rightarrow> bool) \<Rightarrow> processTagFunc" where
  "scriptProcessTag_script entityRE cf target attrs valus =
     (if is_tag attrs ''IMG'' then (cf, target, 1)
      else if is_tag attrs ''SCRIPT'' then (cf\<lparr>eating := 1\<rparr>, target, 1)
      else if eating cf = 1 \<and> is_tag attrs ''/SCRIPT'' then (cf\<lparr>eating := 0\<rparr>, target, 1)
      else if is_tag attrs ''STYLE'' \<and> js_style (tl attrs) (tl valus)
        then (cf\<lparr>eating := 2\<rparr>, target, 1)
      else if eating cf = 2 \<and> is_tag attrs ''/STYLE'' then (cf\<lparr>eating := 0\<rparr>, target, 1)
      else js_attributes entityRE cf target attrs valus)"

section \<open>The content filter, cfmod\_content.c\<close>

record scriptModuleObject =
  cm_js :: int
  cm_image :: int
  cm_object :: int

definition mentions_mybox :: "cptr list \<Rightarrow> bool" where
  \<comment> \<open>the first loop: a value from position 1 on that contains \<open>myboxuri\<close>\<close>
  "mentions_mybox vs \<longleftrightarrow>
     list_ex (\<lambda>v. case v of None \<Rightarrow> False | Some x \<Rightarrow> strstr x myboxuri \<noteq> None) vs"

definition image_attr :: "cptr \<Rightarrow> cptr \<Rightarrow> bool" where
  "image_attr a v = (case (a, v) of
     (Some n, Some x) \<Rightarrow> strcasecmp0 n ''BACKGROUND''
        \<or> (strcasecmp0 n ''STYLE'' \<and> strcasestr x ''background-image'' \<noteq> None)
   | _ \<Rightarrow> False)"

text \<open>The loop that removes background images: both arrays afterwards and the flag \<open>x\<close>.\<close>

fun strip_images :: "cptr list \<Rightarrow> cptr list \<Rightarrow> cptr list \<times> cptr list \<times> bool" where
  "strip_images (a # as) (v # vs) =
     (case strip_images as vs of (as', vs', x) \<Rightarrow>
        (if image_attr a v then (None # as', None # vs', True) else (a # as', v # vs', x)))"
| "strip_images as vs = (as, vs, False)"

definition is_object :: "cptr list \<Rightarrow> bool" where
  "is_object attrs \<longleftrightarrow> is_tag attrs ''OBJECT'' \<or> is_tag attrs ''EMBED'' \<or> is_tag attrs ''PARAM''"

definition is_object_end :: "cptr list \<Rightarrow> bool" where
  "is_object_end attrs \<longleftrightarrow>
     is_tag attrs ''/OBJECT'' \<or> is_tag attrs ''/EMBED'' \<or> is_tag attrs ''/PARAM''"

definition content_js :: "(string \<Rightarrow> bool) \<Rightarrow> processTagFunc" where
  \<comment> \<open>the block under \<open>if(...->js)\<close>\<close>
  "content_js entityRE cf target attrs valus =
     (if is_tag attrs ''SCRIPT'' then (cf\<lparr>eating := 1\<rparr>, target, 1)
      else if eating cf = 1 \<and> is_tag attrs ''/SCRIPT'' then (cf\<lparr>eating := 0\<rparr>, target, 1)
      else if is_tag attrs ''STYLE'' \<and> js_style (tl attrs) (tl valus)
        then (cf\<lparr>eating := 2\<rparr>, target, 1)
      else if eating cf = 2 \<and> is_tag attrs ''/STYLE'' then (cf\<lparr>eating := 0\<rparr>, target, 1)
      else js_attributes entityRE cf target attrs valus)"

definition scriptProcessTag ::
  "(string \<Rightarrow> bool) \<Rightarrow> scriptModuleObject \<Rightarrow> processTagFunc" where
  "scriptProcessTag entityRE m cf target attrs valus =
     (if mentions_mybox (tl valus) then (cf, target, 0)
      else if cm_image m \<noteq> 0 \<and> is_tag attrs ''IMG'' then (cf, target, 1)
      else
        (case (if cm_image m \<noteq> 0 then strip_images (tl attrs) (tl valus)
               else (tl attrs, tl valus, False)) of
           (as', vs', x) \<Rightarrow>
             (if x then
                (case insertTag cf target (hd attrs # as') (hd valus # vs') of
                   (cf, target) \<Rightarrow> (cf, target, 1))
              else if cm_object m \<noteq> 0 \<and> is_object attrs then (cf\<lparr>eating := 3\<rparr>, target, 1)
              else if cm_object m \<noteq> 0 \<and> eating cf = 3 \<and> is_object_end attrs
                then (cf\<lparr>eating := 0\<rparr>, target, 1)
              else if cm_js m \<noteq> 0 then content_js entityRE cf target attrs valus
              else (cf, target, 0))))"

text \<open>
  \<open>moduleInit\<close>: without an argument it registers nothing; otherwise the first argument switches the
  three removals on by the words it contains.
\<close>

definition content_options :: "string list \<Rightarrow> scriptModuleObject option" where
  "content_options args =
     (case args of
        [] \<Rightarrow> None
      | key # _ \<Rightarrow>
          Some \<lparr>cm_js = (if strstr key ''js'' \<noteq> None then 1 else 0),
                cm_image = (if strstr key ''image'' \<noteq> None then 1 else 0),
                cm_object = (if strstr key ''object'' \<noteq> None then 1 else 0)\<rparr>)"

section \<open>The contract\<close>

lemma attribs_text_length: "length (attribs_text as vs) = attribs_len as vs"
  by (induction as vs rule: attribs_len.induct) (auto split: option.split)

lemma insertTag_contract:
  assumes "insertTag this target as vs = (this', target')"
  shows "same_lexer this this' \<and> accounted (this, target) (this', target')
    \<and> eating this' = eating this \<and> (eating this \<noteq> 0 \<longrightarrow> target' = target)"
  using assms
  by (auto simp: insertTag_def Let_def same_lexer_def accounted_def attribs_text_length
      split: if_splits)

lemma insertTag_posin:
  "contlen this \<le> 0 \<Longrightarrow> insertTag (this\<lparr>posin := x\<rparr>) target as vs
     = (case insertTag this target as vs of (this', target') \<Rightarrow> (this'\<lparr>posin := x\<rparr>, target'))"
  by (auto simp: insertTag_def Let_def)

definition keeps_contract :: "processTagFunc \<Rightarrow> bool" where
  \<comment> \<open>the four laws of \<open>tag_processor\<close> in one formula\<close>
  "keeps_contract pt \<longleftrightarrow> (\<forall>this target as vs this' target' r.
     pt this target as vs = (this', target', r) \<longrightarrow>
       same_lexer this this' \<and> accounted (this, target) (this', target')
       \<and> (eating this \<noteq> 0 \<longrightarrow> target' = target) \<and> (r = 0 \<longrightarrow> this' = this \<and> target' = target))"

lemma keeps_contractD:
  assumes "keeps_contract pt" "pt this target as vs = (this', target', r)"
  shows "same_lexer this this'" "accounted (this, target) (this', target')"
    "eating this \<noteq> 0 \<Longrightarrow> target' = target" "r = 0 \<Longrightarrow> this' = this \<and> target' = target"
  using assms unfolding keeps_contract_def by blast+

lemma contract_eating: "same_lexer this (this\<lparr>eating := e\<rparr>)"
  "accounted (this, target) (this\<lparr>eating := e\<rparr>, target)"
  by (simp_all add: same_lexer_def accounted_def)

lemma js_attributes_contract: "keeps_contract (js_attributes re)"
proof -
  have "same_lexer this this' \<and> accounted (this, target) (this', target')
      \<and> (eating this \<noteq> 0 \<longrightarrow> target' = target) \<and> (r = 0 \<longrightarrow> this' = this \<and> target' = target)"
    if e: "js_attributes re this target as vs = (this', target', r)" for this target as vs this' target' r
  proof -
    obtain as' m s where c: "js_clean re (tl as) (tl vs) = (as', m, s)" by (cases "js_clean re (tl as) (tl vs)")
    obtain u1 t1 where i1: "insertTag this target (hd as # as') vs = (u1, t1)"
      by (cases "insertTag this target (hd as # as') vs")
    obtain u2 t2 where i2: "insertTag u1 t1 submit_attrs submit_valus = (u2, t2)"
      by (cases "insertTag u1 t1 submit_attrs submit_valus")
    note k1 = insertTag_contract [OF i1] and k2 = insertTag_contract [OF i2]
    from k1 k2 have "same_lexer this u2" "accounted (this, target) (u2, t2)"
      "eating this \<noteq> 0 \<longrightarrow> t2 = target"
      by (auto simp: same_lexer_def intro: accounted_trans)
    with e c i1 i2 k1 show ?thesis by (auto simp: js_attributes_def split: if_splits)
  qed
  then show ?thesis unfolding keeps_contract_def by blast
qed

lemma contract_script: "keeps_contract (scriptProcessTag_script re)"
  unfolding keeps_contract_def scriptProcessTag_script_def
  by (auto simp: contract_eating split: if_splits dest: keeps_contractD [OF js_attributes_contract])

lemma contract_content_js: "keeps_contract (content_js re)"
  unfolding keeps_contract_def content_js_def
  by (auto simp: contract_eating split: if_splits dest: keeps_contractD [OF js_attributes_contract])

lemma contract_content: "keeps_contract (scriptProcessTag re m)"
proof -
  have "same_lexer this this' \<and> accounted (this, target) (this', target')
      \<and> (eating this \<noteq> 0 \<longrightarrow> target' = target) \<and> (r = 0 \<longrightarrow> this' = this \<and> target' = target)"
    if e: "scriptProcessTag re m this target as vs = (this', target', r)"
    for this target as vs this' target' r
  proof -
    obtain as' vs' x where s: "(if cm_image m \<noteq> 0 then strip_images (tl as) (tl vs)
        else (tl as, tl vs, False)) = (as', vs', x)" by (meson prod_cases3)
    obtain u t where i: "insertTag this target (hd as # as') (hd vs # vs') = (u, t)"
      by (cases "insertTag this target (hd as # as') (hd vs # vs')")
    show ?thesis using e insertTag_contract [OF i]
      unfolding scriptProcessTag_def s
      by (auto simp: i contract_eating split: if_splits dest: keeps_contractD [OF contract_content_js])
  qed
  then show ?thesis unfolding keeps_contract_def by blast
qed

definition posin_blind :: "processTagFunc \<Rightarrow> bool" where
  "posin_blind pt \<longleftrightarrow> (\<forall>this x target as vs. contlen this \<le> 0 \<longrightarrow>
     pt (this\<lparr>posin := x\<rparr>) target as vs
       = (case pt this target as vs of (this', target', r) \<Rightarrow> (this'\<lparr>posin := x\<rparr>, target', r)))"

lemma posin_blindD:
  "posin_blind pt \<Longrightarrow> contlen this \<le> 0 \<Longrightarrow> pt (this\<lparr>posin := x\<rparr>) target as vs
     = (case pt this target as vs of (this', target', r) \<Rightarrow> (this'\<lparr>posin := x\<rparr>, target', r))"
  unfolding posin_blind_def by blast

lemma js_attributes_posin: "posin_blind (js_attributes re)"
proof -
  have "js_attributes re (this\<lparr>posin := x\<rparr>) target as vs = (case js_attributes re this target as vs of
      (this', target', r) \<Rightarrow> (this'\<lparr>posin := x\<rparr>, target', r))" if l: "contlen this \<le> 0"
    for this x target as vs
  proof -
    obtain as' m s where c: "js_clean re (tl as) (tl vs) = (as', m, s)"
      by (cases "js_clean re (tl as) (tl vs)")
    obtain u1 t1 where i1: "insertTag this target (hd as # as') vs = (u1, t1)"
      by (cases "insertTag this target (hd as # as') vs")
    with insertTag_contract [OF i1] l have "contlen u1 \<le> 0" by (simp add: same_lexer_def)
    with l i1 c show ?thesis
      by (auto simp: js_attributes_def insertTag_posin split: prod.splits)
  qed
  then show ?thesis unfolding posin_blind_def by blast
qed

lemma eating_posin:
  fixes this :: htmlFilterObject
  shows "this\<lparr>posin := x, eating := e\<rparr> = this\<lparr>eating := e, posin := x\<rparr>"
  by simp

lemma posin_script: "posin_blind (scriptProcessTag_script re)"
  unfolding posin_blind_def scriptProcessTag_script_def
  by (auto simp: eating_posin posin_blindD [OF js_attributes_posin])

lemma posin_content_js: "posin_blind (content_js re)"
  unfolding posin_blind_def content_js_def
  by (auto simp: eating_posin posin_blindD [OF js_attributes_posin])

lemma posin_content: "posin_blind (scriptProcessTag re m)"
  unfolding posin_blind_def scriptProcessTag_def
  by (auto simp: eating_posin posin_blindD [OF posin_content_js] insertTag_posin
      split: prod.splits)

interpretation content: stream_tag_processor "scriptProcessTag re m" for re m
proof
  fix this target as vs this' target' r
  assume e: "scriptProcessTag re m this target as vs = (this', target', r)"
  note k = keeps_contractD [OF contract_content e]
  show "same_lexer this this'" by (rule k(1))
  show "accounted (this, target) (this', target')" by (rule k(2))
  show "eating this \<noteq> 0 \<Longrightarrow> target' = target" by (rule k(3))
  show "r = 0 \<Longrightarrow> this' = this \<and> target' = target" by (rule k(4))
qed (rule posin_blindD [OF posin_content])

interpretation script: stream_tag_processor "scriptProcessTag_script re" for re
proof
  fix this target as vs this' target' r
  assume e: "scriptProcessTag_script re this target as vs = (this', target', r)"
  note k = keeps_contractD [OF contract_script e]
  show "same_lexer this this'" by (rule k(1))
  show "accounted (this, target) (this', target')" by (rule k(2))
  show "eating this \<noteq> 0 \<Longrightarrow> target' = target" by (rule k(3))
  show "r = 0 \<Longrightarrow> this' = this \<and> target' = target" by (rule k(4))
qed (rule posin_blindD [OF posin_script])

section \<open>What the JavaScript removal leaves\<close>

text \<open>An attribute that carries no script: not an event handler, and its value no entity.\<close>

definition js_safe :: "(string \<Rightarrow> bool) \<Rightarrow> cptr \<Rightarrow> cptr \<Rightarrow> bool" where
  "js_safe re a v = (case a of
     None \<Rightarrow> True
   | Some n \<Rightarrow> js_keyword_of n = None \<and> (case v of None \<Rightarrow> True | Some x \<Rightarrow> \<not> re x))"

lemma js_safe_None [simp]: "js_safe re None v"
  by (simp add: js_safe_def)

lemma js_clean_spec:
  assumes "length as = length vs"
  shows "js_clean re as vs =
    (map2 (\<lambda>a v. if js_safe re a v then a else None) as vs,
     \<not> list_all2 (js_safe re) as vs,
     list_ex (\<lambda>(a, v). \<not> js_safe re a v \<and> has_submit v) (zip as vs))"
  using assms
  by (induction as vs rule: list_induct2)
     (auto simp: js_safe_def isJSAttrib_linear split: option.split)

lemma js_clean_safe:
  assumes "length as = length vs"
  shows "list_all2 (js_safe re) (fst (js_clean re as vs)) vs"
proof -
  have "list_all2 (js_safe re) (map2 (\<lambda>a v. if js_safe re a v then a else None) as vs) vs"
    using assms by (induction as vs rule: list_induct2) auto
  then show ?thesis by (simp add: js_clean_spec [OF assms])
qed

definition tag_text :: "cptr list \<Rightarrow> cptr list \<Rightarrow> bytes" where
  \<comment> \<open>what \<open>insertTag\<close> writes\<close>
  "tag_text as vs = ''<'' @ attr0 as @ attribs_text (tl as) (tl vs) @ ''>''"

lemma insertTag_writes:
  "insertTag this target as vs = (this', target')
     \<Longrightarrow> target' = target \<or> target' = target @ tag_text as vs"
  by (auto simp: insertTag_def tag_text_def Let_def split: if_splits)

text \<open>
  Either the tag is left alone, and then every attribute is harmless, or all that is written is the
  cleaned tag, the faked submit button, or both.
\<close>

definition cleaned ::
  "(string \<Rightarrow> bool) \<Rightarrow> cptr list \<Rightarrow> cptr list \<Rightarrow> bytes \<Rightarrow> int \<Rightarrow> bytes \<Rightarrow> bool" where
  "cleaned re attrs valus target r target' \<longleftrightarrow>
     (if r = 0 then list_all2 (js_safe re) (tl attrs) (tl valus)
      else \<exists>as' out. list_all2 (js_safe re) as' (tl valus) \<and> target' = target @ out
        \<and> out \<in> {[], tag_text (hd attrs # as') valus, tag_text submit_attrs submit_valus,
             tag_text (hd attrs # as') valus @ tag_text submit_attrs submit_valus})"

lemma cleaned_silent [simp]:
  "cleaned re attrs valus target 1 target \<longleftrightarrow> True"
proof -
  have "list_all2 (js_safe re) (map (\<lambda>_. None) (tl valus)) (tl valus)"
    by (induction "tl valus" arbitrary: valus) (auto simp: list_all2_map1 list.rel_refl)
  then show ?thesis unfolding cleaned_def by (simp add: exI [of _ "[]"]) blast
qed

lemma js_attributes_cleaned:
  assumes "length attrs = length valus" "js_attributes re cf target attrs valus = (cf', target', r)"
  shows "cleaned re attrs valus target r target'"
proof -
  have l: "length (tl attrs) = length (tl valus)" using assms(1) by simp
  obtain as' m s where c: "js_clean re (tl attrs) (tl valus) = (as', m, s)"
    by (cases "js_clean re (tl attrs) (tl valus)")
  with js_clean_safe [OF l, of re] js_clean_spec [OF l, of re]
  have safe: "list_all2 (js_safe re) as' (tl valus)"
    and m: "m \<longleftrightarrow> \<not> list_all2 (js_safe re) (tl attrs) (tl valus)" by simp_all
  obtain u1 t1 where i1: "insertTag cf target (hd attrs # as') valus = (u1, t1)"
    by (cases "insertTag cf target (hd attrs # as') valus")
  obtain u2 t2 where i2: "insertTag u1 t1 submit_attrs submit_valus = (u2, t2)"
    by (cases "insertTag u1 t1 submit_attrs submit_valus")
  show ?thesis
  proof (cases m)
    case False
    with m assms(2) c show ?thesis by (simp add: js_attributes_def cleaned_def)
  next
    case True
    with assms(2) c i1 i2 have "r = 1" "target' = (if s then t2 else t1)"
      by (auto simp: js_attributes_def split: if_splits)
    moreover from insertTag_writes [OF i1] insertTag_writes [OF i2] have "\<exists>out. (if s then t2 else t1) = target @ out
        \<and> out \<in> {[], tag_text (hd attrs # as') valus, tag_text submit_attrs submit_valus,
             tag_text (hd attrs # as') valus @ tag_text submit_attrs submit_valus}"
      by (cases s) auto
    ultimately show ?thesis unfolding cleaned_def using safe by auto
  qed
qed

section \<open>Removal of a whole script element\<close>

lemma html_bytes_append':
  "html_bytes pt as st = Some (0, st1) \<Longrightarrow> cstr as
     \<Longrightarrow> html_bytes pt (as @ bs) st = html_bytes pt bs st1"
  by (induction as arbitrary: st) (auto split: option.splits)

text \<open>Text inside a suppressed element is dropped without trace.\<close>

lemma html_bytes_eaten_text:
  assumes "inTag (fst st) = T_TEXT" "eating (fst st) \<noteq> 0" "LT \<notin> set body" "cstr body"
  shows "html_bytes pt body st = Some (0, st)"
  using assms(3,4)
  by (induction body) (use assms(1,2) in \<open>auto simp: html_byte_def storeText_def split: prod.split\<close>)

text \<open>Any of the names a closed, attribute-free tag can have is read back by the parser.\<close>

lemma parse_script:
  "atts (parse_tag ''<SCRIPT>'') = [1]" "str_at (parse_tag ''<SCRIPT>'') 1 = ''SCRIPT''"
  "vals (parse_tag ''<SCRIPT>'') = [None]"
  "atts (parse_tag ''</SCRIPT>'') = [1]" "str_at (parse_tag ''</SCRIPT>'') 1 = ''/SCRIPT''"
  "vals (parse_tag ''</SCRIPT>'') = [None]"
  by code_simp+

definition plain_char :: "char \<Rightarrow> bool" where
  "plain_char c \<longleftrightarrow> c \<notin> {GT, LT, CHR ''='', BS, NUL, DQ, SQ, CHR ''!''} \<and> \<not> isspace c"

lemma html_bytes_name:
  assumes "inTag o1 = T_TAG" "inBSQuot o1 = 0" "list_all plain_char w"
  shows "html_bytes pt w (o1, t) = Some (0, o1\<lparr>tag := tag o1 @ w\<rparr>, t)"
  using assms
proof (induction w arbitrary: o1)
  case (Cons c w)
  have "html_byte pt c (o1, t) = Some (o1\<lparr>tag := tag o1 @ [c]\<rparr>, t)"
    using Cons.prems
    by (auto simp: html_byte_def tag_case_def quot_case_def storeTag_def plain_char_def)
  with Cons.IH [of "o1\<lparr>tag := tag o1 @ [c]\<rparr>"] Cons.prems show ?case
    by (simp add: plain_char_def)
qed simp

lemma html_bytes_open:
  assumes "inTag o1 = T_TEXT" "tag o1 = []" "list_all plain_char w" "w \<noteq> []"
  shows "html_bytes pt (LT # w) (o1, t)
    = Some (0, o1\<lparr>tag := LT # w, inTag := T_TAG, inBSQuot := 0\<rparr>, t)"
proof -
  obtain c cs where w: "w = c # cs" using assms(4) by (cases w) auto
  let ?o = "o1\<lparr>inTag := T_TAG, tag := [LT, c], inBSQuot := 0\<rparr>"
  have c: "plain_char c" "list_all plain_char cs" using assms(3) w by simp_all
  have "html_bytes pt [LT, c] (o1, t) = Some (0, ?o, t)"
    using assms(1,2) c(1)
    by (auto simp: html_byte_def storeTag_def stag_case_def equ_case_def tag_case_def quot_case_def
        plain_char_def NUL_def)
  moreover have "cstr [LT, c]" using c(1) by (simp add: plain_char_def NUL_def)
  ultimately have "html_bytes pt ([LT, c] @ cs) (o1, t) = html_bytes pt cs (?o, t)"
    by (rule html_bytes_append')
  with html_bytes_name [of ?o cs pt t] c(2) w show ?thesis by simp
qed

text \<open>A whole attribute-free tag, up to its closing bracket.\<close>

lemma html_bytes_tag:
  assumes "inTag o1 = T_TEXT" "tag o1 = []" "list_all plain_char w" "w \<noteq> []"
    "atts (parse_tag (LT # w @ [GT])) = [1]" "vals (parse_tag (LT # w @ [GT])) = [None]"
    "str_at (parse_tag (LT # w @ [GT])) 1 = w"
    "pt (o1\<lparr>inTag := T_TAG, inBSQuot := 0, tag := LT # w @ [GT]\<rparr>) t [Some w] [None]
       = (o1\<lparr>inTag := T_TAG, inBSQuot := 0, tag := LT # w @ [GT], eating := e\<rparr>, t, 1)"
  shows "html_bytes pt (LT # w @ [GT]) (o1, t) = Some (0, o1\<lparr>inBSQuot := 0, eating := e\<rparr>, t)"
proof -
  let ?o = "o1\<lparr>tag := LT # w, inTag := T_TAG, inBSQuot := 0\<rparr>"
  have "cstr (LT # w)"
    using assms(3) by (auto simp: cstr_def list_all_iff plain_char_def NUL_def)
  from html_bytes_append' [OF html_bytes_open [OF assms(1-4)] this]
  have "html_bytes pt ((LT # w) @ [GT]) (o1, t) = html_bytes pt [GT] (?o, t)" .
  also have "close_tag pt (?o, t)
      = Some (o1\<lparr>inTag := T_TAG, inBSQuot := 0, eating := e, tag := []\<rparr>, t)"
    using assms(5-8) by (simp add: close_tag_def processTag0_def Let_def)
  then have "html_bytes pt [GT] (?o, t) = Some (0, o1\<lparr>inBSQuot := 0, eating := e\<rparr>, t)"
    using assms(1,2) by (simp add: html_byte_def tag_case_def NUL_def)
  finally show ?thesis by simp
qed

lemma scriptProcessTag_SCRIPT:
  assumes "cm_js m \<noteq> 0"
  shows "scriptProcessTag re m cf target [Some ''SCRIPT''] [None] = (cf\<lparr>eating := 1\<rparr>, target, 1)"
    "eating cf = 1 \<Longrightarrow> scriptProcessTag re m cf target [Some ''/SCRIPT''] [None]
       = (cf\<lparr>eating := 0\<rparr>, target, 1)"
  using assms
  by (simp_all add: scriptProcessTag_def content_js_def mentions_mybox_def is_tag_def is_object_def
      is_object_end_def attr0_def strcasecmp0_def tolower_def ord_def)

section \<open>Properties\<close>

text \<open>
  C6. The perfect hash for event attributes is right: for every attribute name, in any case,
  \<open>isJSAttrib\<close> returns what a linear search through the eighteen keywords returns.
\<close>

theorem isJSAttrib_correct: "isJSAttrib str (length str) = js_keyword_of str"
  by (rule isJSAttrib_linear)

text \<open>
  C1. The HTML filter never fails its assertion: for the content module in any configuration and for
  any page in any blocks (NUL bytes included), the run from a fresh filter object returns.
\<close>

theorem html_filter_never_aborts:
  "html_run (scriptProcessTag re m) blocks (html_new uri len, []) \<noteq> None"
  using content.html_run_total [of "(html_new uri len, [])" re m blocks] by auto

text \<open>
  C3. The announced content length is never undercut: a page that arrives in non-empty blocks
  without NUL bytes leaves the content filter without error and with as many bytes as were
  announced, or as many as the filter wrote if that is more.
\<close>

theorem html_filter_content_length:
  assumes "list_all (\<lambda>b. b \<noteq> [] \<and> cstr b) blocks" "blocks \<noteq> []"
  shows "\<exists>this' out.
    html_run (scriptProcessTag re m) blocks (html_new uri (int (length (concat blocks))), [])
      = Some (0, this', out)
    \<and> int (length out) = max (int (length (concat blocks))) (posout this')"
  using content.html_run_content_length
    [of "html_new uri (int (length (concat blocks)))" blocks re m "[]"] assms
  by (simp add: html_new_def html_inv_def)

theorem html_filter_content_length_witness:
  "\<exists>this' out. html_run (scriptProcessTag (\<lambda>_. False) \<lparr>cm_js = 1, cm_image = 0, cm_object = 0\<rparr>)
      [''a<SCRI'', ''PT>x</SCRIPT>b''] (html_new ''u'' 20, []) = Some (0, this', out)
    \<and> int (length out) = max 20 (posout this')"
  using html_filter_content_length [of "[''a<SCRI'', ''PT>x</SCRIPT>b'']" "\<lambda>_. False"
      "\<lparr>cm_js = 1, cm_image = 0, cm_object = 0\<rparr>" "''u''"]
  by (simp add: NUL_def)

text \<open>
  C4. Without an announced content length the result does not depend on the block boundaries:
  filtering a block that is cut in two gives what filtering the two parts one after the other gives,
  in every state the filter can be in.
\<close>

theorem html_filter_block_boundaries:
  assumes "html_inv this" "contlen this < 0" "cstr a"
  shows "htmlCfFilter (scriptProcessTag re m) this target (a @ b)
    = (case htmlCfFilter (scriptProcessTag re m) this target a of
         None \<Rightarrow> None
       | Some (_, this', target') \<Rightarrow> htmlCfFilter (scriptProcessTag re m) this' target' b)"
  using assms by (rule content.htmlCfFilter_append)

theorem html_filter_block_boundaries_witness:
  "htmlCfFilter (scriptProcessTag (\<lambda>_. False) \<lparr>cm_js = 1, cm_image = 0, cm_object = 0\<rparr>)
      (html_new ''u'' (- 1)) [] (''<a oncl'' @ ''ick=x>'')
    = (case htmlCfFilter (scriptProcessTag (\<lambda>_. False) \<lparr>cm_js = 1, cm_image = 0, cm_object = 0\<rparr>)
         (html_new ''u'' (- 1)) [] ''<a oncl'' of
         None \<Rightarrow> None
       | Some (_, this', target') \<Rightarrow>
           htmlCfFilter (scriptProcessTag (\<lambda>_. False) \<lparr>cm_js = 1, cm_image = 0, cm_object = 0\<rparr>)
             this' target' ''ick=x>'')"
  by (rule html_filter_block_boundaries) (simp_all add: html_new_def html_inv_def NUL_def)

text \<open>
  C8. A content module with nothing switched on is transparent: on a page without NUL bytes and
  without a stray opening bracket inside a tag, what has been written followed by the tag still
  being collected is what had been written and collected before, followed by the page.
\<close>

theorem html_filter_transparent:
  assumes "cm_js m = 0" "cm_image m = 0" "cm_object m = 0"
    "html_inv (fst st)" "eating (fst st) = 0" "cstr page"
    "stray_free (scriptProcessTag re m) page st"
    "html_bytes (scriptProcessTag re m) page st = Some (r, st')"
  shows "snd st' @ tag (fst st') = snd st @ tag (fst st) @ page"
proof -
  have "leaves_alone (scriptProcessTag re m)"
    using assms(1-3) by (simp add: leaves_alone_def scriptProcessTag_def)
  with assms(4-) show ?thesis by (intro html_bytes_transparent)
qed

theorem html_filter_transparent_witness:
  "\<exists>st'. html_bytes (scriptProcessTag (\<lambda>_. False) \<lparr>cm_js = 0, cm_image = 0, cm_object = 0\<rparr>)
      ''x<A HREF=u>y'' (html_new ''u'' (- 1), []) = Some (0, st')
    \<and> snd st' @ tag (fst st') = ''x<A HREF=u>y''"
proof -
  let ?pt = "scriptProcessTag (\<lambda>_. False) \<lparr>cm_js = 0, cm_image = 0, cm_object = 0\<rparr>"
  have i: "html_inv (fst (html_new ''u'' (- 1), [] :: bytes))" by simp
  have c: "cstr ''x<A HREF=u>y''" by (simp add: NUL_def)
  obtain r st' where h: "html_bytes ?pt ''x<A HREF=u>y'' (html_new ''u'' (- 1), []) = Some (r, st')"
    "r = 0" using content.html_bytes_good [OF i] c by blast
  have "stray_free ?pt ''x<A HREF=u>y'' (html_new ''u'' (- 1), [])" by code_simp
  from html_filter_transparent [OF _ _ _ i _ c this h(1)]
  have "snd st' @ tag (fst st') = ''x<A HREF=u>y''" by (simp add: html_new_def)
  with h show ?thesis by blast
qed



text \<open>
  C7. A script element disappears without trace: with \<open>js\<close> on, the bytes of
  \<open><SCRIPT>\<close>, any text without an opening bracket or NUL, and \<open></SCRIPT>\<close>, read in ordinary text,
  write nothing and leave the filter where it was.
\<close>

theorem script_element_removed:
  assumes "cm_js m \<noteq> 0" "inTag this = T_TEXT" "tag this = []" "eating this = 0"
    "LT \<notin> set body" "cstr body"
  shows "html_bytes (scriptProcessTag re m) (''<SCRIPT>'' @ body @ ''</SCRIPT>'') (this, target)
    = Some (0, this\<lparr>inBSQuot := 0\<rparr>, target)"
proof -
  let ?pt = "scriptProcessTag re m" and ?in = "this\<lparr>inBSQuot := 0, eating := 1\<rparr>"
  have p: "list_all plain_char ''SCRIPT''" "list_all plain_char ''/SCRIPT''"
    by (simp_all add: plain_char_def isspace_def ord_def NUL_def)
  have o1: "html_bytes ?pt (LT # ''SCRIPT'' @ [GT]) (this, target) = Some (0, ?in, target)"
    using assms p parse_script by (intro html_bytes_tag) (simp_all add: scriptProcessTag_SCRIPT)
  have b: "html_bytes ?pt body (?in, target) = Some (0, ?in, target)"
    using assms by (intro html_bytes_eaten_text) simp_all
  have e: "html_bytes ?pt (LT # ''/SCRIPT'' @ [GT]) (?in, target)
      = Some (0, ?in\<lparr>inBSQuot := 0, eating := 0\<rparr>, target)"
    using assms p parse_script by (intro html_bytes_tag) (simp_all add: scriptProcessTag_SCRIPT)
  have "html_bytes ?pt (''<SCRIPT>'' @ body @ ''</SCRIPT>'') (this, target)
      = html_bytes ?pt (body @ ''</SCRIPT>'') (?in, target)"
    using html_bytes_append' [OF o1] by (simp add: NUL_def)
  also have "\<dots> = html_bytes ?pt ''</SCRIPT>'' (?in, target)"
    using html_bytes_append' [OF b assms(6)] .
  also have "\<dots> = Some (0, this\<lparr>inBSQuot := 0\<rparr>, target)" using e assms(4) by simp
  finally show ?thesis .
qed

theorem script_element_removed_witness:
  "html_bytes (scriptProcessTag (\<lambda>_. False) \<lparr>cm_js = 1, cm_image = 0, cm_object = 0\<rparr>)
     (''<SCRIPT>'' @ ''alert(1)'' @ ''</SCRIPT>'') (html_new ''u'' (- 1), ''ab'')
    = Some (0, html_new ''u'' (- 1), ''ab'')"
  using script_element_removed [of "\<lparr>cm_js = 1, cm_image = 0, cm_object = 0\<rparr>"
      "html_new ''u'' (- 1)" "''alert(1)''" "\<lambda>_. False" "''ab''"]
  by (simp add: html_new_def NUL_def del: html_bytes.simps)

section \<open>Deviations\<close>

text \<open>
  The repair of a stray bracket adds a byte that is not accounted for by the input, so that the
  output of a page of seven bytes can have nine, more than the announced length.
\<close>

lemma html_filter_overruns_content_length:
  "map_option (\<lambda>(r, this, out). (r, contlen this, out))
     (htmlCfFilter (scriptProcessTag (\<lambda>_. False) \<lparr>cm_js = 0, cm_image = 0, cm_object = 0\<rparr>)
       (html_new ''u'' 7) [] ''<a<b<c>'') = Some (0, 7, ''<a><b><c>'')"
  by code_simp

text \<open>With \<open>image\<close> and \<open>js\<close> both on, a tag with a background image keeps its event handlers.\<close>

lemma background_tag_keeps_handlers:
  "snd (scriptProcessTag (\<lambda>_. False) \<lparr>cm_js = 1, cm_image = 1, cm_object = 1\<rparr>
     (html_new ''u'' (- 1)) [] [Some ''BODY'', Some ''BACKGROUND'', Some ''ONLOAD'']
       [None, Some ''i.gif'', Some ''evil()'']) = (''<BODY ONLOAD=evil()>'', 1)"
  by code_simp

text \<open>Any tag with the appliance's host name in a value is exempt, whatever else it holds.\<close>

lemma mybox_value_exempts_script:
  "snd (scriptProcessTag (\<lambda>_. False) \<lparr>cm_js = 1, cm_image = 1, cm_object = 1\<rparr>
     (html_new ''u'' (- 1)) [] [Some ''SCRIPT'', Some ''SRC'']
       [None, Some ''http://evil/?mybox.internal.proxy'']) = ([], 0)"
  by code_simp

text \<open>A cleaned tag is written without the quotes of its values, so a value with a blank falls apart.\<close>

lemma cleaned_tag_loses_quotes:
  "map_option (\<lambda>(r, this, out). out)
     (htmlCfFilter (scriptProcessTag (\<lambda>_. False) \<lparr>cm_js = 1, cm_image = 0, cm_object = 0\<rparr>)
       (html_new ''u'' (- 1)) [] (''<A TITLE='' @ [DQ] @ ''a b'' @ [DQ] @ '' ONCLICK=x>''))
    = Some ''<A TITLE=a b>''"
  by code_simp

end
