(* ===== verification/PatFile.thy ===== *)
theory PatFile
  imports Prelude
begin

text \<open>
  The pattern files of the filter modules, \<^verbatim>\<open>src/patfile.c\<close>: lists of regular expressions, read again
  whenever the file's modification time grows, that either allow or deny a URI (\<open>replace\<close> off) or
  rewrite it (\<open>replace\<close> on). The regular expression library is a parameter: \<open>rcomp pattern icase nosub\<close>
  is \<open>regcomp\<close>, \<open>None\<close> for an error, and \<open>rexec re s\<close> is \<open>regexec\<close> with ten registers, \<open>None\<close> for no match
  and otherwise the offsets \<open>(rm_so, rm_eo)\<close> of the registers, \<open>-1\<close> where a group did not take part.
  The file system is a parameter too: modification time and contents by name.
\<close>

section \<open>Data\<close>

type_synonym regmatch = "int \<times> int"

datatype pat_action = Negate bool | Replace cptr

record 're patChain =
  patbuf :: 're
  action :: pat_action

record 're patFileObject =
  pchain :: "'re patChain list"
  fileName :: string
  mtime :: int
  replace :: bool
  pbuf :: bytes
  buflen :: nat

record file_env =
  f_mtime :: "string \<Rightarrow> int option"
  f_data :: "string \<Rightarrow> bytes option"

type_synonym 're regcomp = "string \<Rightarrow> bool \<Rightarrow> bool \<Rightarrow> 're option"
type_synonym 're regexec = "'re \<Rightarrow> string \<Rightarrow> regmatch list option"

datatype crash = NullDeref

definition BUFINCR :: nat where "BUFINCR = 1024"

definition patfileNew :: "string \<Rightarrow> bool \<Rightarrow> 're patFileObject" where
  "patfileNew name repl =
     \<lparr>pchain = [], fileName = name, mtime = 0, replace = repl, pbuf = [], buflen = 0\<rparr>"

section \<open>Loading\<close>

abbreviation TAB :: char where "TAB \<equiv> CHR 0x09"
abbreviation NL :: char where "NL \<equiv> CHR 0x0A"

text \<open>
  The first half of the loop body on one buffer: \<open>None\<close> for a blank line or a comment, otherwise the
  strings at \<open>p0\<close> and \<open>p1\<close> (\<open>None\<close> for \<open>p1 == NULL\<close>).
\<close>

definition pat_fields :: "bytes \<Rightarrow> (string \<times> cptr) option" where
  "pat_fields buf =
     (let p0 = dropWhile (\<lambda>c. c = CHR '' '' \<or> c = TAB) (cread buf) in
      if p0 = [] \<or> hd p0 = CHR ''#'' \<or> hd p0 = NL then None
      else
        (let pat = takeWhile (\<lambda>c. c \<noteq> TAB \<and> c \<noteq> NL) p0;
             rest = dropWhile (\<lambda>c. c \<noteq> TAB \<and> c \<noteq> NL) p0 in
         if rest = [] then Some (pat, None)
         else
           (let p1 = takeWhile (\<lambda>c. c \<noteq> NL) (dropWhile (\<lambda>c. c = TAB) (tl rest)) in
            Some (pat, if p1 = [] \<or> hd p1 = CHR ''!'' then None else Some p1))))"

definition strip_flag :: "char \<Rightarrow> string \<Rightarrow> bool \<times> string" where
  "strip_flag c s = (if s \<noteq> [] \<and> hd s = c then (True, tl s) else (False, s))"

text \<open>
  The rest of the loop body: the reject definition \<open>bang\<close> afterwards and the entry to append, if any.
\<close>

definition pat_line ::
  "'re regcomp \<Rightarrow> bool \<Rightarrow> cptr \<Rightarrow> bytes \<Rightarrow> cptr \<times> 're patChain option" where
  "pat_line rcomp repl bang buf =
     (case pat_fields buf of
        None \<Rightarrow> (bang, None)
      | Some (p0, p1) \<Rightarrow>
          (let (icase, p0) = strip_flag (CHR ''-'') p0;
               (neg, p0') = strip_flag (CHR ''!'') p0 in
           if neg \<and> repl then (if bang = None then p1 else bang, None)
           else
             (let (skip, p0) = (if repl then strip_flag (CHR ''%'') p0' else (False, p0')) in
              case rcomp p0 icase (\<not> repl) of
                None \<Rightarrow> (bang, None)
              | Some re \<Rightarrow>
                  (bang, Some \<lparr>patbuf = re,
                     action = (if repl then
                                 Replace (if skip then Some p0
                                          else if p1 \<noteq> None then p1 else bang)
                               else Negate neg)\<rparr>))))"

fun load_lines ::
  "'re regcomp \<Rightarrow> bool \<Rightarrow> cptr \<Rightarrow> bytes list \<Rightarrow> 're patChain list" where
  "load_lines rcomp repl bang [] = []"
| "load_lines rcomp repl bang (b # bs) =
     (case pat_line rcomp repl bang b of
        (bang', None) \<Rightarrow> load_lines rcomp repl bang' bs
      | (bang', Some n) \<Rightarrow> n # load_lines rcomp repl bang' bs)"

definition patfileUnload :: "'re patFileObject \<Rightarrow> 're patFileObject" where
  "patfileUnload this = this\<lparr>pchain := []\<rparr>"

definition patfileCheckReload ::
  "file_env \<Rightarrow> 're regcomp \<Rightarrow> 're patFileObject \<Rightarrow> 're patFileObject" where
  "patfileCheckReload env rcomp this =
     (case f_mtime env (fileName this) of
        None \<Rightarrow> this
      | Some t \<Rightarrow>
          (if t \<le> mtime this then this
           else
             (let this = this\<lparr>mtime := t\<rparr> in
              case f_data env (fileName this) of
                None \<Rightarrow> this
              | Some d \<Rightarrow>
                  (let this = patfileUnload this in
                   this\<lparr>pchain := load_lines rcomp (replace this) None (fgets_all 256 d)\<rparr>))))"

section \<open>Substitution\<close>

text \<open>
  The loop of \<open>patfileSubst\<close>. The variables \<open>k\<close> and \<open>i\<close> of the source, both non-negative while a
  register is being copied and both \<open>-1\<close> otherwise, are one optional pair.
\<close>

function psubst ::
  "string \<Rightarrow> regmatch list \<Rightarrow> string \<Rightarrow> (nat \<times> int) option \<Rightarrow> bytes \<Rightarrow> bytes" where
  "psubst uri subs p0 (Some (k, i)) acc =
     (if i < snd (subs ! k) then psubst uri subs p0 (Some (k, i + 1)) (acc @ [uri ! nat i])
      else psubst uri subs p0 None acc)"
| "psubst uri subs [] None acc = acc"
| "psubst uri subs (c # cs) None acc =
     (if c = CHR 0x5C \<and> cs \<noteq> [] \<and> isdigit (hd cs) then
        (let k = ord (hd cs) - 48; i = fst (subs ! k) in
         psubst uri subs (tl cs) (if i < 0 then None else Some (k, i)) acc)
      else psubst uri subs cs None (acc @ [c]))"
  by pat_completeness auto
termination
  by (relation "measures [\<lambda>(uri, subs, p0, cur, acc). length p0,
        \<lambda>(uri, subs, p0, cur, acc).
          case cur of None \<Rightarrow> 0 | Some (k, i) \<Rightarrow> Suc (nat (snd (subs ! k) - i))]")
     auto

declare psubst.simps(1) [simp del]

text \<open>The size of the reply buffer after \<open>n\<close> bytes have been stored in it one by one.\<close>

fun grow_buf :: "nat \<Rightarrow> nat \<Rightarrow> nat" where
  "grow_buf 0 b = b"
| "grow_buf (Suc n) b = (let b' = grow_buf n b in if b' \<le> n + 1 then b' + BUFINCR else b')"

text \<open>
  The result is a crash where the code stores the final NUL through the buffer pointer that is still
  NULL; otherwise the object afterwards and the string returned.
\<close>

definition patfileSubst ::
  "'re patFileObject \<Rightarrow> string \<Rightarrow> 're patChain \<Rightarrow> regmatch list
     \<Rightarrow> crash + 're patFileObject \<times> cptr" where
  "patfileSubst this uri r subs =
     (case action r of
        Replace (Some p0) \<Rightarrow>
          (if uri = p0 then Inr (this, Some p0)
           else
             (let out = psubst uri subs p0 None [];
                  b = grow_buf (length out) (buflen this) in
              if b = 0 then Inl NullDeref
              else Inr (this\<lparr>pbuf := out, buflen := b\<rparr>, Some out)))
      | _ \<Rightarrow> Inr (this, None))"

fun patMatch ::
  "'re regexec \<Rightarrow> 're patFileObject \<Rightarrow> string \<Rightarrow> 're patChain list
     \<Rightarrow> crash + 're patFileObject \<times> cptr" where
  "patMatch rexec this uri [] = Inr (this, None)"
| "patMatch rexec this uri (r # rs) =
     (case rexec (patbuf r) uri of
        None \<Rightarrow> patMatch rexec this uri rs
      | Some subs \<Rightarrow>
          (if replace this then patfileSubst this uri r subs
           else Inr (this, if action r = Negate True then None else Some uri)))"

definition patfileMatch ::
  "'re regexec \<Rightarrow> 're patFileObject \<Rightarrow> string \<Rightarrow> crash + 're patFileObject \<times> cptr" where
  "patfileMatch rexec this uri = patMatch rexec this uri (pchain this)"

section \<open>The reload protocol\<close>

lemma patfileCheckReload_idem [simp]:
  "patfileCheckReload env rcomp (patfileCheckReload env rcomp this) = patfileCheckReload env rcomp this"
  by (auto simp: patfileCheckReload_def patfileUnload_def Let_def split: option.split)

lemma patfileCheckReload_keeps [simp]:
  "replace (patfileCheckReload env rcomp this) = replace this"
  "fileName (patfileCheckReload env rcomp this) = fileName this"
  "pbuf (patfileCheckReload env rcomp this) = pbuf this"
  "buflen (patfileCheckReload env rcomp this) = buflen this"
  by (auto simp: patfileCheckReload_def patfileUnload_def Let_def split: option.split)

lemma patfileCheckReload_mtime: "mtime this \<le> mtime (patfileCheckReload env rcomp this)"
  by (auto simp: patfileCheckReload_def patfileUnload_def Let_def split: option.split)

section \<open>Matching\<close>

text \<open>In an allow list the first expression that matches decides.\<close>

definition first_match :: "'re regexec \<Rightarrow> 're patChain list \<Rightarrow> string \<Rightarrow> 're patChain option" where
  "first_match rexec ch uri = find (\<lambda>r. rexec (patbuf r) uri \<noteq> None) ch"

lemma patMatch_allow:
  "\<not> replace this \<Longrightarrow> patMatch rexec this uri ch = Inr (this,
     case first_match rexec ch uri of
       None \<Rightarrow> None | Some r \<Rightarrow> if action r = Negate True then None else Some uri)"
  by (induction ch) (auto simp: first_match_def split: option.split)

lemma patMatch_replace:
  "replace this \<Longrightarrow> patMatch rexec this uri ch =
     (case first_match rexec ch uri of
        None \<Rightarrow> Inr (this, None)
      | Some r \<Rightarrow> patfileSubst this uri r (the (rexec (patbuf r) uri)))"
  by (induction ch) (auto simp: first_match_def split: option.split)

section \<open>Substitution against its specification\<close>

text \<open>The text of a register, and the replacement with every \<open>\k\<close> replaced by it.\<close>

definition reg_text :: "string \<Rightarrow> regmatch \<Rightarrow> string" where
  "reg_text uri m = (case m of (so, eo) \<Rightarrow>
     if so < 0 then [] else take (nat (eo - so)) (drop (nat so) uri))"

fun expand :: "string \<Rightarrow> regmatch list \<Rightarrow> string \<Rightarrow> string" where
  "expand uri subs [] = []"
| "expand uri subs [c] = [c]"
| "expand uri subs (c # d # cs) =
     (if c = CHR 0x5C \<and> isdigit d then reg_text uri (subs ! (ord d - 48)) @ expand uri subs cs
      else c # expand uri subs (d # cs))"

definition regs_ok :: "string \<Rightarrow> regmatch list \<Rightarrow> bool" where
  \<comment> \<open>what \<open>regexec\<close> promises: ten registers, within the subject string\<close>
  "regs_ok uri subs \<longleftrightarrow> length subs = 10
     \<and> list_all (\<lambda>(so, eo). so < 0 \<or> (so \<le> eo \<and> eo \<le> int (length uri))) subs"

lemma psubst_register:
  assumes "0 \<le> i" "snd (subs ! k) \<le> int (length uri)"
  shows "psubst uri subs p0 (Some (k, i)) acc
    = psubst uri subs p0 None (acc @ take (nat (snd (subs ! k) - i)) (drop (nat i) uri))"
  using assms
proof (induction "nat (snd (subs ! k) - i)" arbitrary: i acc)
  case 0
  then show ?case by (simp add: psubst.simps(1))
next
  case (Suc n)
  then have i: "i < snd (subs ! k)" and n: "n = nat (snd (subs ! k) - (i + 1))" by simp_all
  with Suc.prems have lt: "nat i < length uri" by linarith
  have e: "nat (snd (subs ! k) - i) = Suc n" using Suc.hyps(2) by simp
  have "psubst uri subs p0 (Some (k, i)) acc
      = psubst uri subs p0 (Some (k, i + 1)) (acc @ [uri ! nat i])"
    using i by (simp add: psubst.simps(1) [of uri subs p0 k i acc])
  also have "\<dots> = psubst uri subs p0 None
      ((acc @ [uri ! nat i]) @ take n (drop (nat (i + 1)) uri))"
    using Suc.hyps(1) [OF n] Suc.prems n by simp
  also have "(acc @ [uri ! nat i]) @ take n (drop (nat (i + 1)) uri)
      = acc @ take (Suc n) (drop (nat i) uri)"
    using lt Suc.prems(1) by (simp add: nat_add_distrib Cons_nth_drop_Suc [symmetric])
  finally show ?case using e by simp
qed

lemma isdigit_reg: "isdigit d \<Longrightarrow> ord d - 48 < 10"
  by (auto simp: isdigit_def)

lemma psubst_expand:
  assumes "regs_ok uri subs"
  shows "psubst uri subs p0 None acc = acc @ expand uri subs p0"
proof (induction p0 arbitrary: acc rule: length_induct)
  case (1 p0)
  show ?case
  proof (cases p0)
    case Nil
    then show ?thesis by simp
  next
    case (Cons c cs)
    show ?thesis
    proof (cases "c = CHR 0x5C \<and> cs \<noteq> [] \<and> isdigit (hd cs)")
      case True
      then obtain d ds where cs: "cs = d # ds" "isdigit d" by (cases cs) auto
      let ?k = "ord d - 48"
      have "subs ! ?k \<in> set subs" using assms isdigit_reg [OF cs(2)] by (simp add: regs_ok_def)
      with assms have k: "fst (subs ! ?k) < 0 \<or> snd (subs ! ?k) \<le> int (length uri)"
        by (auto simp: regs_ok_def list_all_iff)
      have IH: "psubst uri subs ds None acc' = acc' @ expand uri subs ds" for acc'
        using 1 Cons cs by simp
      show ?thesis
        using True Cons cs k IH psubst_register [of "fst (subs ! ?k)" subs ?k uri ds acc]
        by (auto simp: reg_text_def split_beta Let_def)
    next
      case False
      have "psubst uri subs cs None (acc @ [c]) = (acc @ [c]) @ expand uri subs cs"
        using 1 Cons by simp
      with False Cons show ?thesis by (cases cs) auto
    qed
  qed
qed

lemma grow_buf_enough: "0 < n \<Longrightarrow> n < grow_buf n b"
proof (induction n)
  case (Suc n)
  then show ?case by (cases n) (auto simp: Let_def BUFINCR_def)
qed simp

lemma grow_buf_zero: "grow_buf n b = 0 \<longleftrightarrow> n = 0 \<and> b = 0"
  using grow_buf_enough [of n b] by (cases n) auto

section \<open>The interface to the filter modules\<close>

text \<open>
  A module asks its pattern file about several strings of one request, each time reloading the file
  first. Since a second reload without a change of the file does nothing, all the answers come from
  the same list of patterns.
\<close>

locale pattern_source =
  fixes reload :: "'p \<Rightarrow> 'p" and query :: "'p \<Rightarrow> string \<Rightarrow> 'e + 'p \<times> cptr"
    and plain :: "'p \<Rightarrow> bool"
  assumes reload_idem: "reload (reload p) = reload p"
    and reload_plain: "plain (reload p) = plain p"
    and query_pure: "plain p \<Longrightarrow> \<exists>r. query p s = Inr (p, r)"
begin

definition answer :: "'p \<Rightarrow> string \<Rightarrow> cptr" where
  "answer p s = (case query (reload p) s of Inr (_, r) \<Rightarrow> r | Inl _ \<Rightarrow> None)"

lemma query_answer: "plain p \<Longrightarrow> query (reload p) s = Inr (reload p, answer p s)"
  using query_pure [of "reload p" s] reload_plain [of p] by (auto simp: answer_def)

lemma answer_reload [simp]: "answer (reload p) s = answer p s"
  by (simp add: answer_def reload_idem)

end

interpretation patfile:
  pattern_source "patfileCheckReload env rcomp" "patfileMatch rexec" "\<lambda>p. \<not> replace p"
  for env rcomp rexec
  by unfold_locales (auto simp: patfileMatch_def patMatch_allow)

section \<open>Properties\<close>



text \<open>
  C10. The substitution is right and stays in its buffer: when the registers are those of a match, the
  reply is the replacement text with every backslash and digit replaced by the text of that
  register, and the buffer has grown beyond it; the one exception is an empty reply before the
  buffer was ever allocated, where the code stores through a null pointer.
\<close>

theorem patfile_subst_correct:
  assumes "regs_ok uri subs" "action r = Replace (Some rep)" "uri \<noteq> rep"
  shows "if expand uri subs rep = [] \<and> buflen this = 0
    then patfileSubst this uri r subs = Inl NullDeref
    else \<exists>b. patfileSubst this uri r subs
        = Inr (this\<lparr>pbuf := expand uri subs rep, buflen := b\<rparr>, Some (expand uri subs rep))
      \<and> length (expand uri subs rep) < b"
proof -
  have e: "psubst uri subs rep None [] = expand uri subs rep"
    using psubst_expand [OF assms(1), of rep "[]"] by simp
  let ?n = "length (expand uri subs rep)"
  have "?n < grow_buf ?n (buflen this)" if "\<not> (?n = 0 \<and> buflen this = 0)"
    using that grow_buf_enough [of ?n "buflen this"] by (cases ?n) auto
  then show ?thesis using assms(2,3) e by (auto simp: patfileSubst_def Let_def grow_buf_zero)
qed

theorem patfile_subst_correct_witness:
  "\<exists>b. patfileSubst (patfileNew ''f'' True) ''http://a/x''
      \<lparr>patbuf = (), action = Replace (Some [CHR ''u'', CHR 0x5C, CHR ''1''])\<rparr>
      ((0, 10) # (7, 8) # replicate 8 (- 1, - 1))
    = Inr ((patfileNew ''f'' True)\<lparr>pbuf := ''ua'', buflen := b\<rparr>, Some ''ua'') \<and> 2 < b"
proof -
  have r: "regs_ok ''http://a/x'' ((0, 10) # (7, 8) # replicate 8 (- 1, - 1))"
    by (simp add: regs_ok_def numeral_eq_Suc)
  have x: "expand ''http://a/x'' ((0, 10) # (7, 8) # replicate 8 (- 1, - 1))
      [CHR ''u'', CHR 0x5C, CHR ''1''] = ''ua''" by code_simp
  from patfile_subst_correct [OF r, of "\<lparr>patbuf = (), action = Replace (Some [CHR ''u'', CHR 0x5C, CHR ''1''])\<rparr>"
      "[CHR ''u'', CHR 0x5C, CHR ''1'']" "patfileNew ''f'' True"] x
  show ?thesis by auto
qed

text \<open>
  Reloading: when the file is newer than the loaded patterns and can be opened, the pattern list
  is the one its lines denote, and the modification time is remembered, so that a second check
  changes nothing; when it is not newer, the object stays as it is.
\<close>

theorem patfile_reload:
  assumes "f_mtime env (fileName this) = Some t" "f_data env (fileName this) = Some d"
  shows "patfileCheckReload env rcomp this
    = (if t \<le> mtime this then this
       else this\<lparr>mtime := t, pchain := load_lines rcomp (replace this) None (fgets_all 256 d)\<rparr>)
    \<and> patfileCheckReload env rcomp (patfileCheckReload env rcomp this)
      = patfileCheckReload env rcomp this"
  using assms by (simp add: patfileCheckReload_def patfileUnload_def Let_def)

theorem patfile_reload_witness:
  "patfileCheckReload \<lparr>f_mtime = (\<lambda>_. Some 5), f_data = (\<lambda>_. Some (''!ads'' @ [NL]))\<rparr>
     (\<lambda>p i n. Some p) (patfileNew ''f'' False)
   = (patfileNew ''f'' False)\<lparr>mtime := 5, pchain := [\<lparr>patbuf = ''ads'', action = Negate True\<rparr>]\<rparr>"
proof -
  have "load_lines (\<lambda>p i n. Some p) False None (fgets_all 256 (''!ads'' @ [NL]))
      = [\<lparr>patbuf = ''ads'', action = Negate True\<rparr>]" by code_simp
  with patfile_reload [of "\<lparr>f_mtime = (\<lambda>_. Some 5), f_data = (\<lambda>_. Some (''!ads'' @ [NL]))\<rparr>"
      "patfileNew ''f'' False" 5 "''!ads'' @ [NL]" "\<lambda>p i n. Some p"]
  show ?thesis by (simp add: patfileNew_def)
qed

end
