(* ===== verification/FileSys.thy ===== *)
theory FileSys
  imports Prelude "HOL-Library.Sublist"
begin

text \<open>
  The file system as the appliance's programs see it, and the library functions of
  \<^verbatim>\<open>v3.1/src/mybox/lib\<close> that work on it: \<open>file_exists\<close>, \<open>is_dir\<close>, \<open>read_oneline\<close>, \<open>save_to_file\<close>,
  \<open>append_to_file\<close>, \<open>xwrite\<close> and \<open>xmkdir\<close>, with the copies of three of them that the web filters carry
  (\<^verbatim>\<open>filters/lib.c\<close>).

  A path denotes the list of its components (the working directory is the root); repeated and trailing slashes do not matter, and the
  components \<open>.\<close> and \<open>..\<close> and symbolic links are not interpreted. An inode is its mode word, as
  \<open>stat\<close> returns it, and its contents. Errors other than those of the directory tree itself (permissions,
  a full or read-only disk) come from the predicate \<open>deny\<close> of the state.
\<close>

unbundle bit_operations_syntax

section \<open>The file system\<close>

type_synonym mode = "32 word"

record inode =
  imode :: mode
  idata :: bytes

record fsys =
  inodes :: "string list \<Rightarrow> inode option"
  fumask :: mode
  deny :: "string list \<Rightarrow> bool"

definition S_IFMT :: mode where "S_IFMT = 0xF000"
definition S_IFREG :: mode where "S_IFREG = 0x8000"
definition S_IFLNK :: mode where "S_IFLNK = 0xA000"
definition S_IFDIR :: mode where "S_IFDIR = 0x4000"

fun comps_acc :: "string \<Rightarrow> string \<Rightarrow> string list" where
  "comps_acc [] acc = (if acc = [] then [] else [acc])"
| "comps_acc (c # cs) acc =
     (if c = CHR ''/'' then (if acc = [] then comps_acc cs [] else acc # comps_acc cs [])
      else comps_acc cs (acc @ [c]))"

definition comps :: "string \<Rightarrow> string list" where
  "comps p = comps_acc p []"

definition fs_node :: "fsys \<Rightarrow> string \<Rightarrow> inode option" where
  "fs_node fs p = (if p = [] then None else inodes fs (comps p))"

definition fs_stat :: "fsys \<Rightarrow> string \<Rightarrow> mode option" where
  "fs_stat fs p = map_option imode (fs_node fs p)"

definition S_ISDIR :: "mode \<Rightarrow> bool" where
  "S_ISDIR m \<longleftrightarrow> m AND S_IFMT = S_IFDIR"

definition fs_isdir :: "fsys \<Rightarrow> string list \<Rightarrow> bool" where
  "fs_isdir fs q \<longleftrightarrow> (case inodes fs q of None \<Rightarrow> False | Some n \<Rightarrow> S_ISDIR (imode n))"

datatype errno = EEXIST | EOTHER

text \<open>\<open>mkdir(path, mode)\<close> and \<open>chmod(path, mode)\<close>: the errno on failure.\<close>

definition fs_mkdir :: "fsys \<Rightarrow> string \<Rightarrow> mode \<Rightarrow> fsys \<times> errno option" where
  "fs_mkdir fs p m =
     (let q = comps p in
      if p = [] then (fs, Some EOTHER)
      else if inodes fs q \<noteq> None then (fs, Some EEXIST)
      else if q = [] \<or> \<not> fs_isdir fs (butlast q) \<or> deny fs q then (fs, Some EOTHER)
      else (fs\<lparr>inodes := (inodes fs)(q \<mapsto>
              \<lparr>imode = S_IFDIR OR (m AND NOT (fumask fs)), idata = []\<rparr>)\<rparr>, None))"

definition fs_chmod :: "fsys \<Rightarrow> string \<Rightarrow> mode \<Rightarrow> fsys \<times> errno option" where
  "fs_chmod fs p m =
     (let q = comps p in
      case fs_node fs p of
        None \<Rightarrow> (fs, Some EOTHER)
      | Some n \<Rightarrow>
          (if deny fs q then (fs, Some EOTHER)
           else (fs\<lparr>inodes := (inodes fs)(q \<mapsto>
                   n\<lparr>imode := (imode n AND S_IFMT) OR (m AND 0xFFF)\<rparr>)\<rparr>, None)))"

section \<open>Existence tests\<close>

definition file_exists :: "fsys \<Rightarrow> string \<Rightarrow> bool" where
  "file_exists fs s =
     (case fs_stat fs s of
        None \<Rightarrow> False
      | Some m \<Rightarrow> m AND S_IFREG \<noteq> 0 \<or> m AND S_IFLNK \<noteq> 0 \<or> m AND S_IFDIR \<noteq> 0)"

definition is_dir :: "fsys \<Rightarrow> string \<Rightarrow> bool" where
  "is_dir fs s =
     (case fs_stat fs s of
        None \<Rightarrow> False
      | Some m \<Rightarrow> m AND S_IFREG \<noteq> 0 \<or> m AND S_IFDIR \<noteq> 0)"

definition cf_file_exists :: "fsys \<Rightarrow> string \<Rightarrow> bool" where
  "cf_file_exists fs s =
     (case fs_stat fs s of
        None \<Rightarrow> False
      | Some m \<Rightarrow> m AND S_IFREG \<noteq> 0 \<or> m AND S_IFLNK \<noteq> 0 \<or> m AND S_IFDIR \<noteq> 0)"

definition cf_is_dir :: "fsys \<Rightarrow> string \<Rightarrow> bool" where
  "cf_is_dir fs s =
     (case fs_stat fs s of
        None \<Rightarrow> False
      | Some m \<Rightarrow> m AND S_IFREG \<noteq> 0 \<or> m AND S_IFDIR \<noteq> 0)"

section \<open>Whole-file input and output\<close>

text \<open>
  \<open>read_oneline\<close>: \<open>None\<close> when the file cannot be opened (return value \<open>-1\<close>), otherwise the return value
  of \<open>read\<close> and what the buffer holds, as a string; a directory can be opened but not read.
\<close>

definition read_oneline :: "fsys \<Rightarrow> string \<Rightarrow> (int \<times> string) option" where
  "read_oneline fs p =
     (case fs_node fs p of
        None \<Rightarrow> None
      | Some n \<Rightarrow>
          (if deny fs (comps p) then None
           else if S_ISDIR (imode n) then Some (- 1, [])
           else Some (int (min 1023 (length (idata n))), cread (take 1023 (idata n)))))"

text \<open>
  \<open>xwrite\<close> repeats a \<open>write\<close> that was interrupted. The outcomes of the successive calls are given:
  \<open>None\<close> for an interruption, otherwise the value returned. A signal may interrupt for ever, so the
  loop has a result only if some call is not interrupted.
\<close>

fun xwrite :: "int option list \<Rightarrow> int option" where
  "xwrite [] = None"
| "xwrite (None # outs) = xwrite outs"
| "xwrite (Some n # outs) = Some n"

definition fs_open_write :: "fsys \<Rightarrow> string \<Rightarrow> bool \<Rightarrow> fsys option" where
  \<comment> \<open>\<open>open\<close> for writing with \<open>O_CREAT\<close>, and \<open>O_TRUNC\<close> or \<open>O_APPEND\<close>\<close>
  "fs_open_write fs p trunc =
     (let q = comps p in
      if p = [] \<or> deny fs q \<or> fs_isdir fs q then None
      else
        (case inodes fs q of
           Some n \<Rightarrow> Some (if trunc then fs\<lparr>inodes := (inodes fs)(q \<mapsto> n\<lparr>idata := []\<rparr>)\<rparr> else fs)
         | None \<Rightarrow>
             (if q = [] \<or> \<not> fs_isdir fs (butlast q) then None
              else Some (fs\<lparr>inodes := (inodes fs)(q \<mapsto>
                \<lparr>imode = S_IFREG OR (0x180 AND NOT (fumask fs)), idata = []\<rparr>)\<rparr>))))"

definition fs_append :: "fsys \<Rightarrow> string \<Rightarrow> bytes \<Rightarrow> fsys" where
  "fs_append fs p d =
     (case inodes fs (comps p) of
        None \<Rightarrow> fs
      | Some n \<Rightarrow> fs\<lparr>inodes := (inodes fs)(comps p \<mapsto> n\<lparr>idata := idata n @ d\<rparr>)\<rparr>)"

text \<open>
  \<open>save_to_file\<close> and \<open>append_to_file\<close> of an already formatted string, when the write is complete. A
  negative result means that the file could not be opened.
\<close>

definition save_to_file :: "fsys \<Rightarrow> string \<Rightarrow> string \<Rightarrow> fsys \<times> int" where
  "save_to_file fs p s =
     (case fs_open_write fs p True of
        None \<Rightarrow> (fs, - 1)
      | Some fs' \<Rightarrow> (fs_append fs' p s, int (length s)))"

definition append_to_file :: "fsys \<Rightarrow> string \<Rightarrow> string \<Rightarrow> fsys \<times> int" where
  "append_to_file fs p s =
     (case fs_open_write fs p False of
        None \<Rightarrow> (fs, - 1)
      | Some fs' \<Rightarrow> (fs_append fs' p s, int (length s)))"

section \<open>Making directories\<close>

text \<open>How far the inner \<open>while\<close> moves: to the byte after the next run of slashes, or to the end.\<close>

definition mk_scan :: "string \<Rightarrow> nat" where
  "mk_scan s =
     length (takeWhile (\<lambda>c. c \<noteq> CHR ''/'') s)
     + length (takeWhile (\<lambda>c. c = CHR ''/'') (dropWhile (\<lambda>c. c \<noteq> CHR ''/'') s))"

lemma mk_scan_progress: "s \<noteq> [] \<Longrightarrow> 0 < mk_scan s"
  by (cases s) (auto simp: mk_scan_def)

text \<open>
  The outer loop: \<open>pre\<close> is the part of the path before the pointer \<open>s\<close> and \<open>rest\<close> the part from it
  on. The variable \<open>c\<close> is NUL exactly when nothing is left behind the cut.
\<close>

function mk_loop :: "mode \<Rightarrow> fsys \<Rightarrow> string \<Rightarrow> string \<Rightarrow> fsys \<times> int" where
  "mk_loop omask fs pre rest =
     (let k = mk_scan rest; path = pre @ take k rest; rest' = drop k rest in
      case fs_mkdir fs path 0x1C0 of
        (fs, Some e) \<Rightarrow>
          (if e \<noteq> EEXIST \<or> (case fs_stat fs path of None \<Rightarrow> True | Some st \<Rightarrow> \<not> S_ISDIR st) then (fs\<lparr>fumask := omask\<rparr>, - 1)
           else if rest' = [] then (fs\<lparr>fumask := omask\<rparr>, 0)
           else mk_loop omask fs path rest')
      | (fs, None) \<Rightarrow>
          (if rest' = [] then
             (case fs_chmod (fs\<lparr>fumask := omask\<rparr>) path 0x1C0 of
                (fs, Some _) \<Rightarrow> (fs, - 1)
              | (fs, None) \<Rightarrow> (fs, 0))
           else mk_loop omask fs path rest'))"
  by pat_completeness auto
termination
proof (relation "measure (\<lambda>(omask, fs, pre, rest). length rest)", goal_cases)
  case (2 omask fs pre rest k path rest')
  then have "rest \<noteq> []" by auto
  with 2 mk_scan_progress [of rest] show ?case by simp
next
  case (3 omask fs pre rest k path rest')
  then have "rest \<noteq> []" by auto
  with 3 mk_scan_progress [of rest] show ?case by simp
qed simp

declare mk_loop.simps [simp del]

definition xmkdir :: "fsys \<Rightarrow> string \<Rightarrow> fsys \<times> int" where
  "xmkdir fs p =
     (let omask = fumask fs in
      mk_loop omask (fs\<lparr>fumask := omask AND NOT 0xC0\<rparr>) [] p)"

definition cf_mkdir :: "fsys \<Rightarrow> string \<Rightarrow> fsys \<times> int" where
  \<comment> \<open>the copy in the web filters; the path is copied into a block one byte too small\<close>
  "cf_mkdir fs p =
     (let omask = fumask fs in
      mk_loop omask (fs\<lparr>fumask := omask AND NOT 0xC0\<rparr>) [] p)"


section \<open>Lemmas\<close>

lemma S_IFDIR_isdir [simp]: "S_ISDIR (S_IFDIR OR (0x1C0 AND w))"
proof -
  have "(0x1C0 AND w) AND 0xF000 = (0x1C0 AND 0xF000) AND w"
    by (simp only: ac_simps)
  also have "\<dots> = 0" by simp
  finally show ?thesis
    by (simp add: S_ISDIR_def S_IFDIR_def S_IFMT_def bit.conj_disj_distrib2)
qed

lemma S_ISDIR_chmod: "S_ISDIR m \<Longrightarrow> S_ISDIR ((m AND S_IFMT) OR (0x1C0 AND w))"
  using S_IFDIR_isdir [of w] by (simp add: S_ISDIR_def)

lemma comps_acc_slash:
  "a = [] \<and> acc = [] \<or> a \<noteq> [] \<and> last a = CHR ''/'' \<Longrightarrow>
   comps_acc (a @ b) acc = comps_acc a acc @ comps_acc b []"
proof (induction a arbitrary: acc)
  case (Cons c a)
  show ?case
  proof (cases "a = []")
    case True
    with Cons.prems show ?thesis by simp
  next
    case False
    with Cons.prems have "last a = CHR ''/''" by simp
    with False Cons.IH show ?thesis by simp
  qed
qed simp

lemma comps_append:
  "a = [] \<or> last a = CHR ''/'' \<Longrightarrow> comps (a @ b) = comps a @ comps b"
  unfolding comps_def using comps_acc_slash [of a "[]" b] by (cases "a = []") auto

lemma comps_acc_word:
  "CHR ''/'' \<notin> set w \<Longrightarrow> comps_acc (w @ replicate n (CHR ''/'')) acc = (if acc @ w = [] then [] else [acc @ w])"
proof (induction w arbitrary: acc)
  case Nil
  have "comps_acc (replicate m (CHR ''/'')) [] = []" for m by (induction m) auto
  then show ?case by (cases n) auto
next
  case (Cons c w)
  then show ?case by auto
qed

lemma takeWhile_replicate: "takeWhile (\<lambda>c. c = x) s = replicate (length (takeWhile (\<lambda>c. c = x) s)) x"
  by (induction s) auto

lemma mk_scan_take:
  "take (mk_scan s) s = takeWhile (\<lambda>c. c \<noteq> CHR ''/'') s
     @ replicate (length (takeWhile (\<lambda>c. c = CHR ''/'') (dropWhile (\<lambda>c. c \<noteq> CHR ''/'') s))) (CHR ''/'')"
proof -
  let ?w = "takeWhile (\<lambda>c. c \<noteq> CHR ''/'') s" and ?d = "dropWhile (\<lambda>c. c \<noteq> CHR ''/'') s"
  have "take (mk_scan s) (?w @ ?d) = ?w @ take (length (takeWhile (\<lambda>c. c = CHR ''/'') ?d)) ?d"
    unfolding mk_scan_def by (simp del: takeWhile_dropWhile_id)
  also have "take (length (takeWhile (\<lambda>c. c = CHR ''/'') ?d)) ?d = takeWhile (\<lambda>c. c = CHR ''/'') ?d"
    by (metis takeWhile_eq_take)
  finally show ?thesis using takeWhile_replicate [of "CHR ''/''" ?d] by simp
qed

lemma mk_scan_comps:
  "comps (take (mk_scan s) s) =
     (if takeWhile (\<lambda>c. c \<noteq> CHR ''/'') s = [] then [] else [takeWhile (\<lambda>c. c \<noteq> CHR ''/'') s])"
  unfolding comps_def mk_scan_take
  by (subst comps_acc_word) (auto dest: set_takeWhileD)

lemma mk_scan_slash:
  assumes "drop (mk_scan s) s \<noteq> []"
  shows "take (mk_scan s) s \<noteq> [] \<and> last (take (mk_scan s) s) = CHR ''/''"
proof -
  let ?d = "dropWhile (\<lambda>c. c \<noteq> CHR ''/'') s"
  have "?d \<noteq> []"
  proof
    assume "?d = []"
    then have "takeWhile (\<lambda>c. c \<noteq> CHR ''/'') s = s" by (metis append_Nil2 takeWhile_dropWhile_id)
    with assms show False by (simp add: mk_scan_def)
  qed
  then have "hd ?d = CHR ''/''" using hd_dropWhile [of "\<lambda>c. c \<noteq> CHR ''/''" s] by simp
  with \<open>?d \<noteq> []\<close> have "takeWhile (\<lambda>c. c = CHR ''/'') ?d \<noteq> []" by (cases ?d) auto
  then show ?thesis by (simp add: mk_scan_take)
qed

lemma comps_Nil_iff_node: "fs_node fs p = Some n \<Longrightarrow> inodes fs (comps p) = Some n"
  by (simp add: fs_node_def split: if_splits)


lemma fs_mkdir_cases:
  assumes "fs_mkdir fs p 0x1C0 = (fs', e)"
  obtains (fails) "fs' = fs" "e \<noteq> None"
  | (made) n where "e = None" "p \<noteq> []" "inodes fs (comps p) = None" "comps p \<noteq> []" "fs_isdir fs (butlast (comps p))"
      "fs' = fs\<lparr>inodes := (inodes fs)(comps p \<mapsto> n)\<rparr>" "S_ISDIR (imode n)"
proof (cases e)
  case None
  show ?thesis
  proof (rule made)
    show "e = None" by (fact None)
  qed (use assms None in \<open>auto simp: fs_mkdir_def Let_def split: if_splits\<close>)
next
  case (Some x)
  with assms have "fs' = fs" by (auto simp: fs_mkdir_def Let_def split: if_splits)
  with Some show ?thesis by (intro fails) auto
qed

text \<open>What \<open>xmkdir\<close> may change: directories that did not exist, on the way to the path.\<close>

definition grows :: "fsys \<Rightarrow> string list \<Rightarrow> fsys \<Rightarrow> bool" where
  "grows fs q fs' \<longleftrightarrow>
     (\<forall>r. inodes fs' r \<noteq> inodes fs r \<longrightarrow> inodes fs r = None \<and> prefix r q \<and> fs_isdir fs' r)"

lemma grows_refl [simp]: "inodes fs' = inodes fs \<Longrightarrow> grows fs q fs'"
  by (simp add: grows_def)

lemma grows_isdir: "grows fs q fs' \<Longrightarrow> fs_isdir fs r \<Longrightarrow> fs_isdir fs' r"
  unfolding grows_def fs_isdir_def by (metis option.simps(4))

lemma grows_trans: "grows fs q fs' \<Longrightarrow> prefix q q' \<Longrightarrow> grows fs' q' fs'' \<Longrightarrow> grows fs q' fs''"
  unfolding grows_def fs_isdir_def by (metis prefix_order.trans)

lemma grows_made:
  "inodes fs q = None \<Longrightarrow> S_ISDIR (imode n) \<Longrightarrow> grows fs q (fs\<lparr>inodes := (inodes fs)(q \<mapsto> n)\<rparr>)"
  by (auto simp: grows_def fs_isdir_def)

lemma fs_isdir_umask [simp]: "fs_isdir (fs\<lparr>fumask := u\<rparr>) = fs_isdir fs"
  by (auto simp: fs_isdir_def fun_eq_iff)

lemma grows_umask [simp]: "grows (fs\<lparr>fumask := u\<rparr>) q fs' = grows fs q fs'"
  "grows fs q (fs'\<lparr>fumask := u\<rparr>) = grows fs q fs'"
  by (auto simp: grows_def)


definition all_dirs :: "fsys \<Rightarrow> string list \<Rightarrow> bool" where
  "all_dirs fs q \<longleftrightarrow> (\<forall>r. prefix r q \<longrightarrow> fs_isdir fs r)"

lemma all_dirs_snoc: "all_dirs fs (q @ [w]) \<longleftrightarrow> all_dirs fs q \<and> fs_isdir fs (q @ [w])"
  by (auto simp: all_dirs_def)

lemma all_dirs_grows: "all_dirs fs q \<Longrightarrow> grows fs q' fs' \<Longrightarrow> all_dirs fs' q"
  by (auto simp: all_dirs_def intro: grows_isdir)

lemma all_dirs_umask [simp]: "all_dirs (fs\<lparr>fumask := u\<rparr>) q = all_dirs fs q"
  by (simp add: all_dirs_def)

lemma fs_stat_isdir: "(case fs_stat fs p of None \<Rightarrow> True | Some st \<Rightarrow> \<not> S_ISDIR st) \<longleftrightarrow> p = [] \<or> \<not> fs_isdir fs (comps p)"
  by (auto simp: fs_stat_def fs_node_def fs_isdir_def split: option.splits)

lemma mk_comps:
  assumes "pre = [] \<or> last pre = CHR ''/''"
  obtains "comps (pre @ take (mk_scan rest) rest) = comps pre"
  | w where "comps (pre @ take (mk_scan rest) rest) = comps pre @ [w]"
  using comps_append [OF assms] mk_scan_comps [of rest] by (auto split: if_splits)

lemma mk_step:
  assumes pre: "pre = [] \<or> last pre = CHR ''/''" and dirs: "all_dirs fs (comps pre)"
    and path: "path = pre @ take (mk_scan rest) rest"
    and mk: "fs_mkdir fs path 0x1C0 = (fs1, e)" and ok: "e = None \<or> fs_isdir fs1 (comps path)"
  shows "grows fs (comps path) fs1 \<and> all_dirs fs1 (comps path)"
  using mk
proof (cases rule: fs_mkdir_cases)
  case fails
  with ok have d: "fs_isdir fs (comps path)" by auto
  show ?thesis
  proof (rule mk_comps [OF pre, of rest], goal_cases)
    case 1 with dirs fails show ?thesis by (simp add: path)
  next
    case (2 w) with dirs d fails show ?thesis by (simp add: path all_dirs_snoc)
  qed
next
  case (made n)
  have g: "grows fs (comps path) fs1" using made grows_made by simp
  moreover have "fs_isdir fs1 (comps path)" using made by (simp add: fs_isdir_def)
  moreover note all_dirs_grows [OF dirs g]
  ultimately have "all_dirs fs1 (comps path)"
    unfolding path using mk_comps [OF pre, of rest] all_dirs_snoc by metis
  with g show ?thesis by simp
qed

lemma fs_chmod_made:
  assumes "fs_chmod fs path 0x1C0 = (fs', e)" and "inodes fs0 (comps path) = None" and "grows fs0 q fs"
    and "prefix (comps path) q" and "fs_isdir fs (comps path)"
  shows "fumask fs' = fumask fs \<and> grows fs0 q fs' \<and> (all_dirs fs r \<longrightarrow> all_dirs fs' r)"
proof -
  have chg: "S_ISDIR m \<Longrightarrow> S_ISDIR ((m AND S_IFMT) OR 0x1C0)" for m
    using S_ISDIR_chmod [of m "0xFFF"] by simp
  show ?thesis
  proof (cases "fs' = fs")
    case True with assms show ?thesis by simp
  next
    case False
    with assms(1) obtain n where n: "inodes fs (comps path) = Some n"
      and fs': "fs' = fs\<lparr>inodes := (inodes fs)(comps path \<mapsto> n\<lparr>imode := (imode n AND S_IFMT) OR 0x1C0\<rparr>)\<rparr>"
      by (auto simp: fs_chmod_def Let_def fs_node_def split: option.splits if_splits)
    from assms(5) n have "S_ISDIR (imode n)" by (simp add: fs_isdir_def)
    then have eq: "fs_isdir fs' = fs_isdir fs"
      using n chg by (auto simp: fs_isdir_def fs' fun_eq_iff)
    have "grows fs0 q fs'"
      using assms(2-4) eq unfolding grows_def by (auto simp: fs' fs_isdir_def n \<open>S_ISDIR (imode n)\<close>)
    with eq show ?thesis by (simp add: fs' all_dirs_def)
  qed
qed


lemma mk_loop_sound:
  assumes "mk_loop om fs pre rest = (fs', r)" and "pre = [] \<or> last pre = CHR ''/''"
    and "all_dirs fs (comps pre)"
  shows "fumask fs' = om \<and> grows fs (comps (pre @ rest)) fs' \<and> r \<in> {0, - 1}
         \<and> (r = 0 \<longrightarrow> all_dirs fs' (comps (pre @ rest)))"
  using assms
proof (induction om fs pre rest arbitrary: fs' r rule: mk_loop.induct)
  case (1 om fs pre rest)
  let ?k = "mk_scan rest" and ?path = "pre @ take (mk_scan rest) rest" and ?rest = "drop (mk_scan rest) rest"
  obtain fs1 e where mk: "fs_mkdir fs ?path 0x1C0 = (fs1, e)" by fastforce
  have all: "pre @ rest = ?path @ ?rest" by simp
  have step: "grows fs (comps ?path) fs1 \<and> all_dirs fs1 (comps ?path)" if "e = None \<or> fs_isdir fs1 (comps ?path)"
    by (rule mk_step [OF 1(4,5) refl mk that])
  show ?case
  proof (cases "e = None \<or> e = Some EEXIST \<and> ?path \<noteq> [] \<and> fs_isdir fs1 (comps ?path)")
    case bad: False
    with mk 1(3) have "fs' = fs1\<lparr>fumask := om\<rparr>" "r = - 1" "fs1 = fs"
      by (auto simp: mk_loop.simps [of om fs] Let_def fs_stat_isdir elim: fs_mkdir_cases split: if_splits)
    then show ?thesis by simp
  next
    case good: True
    with step have g: "grows fs (comps ?path) fs1" and d: "all_dirs fs1 (comps ?path)" by auto
    show ?thesis
    proof (cases "?rest = []")
      case more: False
      from mk_scan_slash [OF more] have s: "?path = [] \<or> last ?path = CHR ''/''" by auto
      from good more mk 1(3) have run: "mk_loop om fs1 ?path ?rest = (fs', r)"
        by (auto simp: mk_loop.simps [of om fs] Let_def fs_stat_isdir split: option.splits)
      have "fumask fs' = om \<and> grows fs1 (comps (?path @ ?rest)) fs' \<and> r \<in> {0, - 1}
         \<and> (r = 0 \<longrightarrow> all_dirs fs' (comps (?path @ ?rest)))"
      proof (cases e)
        case None
        show ?thesis by (rule 1(1) [OF refl refl refl mk [symmetric] None more run s d])
      next
        case (Some a)
        with good have "\<not> (a \<noteq> EEXIST \<or> (case fs_stat fs1 ?path of None \<Rightarrow> True | Some st \<Rightarrow> \<not> S_ISDIR st))"
          by (auto simp: fs_stat_isdir)
        then show ?thesis by (intro 1(2) [OF refl refl refl mk [symmetric] Some _ more run s d])
      qed
      moreover have "prefix (comps ?path) (comps (?path @ ?rest))"
        unfolding comps_append [OF s] by simp
      ultimately show ?thesis using grows_trans [OF g] unfolding all by blast
    next
      case last: True
      then have p: "pre @ rest = ?path" using all by (metis append_Nil2)
      show ?thesis
      proof (cases e)
        case (Some a)
        with good mk 1(3) last have "fs' = fs1\<lparr>fumask := om\<rparr>" "r = 0"
          by (auto simp: mk_loop.simps [of om fs] Let_def fs_stat_isdir)
        with g d show ?thesis unfolding p by simp
      next
        case None
        with mk 1(3) last obtain fs2 e2 where ch: "fs_chmod (fs1\<lparr>fumask := om\<rparr>) ?path 0x1C0 = (fs2, e2)"
          and r: "fs' = fs2" "r = (if e2 = None then 0 else - 1)"
          by (auto simp: mk_loop.simps [of om fs] Let_def split: prod.splits option.splits)
        from mk None have n: "inodes fs (comps ?path) = None" by (auto elim: fs_mkdir_cases)
        from d have "fs_isdir fs1 (comps ?path)" by (simp add: all_dirs_def)
        with fs_chmod_made [OF ch n, of "comps ?path" "comps ?path"] g d r show ?thesis unfolding p by auto
      qed
    qed
  qed
qed


lemma mk_loop_total:
  assumes "pre = [] \<or> last pre = CHR ''/''" and "all_dirs fs (comps pre)" and "pre @ rest \<noteq> []" and "rest \<noteq> []"
    and "\<forall>q. prefix q (comps (pre @ rest)) \<longrightarrow> \<not> deny fs q \<and> (inodes fs q = None \<or> fs_isdir fs q)"
  shows "snd (mk_loop om fs pre rest) = 0"
  using assms
proof (induction om fs pre rest rule: mk_loop.induct)
  case (1 om fs pre rest)
  let ?path = "pre @ take (mk_scan rest) rest" and ?rest = "drop (mk_scan rest) rest"
  obtain fs1 e where mk: "fs_mkdir fs ?path 0x1C0 = (fs1, e)" by fastforce
  have ne: "?path \<noteq> []" using mk_scan_progress 1(6) by fastforce
  have pp: "prefix (comps ?path) (comps (pre @ rest))"
  proof (cases "?rest = []")
    case True
    then have "pre @ rest = ?path" by (metis append_Nil2 append_take_drop_id)
    then show ?thesis by simp
  next
    case False
    from mk_scan_slash [OF this] comps_append [of ?path ?rest] show ?thesis
      by (metis append.assoc append_take_drop_id last_appendR prefixI)
  qed
  with 1(7) have nd: "\<not> deny fs (comps ?path)" and nn: "inodes fs (comps ?path) = None \<or> fs_isdir fs (comps ?path)"
    by auto
  have par: "comps ?path \<noteq> [] \<and> fs_isdir fs (butlast (comps ?path))" if "inodes fs (comps ?path) = None"
  proof (rule mk_comps [OF 1(3), of rest])
    assume "comps ?path = comps pre"
    with 1(4) that show ?thesis by (auto simp: all_dirs_def fs_isdir_def)
  next
    fix w assume "comps ?path = comps pre @ [w]"
    with 1(4) show ?thesis by (simp add: all_dirs_def)
  qed
  have e: "e = None \<or> e = Some EEXIST \<and> fs1 = fs \<and> fs_isdir fs (comps ?path)"
    using mk ne nd nn par by (auto simp: fs_mkdir_def Let_def split: if_splits)
  have step: "grows fs (comps ?path) fs1 \<and> all_dirs fs1 (comps ?path)"
    using e by (intro mk_step [OF 1(3,4) refl mk]) auto
  have dn: "deny fs1 = deny fs" using mk by (auto elim: fs_mkdir_cases)
  show ?case
  proof (cases "?rest = []")
    case True
    from step have "fs_isdir fs1 (comps ?path)" by (simp add: all_dirs_def)
    then obtain n where n: "inodes fs1 (comps ?path) = Some n" by (auto simp: fs_isdir_def split: option.splits)
    with ne nd dn have "snd (fs_chmod (fs1\<lparr>fumask := om\<rparr>) ?path 0x1C0) = None"
      by (auto simp: fs_chmod_def Let_def fs_node_def)
    with True e mk ne mk_scan_progress [OF 1(6)] show ?thesis
      by (auto simp: mk_loop.simps [of om fs] Let_def fs_stat_isdir split: prod.splits)
  next
    case False
    from mk_scan_slash [OF this] have s: "?path = [] \<or> last ?path = CHR ''/''" by auto
    have inv: "\<forall>q. prefix q (comps (?path @ ?rest)) \<longrightarrow> \<not> deny fs1 q \<and> (inodes fs1 q = None \<or> fs_isdir fs1 q)"
    proof (intro allI impI)
      fix q assume "prefix q (comps (?path @ ?rest))"
      with 1(7) have "\<not> deny fs q \<and> (inodes fs q = None \<or> fs_isdir fs q)" by simp
      with step dn show "\<not> deny fs1 q \<and> (inodes fs1 q = None \<or> fs_isdir fs1 q)"
        unfolding grows_def fs_isdir_def by (metis (no_types))
    qed
    have IH: "snd (mk_loop om fs1 ?path ?rest) = 0"
    proof (cases e)
      case None
      show ?thesis using step False ne by (intro 1(1) [OF refl refl refl mk [symmetric] None False s _ _ _ inv]) auto
    next
      case (Some a)
      with e ne have "\<not> (a \<noteq> EEXIST \<or> (case fs_stat fs1 ?path of None \<Rightarrow> True | Some st \<Rightarrow> \<not> S_ISDIR st))"
        by (auto simp: fs_stat_isdir)
      with step False ne show ?thesis by (intro 1(2) [OF refl refl refl mk [symmetric] Some _ False s _ _ _ inv]) auto
    qed
    with e mk False ne show ?thesis
      by (auto simp: mk_loop.simps [of om fs] Let_def fs_stat_isdir)
  qed
qed


lemma fs_open_write_cases:
  assumes "fs_open_write fs p True = Some fs0"
  obtains m where "inodes fs0 = (inodes fs)(comps p \<mapsto> \<lparr>imode = m, idata = []\<rparr>)" "\<not> S_ISDIR m"
    "p \<noteq> []" "\<not> deny fs (comps p)" "deny fs0 = deny fs"
proof (cases "inodes fs (comps p)")
  case (Some n)
  with assms show ?thesis
    by (intro that [of "imode n"]) (auto simp: fs_open_write_def Let_def fs_isdir_def split: if_splits)
next
  case None
  have "(0x180 AND w) AND 0xF000 = (0x180 AND 0xF000) AND w" for w :: mode by (simp only: ac_simps)
  then have "\<not> S_ISDIR (S_IFREG OR (0x180 AND NOT (fumask fs)))"
    by (simp add: S_ISDIR_def S_IFREG_def S_IFDIR_def S_IFMT_def bit.conj_disj_distrib2)
  with None assms show ?thesis
    by (intro that [of "S_IFREG OR (0x180 AND NOT (fumask fs))"])
       (auto simp: fs_open_write_def Let_def split: if_splits)
qed

section \<open>Properties\<close>

lemma mode_bits:
  "m AND S_IFMT = t \<Longrightarrow> t \<in> {0x1000, 0x2000, 0x4000, 0x6000, 0x8000, 0xA000, 0xC000} \<Longrightarrow>
   (m AND S_IFREG \<noteq> 0) = (t \<in> {0x8000, 0xA000, 0xC000}) \<and>
   (m AND S_IFDIR \<noteq> 0) = (t \<in> {0x4000, 0x6000, 0xC000}) \<and>
   (m AND S_IFLNK \<noteq> 0) = (t \<in> {0x2000, 0x6000, 0x8000, 0xA000, 0xC000})"
proof -
  assume t: "m AND S_IFMT = t" "t \<in> {0x1000, 0x2000, 0x4000, 0x6000, 0x8000, 0xA000, 0xC000}"
  have "m AND S_IFREG = t AND S_IFREG" "m AND S_IFDIR = t AND S_IFDIR" "m AND S_IFLNK = t AND S_IFLNK"
    unfolding t(1) [symmetric] by (simp_all add: S_IFMT_def S_IFREG_def S_IFDIR_def S_IFLNK_def and.assoc)
  with t(2) show ?thesis by (auto simp: S_IFREG_def S_IFDIR_def S_IFLNK_def)
qed

text \<open>
  C11. What \<open>xmkdir\<close> (and its copy in the web filters) does, however it ends: the process's umask is
  the old one again; nothing that existed is changed, and everything that is new is a directory on the
  way to the path; the result is 0 or -1, and after 0 every prefix of the path is a directory. If the
  path is not empty, no operation on the way is refused and nothing but directories is in the way, then
  the result is 0.
\<close>

theorem xmkdir_correct:
  assumes "fs_isdir fs []" and "xmkdir fs p = (fs', r)"
  shows "fumask fs' = fumask fs
    \<and> (\<forall>q. inodes fs' q \<noteq> inodes fs q \<longrightarrow> inodes fs q = None \<and> prefix q (comps p) \<and> fs_isdir fs' q)
    \<and> r \<in> {0, - 1} \<and> (\<forall>q. r = 0 \<and> prefix q (comps p) \<longrightarrow> fs_isdir fs' q)
    \<and> (p \<noteq> [] \<and> (\<forall>q. prefix q (comps p) \<longrightarrow> \<not> deny fs q \<and> (inodes fs q = None \<or> fs_isdir fs q)) \<longrightarrow> r = 0)
    \<and> cf_mkdir fs p = (fs', r)"
proof -
  let ?fs = "fs\<lparr>fumask := fumask fs AND NOT 0xC0\<rparr>"
  have run: "mk_loop (fumask fs) ?fs [] p = (fs', r)" using assms(2) by (simp add: xmkdir_def Let_def)
  have root: "all_dirs ?fs (comps [])" using assms(1) by (simp add: all_dirs_def comps_def)
  note sound = mk_loop_sound [OF run _ root, simplified]
  from sound have "fumask fs' = fumask fs" "r \<in> {0, - 1}" by auto
  moreover from sound have "\<forall>q. inodes fs' q \<noteq> inodes fs q \<longrightarrow> inodes fs q = None \<and> prefix q (comps p) \<and> fs_isdir fs' q"
    by (auto simp: grows_def)
  moreover from sound have "\<forall>q. r = 0 \<and> prefix q (comps p) \<longrightarrow> fs_isdir fs' q" by (simp add: all_dirs_def)
  moreover have "r = 0" if "p \<noteq> []"
    "\<forall>q. prefix q (comps p) \<longrightarrow> \<not> deny fs q \<and> (inodes fs q = None \<or> fs_isdir fs q)"
    using mk_loop_total [of "[]" ?fs p "fumask fs"] root that run by simp
  moreover have "cf_mkdir fs p = (fs', r)" using run by (simp add: cf_mkdir_def Let_def)
  ultimately show ?thesis by blast
qed

definition fs_empty :: fsys where
  "fs_empty = \<lparr>inodes = [[] \<mapsto> \<lparr>imode = S_IFDIR OR 0x1ED, idata = []\<rparr>], fumask = 0x12, deny = (\<lambda>_. False)\<rparr>"

theorem xmkdir_correct_witness:
  "fumask (fst (xmkdir fs_empty ''/a//b'')) = 0x12
   \<and> fs_isdir (fst (xmkdir fs_empty ''/a//b'')) [''a''] \<and> fs_isdir (fst (xmkdir fs_empty ''/a//b'')) [''a'', ''b'']
   \<and> snd (xmkdir fs_empty ''/a//b'') = 0"
proof -
  have root: "fs_isdir fs_empty []"
    using S_IFDIR_isdir [of 0] by (simp add: fs_isdir_def fs_empty_def S_ISDIR_def S_IFDIR_def S_IFMT_def)
  have c: "comps ''/a//b'' = [''a'', ''b'']" by (simp add: comps_def)
  have only: "inodes fs_empty q = None \<or> fs_isdir fs_empty q" for q
    using root by (auto simp: fs_empty_def)
  let ?r = "xmkdir fs_empty ''/a//b''"
  note ok = xmkdir_correct [OF root prod.collapse [symmetric], of "''/a//b''", unfolded c]
  have "\<forall>q. prefix q [''a'', ''b''] \<longrightarrow> \<not> deny fs_empty q \<and> (inodes fs_empty q = None \<or> fs_isdir fs_empty q)"
    using only by (auto simp: fs_empty_def)
  with ok have z: "snd ?r = 0" by blast
  have "fumask fs_empty = 0x12" by (simp add: fs_empty_def)
  moreover have "prefix [''a''] [''a'', ''b'']" "prefix [''a'', ''b''] [''a'', ''b'']" by simp_all
  with ok z have "fs_isdir (fst ?r) [''a'']" "fs_isdir (fst ?r) [''a'', ''b'']" by blast+
  ultimately show ?thesis using ok z by simp
qed

text \<open>
  The existence tests read single bits of the file type, which is a number: \<open>file_exists\<close> is true
  of everything but FIFOs, and \<open>is_dir\<close>, meant to recognise directories, is true of directories and of
  everything else but FIFOs and character devices.
\<close>

theorem existence_tests:
  assumes "fs_stat fs s = Some m"
    and "m AND S_IFMT \<in> {0x1000, 0x2000, 0x4000, 0x6000, 0x8000, 0xA000, 0xC000}"
  shows "(file_exists fs s \<longleftrightarrow> m AND S_IFMT \<noteq> 0x1000) \<and> (is_dir fs s \<longleftrightarrow> m AND S_IFMT \<notin> {0x1000, 0x2000})
    \<and> cf_file_exists fs s = file_exists fs s \<and> cf_is_dir fs s = is_dir fs s"
proof (intro conjI)
  note mb = mode_bits [OF refl assms(2)]
  show "file_exists fs s \<longleftrightarrow> m AND S_IFMT \<noteq> 0x1000"
    unfolding file_exists_def assms(1) option.case using assms(2) by (elim insertE emptyE) (simp_all add: mb)
  show "is_dir fs s \<longleftrightarrow> m AND S_IFMT \<notin> {0x1000, 0x2000}"
    unfolding is_dir_def assms(1) option.case using assms(2) by (elim insertE emptyE) (simp_all add: mb)
qed (simp_all only: file_exists_def is_dir_def cf_file_exists_def cf_is_dir_def)

text \<open>A regular file passes for a directory.\<close>

theorem existence_tests_witness:
  "is_dir (fs_empty\<lparr>inodes := (inodes fs_empty)([''f''] \<mapsto> \<lparr>imode = 0x81A4, idata = []\<rparr>)\<rparr>) ''f''"
proof -
  let ?fs = "fs_empty\<lparr>inodes := (inodes fs_empty)([''f''] \<mapsto> \<lparr>imode = 0x81A4, idata = []\<rparr>)\<rparr>"
  have "fs_stat ?fs ''f'' = Some 0x81A4" by (simp add: fs_stat_def fs_node_def comps_def)
  from existence_tests [OF this] show ?thesis by (simp add: S_IFMT_def)
qed

text \<open>
  A short file written by \<open>save_to_file\<close> reads back as what was written, and \<open>append_to_file\<close>
  adds to it: the protocol by which the appliance's programs leave each other one-line status files.
\<close>

theorem save_read_roundtrip:
  assumes "save_to_file fs p s = (fs1, n)" and "0 \<le> n" and "append_to_file fs1 p t = (fs2, k)"
    and "cstr (s @ t)" and "length (s @ t) \<le> 1023"
  shows "read_oneline fs1 p = Some (n, s) \<and> read_oneline fs2 p = Some (n + k, s @ t)
    \<and> (\<forall>q. q \<noteq> comps p \<longrightarrow> inodes fs2 q = inodes fs q)"
proof -
  from assms(1,2) obtain fs0 where op: "fs_open_write fs p True = Some fs0"
    and fs1: "fs1 = fs_append fs0 p s" and n: "n = int (length s)"
    by (auto simp: save_to_file_def split: option.splits)
  obtain m where m: "inodes fs0 = (inodes fs)(comps p \<mapsto> \<lparr>imode = m, idata = []\<rparr>)" "\<not> S_ISDIR m"
    and d: "p \<noteq> []" "\<not> deny fs (comps p)" "deny fs0 = deny fs"
    by (rule fs_open_write_cases [OF op])
  have i1: "inodes fs1 = (inodes fs)(comps p \<mapsto> \<lparr>imode = m, idata = s\<rparr>)" "deny fs1 = deny fs"
    unfolding fs1 fs_append_def by (simp_all add: m d)
  have i2: "inodes fs2 = (inodes fs)(comps p \<mapsto> \<lparr>imode = m, idata = s @ t\<rparr>)" "deny fs2 = deny fs" "k = int (length t)"
    using assms(3) m d i1 by (auto simp: append_to_file_def fs_open_write_def Let_def fs_isdir_def fs_append_def)
  show ?thesis
    using assms(4,5) by (simp add: read_oneline_def fs_node_def i1 i2 m d n)
qed

theorem save_read_roundtrip_witness:
  "snd (save_to_file fs_empty ''/status'' ''up'') = 2
   \<and> read_oneline (fst (save_to_file fs_empty ''/status'' ''up'')) ''/status'' = Some (2, ''up'')"
proof -
  let ?r = "save_to_file fs_empty ''/status'' ''up''"
  let ?a = "append_to_file (fst ?r) ''/status'' []"
  have root: "fs_isdir fs_empty []"
    by (simp add: fs_isdir_def fs_empty_def S_ISDIR_def S_IFDIR_def S_IFMT_def)
  have 2: "snd ?r = 2"
    using root by (simp add: save_to_file_def fs_open_write_def comps_def fs_empty_def fs_isdir_def)
  have "read_oneline (fst ?r) ''/status'' = Some (snd ?r, ''up'')"
    by (rule save_read_roundtrip [OF prod.collapse [symmetric] _ prod.collapse [symmetric], where t = "[]", THEN conjunct1])
       (simp_all add: 2 NUL_def)
  with 2 show ?thesis by simp
qed

end
