(* ===== verification/HashTable.thy ===== *)
theory HashTable
  imports Prelude
begin

text \<open>
  The proxy's chained hash table (\<^verbatim>\<open>squid-mybox/lib/hash.c\<close>), which the virus filter uses for
  its temporary files. The links are objects in memory that the table threads together by their \<open>next\<close>
  fields, so the model keeps a memory \<open>hmem\<close> of links by address and follows the pointers the way the
  code does; \<open>None\<close> as the result of an operation is a failed assertion or the use of a link that is not
  there. The structure a link is embedded in is its field \<open>lval\<close>.

  The invariant \<open>hash_inv\<close> relates a table to the lists of addresses its buckets stand for. Under it
  every operation ends, lookup is a search in one list, and a traversal visits every link exactly once,
  also when links are removed on the way.
\<close>

unbundle bit_operations_syntax

section \<open>Hash functions\<close>

definition schar :: "char \<Rightarrow> 32 word" where
  \<comment> \<open>a signed \<open>char\<close> as an \<open>unsigned int\<close>\<close>
  "schar c = (if ord c < 128 then word_of_nat (ord c) else word_of_nat (ord c) - 256)"

fun hash_string_loop :: "string \<Rightarrow> 32 word \<Rightarrow> 32 word \<Rightarrow> 32 word \<times> 32 word" where
  "hash_string_loop [] n j = (n, j)"
| "hash_string_loop (c # s) n j = hash_string_loop s (n XOR (271 * schar c)) (j + 1)"

definition hash_string :: "string \<Rightarrow> 32 word \<Rightarrow> nat" where
  "hash_string s sz =
     (case hash_string_loop s 0 0 of (n, j) \<Rightarrow> let i = n XOR (j * 271) in unat (i mod sz))"

definition HASH4 :: "32 word \<Rightarrow> char \<Rightarrow> 32 word" where
  "HASH4 h c = push_bit 5 h + h + schar c"

fun hash4_loop :: "nat \<Rightarrow> 32 word \<Rightarrow> string \<Rightarrow> 32 word" where
  "hash4_loop 0 h key = h"
| "hash4_loop (Suc loop) h key = hash4_loop loop (foldl HASH4 h (take 8 key)) (drop 8 key)"

definition hash4 :: "string \<Rightarrow> 32 word \<Rightarrow> nat" where
  "hash4 key sz =
     (let len = length key; loop = drop_bit 3 len; r = len AND (8 - 1);
          h = foldl HASH4 0 (take r key)
      in unat (hash4_loop loop h (drop r key) mod sz))"

text \<open>\<open>strcmp\<close>, the comparison the filters create their tables with; only its sign is specified.\<close>

fun strcmp :: "string \<Rightarrow> string \<Rightarrow> int" where
  "strcmp [] [] = 0"
| "strcmp [] (d # t) = - 1"
| "strcmp (c # s) [] = 1"
| "strcmp (c # s) (d # t) = (if c = d then strcmp s t else if ord c < ord d then - 1 else 1)"

section \<open>Links, tables and memory\<close>

type_synonym addr = nat

record ('k, 'v) hash_link =
  lkey :: 'k
  lnext :: "addr option"
  lval :: 'v

record ('k, 'v) hash_table =
  buckets :: "addr option list"
  cmp :: "'k \<Rightarrow> 'k \<Rightarrow> int"
  hash :: "'k \<Rightarrow> 32 word \<Rightarrow> nat"
  hsize :: "32 word"
  current_slot :: nat
  hnext :: "addr option"
  hcount :: int
  hmem :: "addr \<Rightarrow> ('k, 'v) hash_link option"

definition DEFAULT_HASH_SIZE :: "32 word" where "DEFAULT_HASH_SIZE = 7951"

definition hash_create :: "('k \<Rightarrow> 'k \<Rightarrow> int) \<Rightarrow> 32 word \<Rightarrow> ('k \<Rightarrow> 32 word \<Rightarrow> nat) \<Rightarrow>
    (addr \<Rightarrow> ('k, 'v) hash_link option) \<Rightarrow> ('k, 'v) hash_table" where
  "hash_create cmp_func hash_sz hash_func mem =
     (let sz = (if hash_sz = 0 then DEFAULT_HASH_SIZE else hash_sz) in
      \<lparr>buckets = replicate (unat sz) None, cmp = cmp_func, hash = hash_func, hsize = sz,
       current_slot = 0, hnext = None, hcount = 0, hmem = mem\<rparr>)"

definition hash_join :: "('k, 'v) hash_table \<Rightarrow> addr \<Rightarrow> ('k, 'v) hash_table option" where
  "hash_join hid lnk =
     (case hmem hid lnk of
        None \<Rightarrow> None
      | Some l \<Rightarrow>
          (let i = hash hid (lkey l) (hsize hid) in
           if i < length (buckets hid) then
             Some (hid\<lparr>hmem := (hmem hid)(lnk \<mapsto> l\<lparr>lnext := buckets hid ! i\<rparr>),
                       buckets := (buckets hid)[i := Some lnk],
                       hcount := hcount hid + 1\<rparr>)
           else None))"

partial_function (option) lookup_loop ::
    "('k, 'v) hash_table \<Rightarrow> 'k \<Rightarrow> addr option \<Rightarrow> addr option option" where
  [code]: "lookup_loop hid k walker =
     (case walker of
        None \<Rightarrow> Some None
      | Some a \<Rightarrow>
          (case hmem hid a of
             None \<Rightarrow> None
           | Some l \<Rightarrow>
               (if cmp hid k (lkey l) = 0 then Some (Some a)
                else if Some a = lnext l then None
                else lookup_loop hid k (lnext l))))"

definition hash_lookup :: "('k, 'v) hash_table \<Rightarrow> 'k \<Rightarrow> addr option option" where
  "hash_lookup hid k =
     (let b = hash hid k (hsize hid) in
      if b < length (buckets hid) then lookup_loop hid k (buckets hid ! b) else None)"

section \<open>Traversal\<close>

function hash_next_bucket :: "('k, 'v) hash_table \<Rightarrow> ('k, 'v) hash_table" where
  "hash_next_bucket hid =
     (if hnext hid = None then
        (let s = current_slot hid + 1 in
         if s < length (buckets hid) then
           hash_next_bucket (hid\<lparr>current_slot := s, hnext := buckets hid ! s\<rparr>)
         else hid\<lparr>current_slot := s\<rparr>)
      else hid)"
  by pat_completeness auto
termination
  by (relation "measure (\<lambda>hid. length (buckets hid) - current_slot hid)") auto

declare hash_next_bucket.simps [simp del]

definition hash_first :: "('k, 'v) hash_table \<Rightarrow> ('k, 'v) hash_table option" where
  "hash_first hid =
     (if hnext hid \<noteq> None \<or> buckets hid = [] then None
      else
        (let hid = hid\<lparr>current_slot := 0, hnext := buckets hid ! 0\<rparr> in
         Some (if hnext hid = None then hash_next_bucket hid else hid)))"

definition hash_next :: "('k, 'v) hash_table \<Rightarrow> (('k, 'v) hash_table \<times> addr option) option" where
  "hash_next hid =
     (case hnext hid of
        None \<Rightarrow> Some (hid, None)
      | Some a \<Rightarrow>
          (case hmem hid a of
             None \<Rightarrow> None
           | Some l \<Rightarrow>
               (let hid = hid\<lparr>hnext := lnext l\<rparr> in
                Some (if hnext hid = None then hash_next_bucket hid else hid, Some a))))"

definition hash_last :: "('k, 'v) hash_table \<Rightarrow> ('k, 'v) hash_table" where
  "hash_last hid = hid\<lparr>hnext := None, current_slot := 0\<rparr>"

section \<open>Removal\<close>

text \<open>The pointer \<open>P\<close> to a link pointer: a bucket or the \<open>next\<close> field of a link.\<close>

datatype place = Bucket nat | NextOf addr

fun place_get :: "('k, 'v) hash_table \<Rightarrow> place \<Rightarrow> addr option" where
  "place_get hid (Bucket i) = buckets hid ! i"
| "place_get hid (NextOf a) = (case hmem hid a of None \<Rightarrow> None | Some l \<Rightarrow> lnext l)"

fun place_set :: "('k, 'v) hash_table \<Rightarrow> place \<Rightarrow> addr option \<Rightarrow> ('k, 'v) hash_table" where
  "place_set hid (Bucket i) p = hid\<lparr>buckets := (buckets hid)[i := p]\<rparr>"
| "place_set hid (NextOf a) p =
     (case hmem hid a of
        None \<Rightarrow> hid
      | Some l \<Rightarrow> hid\<lparr>hmem := (hmem hid)(a \<mapsto> l\<lparr>lnext := p\<rparr>)\<rparr>)"

partial_function (option) find_place ::
    "('k, 'v) hash_table \<Rightarrow> addr \<Rightarrow> place \<Rightarrow> place option" where
  [code]: "find_place hid hl P =
     (case place_get hid P of
        None \<Rightarrow> None
      | Some a \<Rightarrow> (if a = hl then Some P else find_place hid hl (NextOf a)))"

definition hash_remove_link :: "('k, 'v) hash_table \<Rightarrow> addr \<Rightarrow> ('k, 'v) hash_table option" where
  "hash_remove_link hid hl =
     (case hmem hid hl of
        None \<Rightarrow> None
      | Some l \<Rightarrow>
          (let i = hash hid (lkey l) (hsize hid) in
           if i < length (buckets hid) then
             (case find_place hid hl (Bucket i) of
                None \<Rightarrow> None
              | Some P \<Rightarrow>
                  (let hid = place_set hid P (lnext l);
                       hid = (if hnext hid = Some hl then
                                (let hid = hid\<lparr>hnext := lnext l\<rparr> in
                                 if hnext hid = None then hash_next_bucket hid else hid)
                              else hid)
                   in Some (hid\<lparr>hcount := hcount hid - 1\<rparr>)))
           else None))"

definition hash_get_bucket :: "('k, 'v) hash_table \<Rightarrow> nat \<Rightarrow> addr option" where
  "hash_get_bucket hid b = (if b \<ge> unat (hsize hid) then None else buckets hid ! b)"

section \<open>Freeing\<close>

lemma hash_next_bucket_frame [simp]:
  "buckets (hash_next_bucket hid) = buckets hid" "cmp (hash_next_bucket hid) = cmp hid"
  "hash (hash_next_bucket hid) = hash hid" "hsize (hash_next_bucket hid) = hsize hid"
  "hcount (hash_next_bucket hid) = hcount hid" "hmem (hash_next_bucket hid) = hmem hid"
  by (induction hid rule: hash_next_bucket.induct; subst hash_next_bucket.simps; simp add: Let_def)+

lemma hash_next_frame:
  "hash_next hid = Some (hid', r) \<Longrightarrow>
   buckets hid' = buckets hid \<and> cmp hid' = cmp hid \<and> hash hid' = hash hid \<and> hsize hid' = hsize hid
   \<and> hcount hid' = hcount hid \<and> hmem hid' = hmem hid"
  by (auto simp: hash_next_def Let_def split: option.splits if_splits)

text \<open>
  The first loop of \<open>hashFreeItems\<close>: the array of the links found, at most \<open>count\<close> of them. The number
  of iterations is bounded by \<open>count - i\<close>.
\<close>

function free_collect :: "('k, 'v) hash_table \<Rightarrow> int \<Rightarrow> addr list \<Rightarrow> (('k, 'v) hash_table \<times> addr list) option" where
  "free_collect hid i xs =
     (case hash_next hid of
        None \<Rightarrow> None
      | Some (hid', None) \<Rightarrow> Some (hid', xs)
      | Some (hid', Some l) \<Rightarrow>
          (if i < hcount hid' then free_collect hid' (i + 1) (xs @ [l]) else Some (hid', xs)))"
  by pat_completeness auto
termination
  by (relation "measure (\<lambda>(hid, i, xs). nat (hcount hid - i))") (auto dest!: hash_next_frame)

declare free_collect.simps [simp del]

text \<open>\<open>free_func\<close> is called for the addresses of the result, in this order.\<close>

definition hashFreeItems :: "('k, 'v) hash_table \<Rightarrow> (('k, 'v) hash_table \<times> addr list) option" where
  "hashFreeItems hid =
     (case hash_first hid of None \<Rightarrow> None | Some hid \<Rightarrow> free_collect hid 0 [])"

section \<open>The invariant\<close>

fun chain :: "(addr \<Rightarrow> ('k, 'v) hash_link option) \<Rightarrow> addr option \<Rightarrow> addr list \<Rightarrow> bool" where
  "chain mem p [] \<longleftrightarrow> p = None"
| "chain mem p (a # as) \<longleftrightarrow>
     p = Some a \<and> (case mem a of None \<Rightarrow> False | Some l \<Rightarrow> chain mem (lnext l) as)"

definition slot_ok :: "('k, 'v) hash_table \<Rightarrow> nat \<Rightarrow> addr list \<Rightarrow> bool" where
  "slot_ok hid i xs \<longleftrightarrow>
     chain (hmem hid) (buckets hid ! i) xs
     \<and> (\<forall>a \<in> set xs. \<exists>l. hmem hid a = Some l \<and> hash hid (lkey l) (hsize hid) = i)"

definition hash_inv :: "('k, 'v) hash_table \<Rightarrow> addr list list \<Rightarrow> bool" where
  "hash_inv hid L \<longleftrightarrow>
     length L = length (buckets hid) \<and> length L = unat (hsize hid) \<and> L \<noteq> []
     \<and> hcount hid = int (length (concat L))
     \<and> (\<forall>k. hash hid k (hsize hid) < length L)
     \<and> (\<forall>i < length L. slot_ok hid i (L ! i))"

text \<open>The links that a traversal in progress has still to return.\<close>

definition traversing :: "('k, 'v) hash_table \<Rightarrow> addr list list \<Rightarrow> addr list \<Rightarrow> bool" where
  "traversing hid L ys \<longleftrightarrow>
     (if hnext hid = None then ys = []
      else current_slot hid < length L \<and>
        (\<exists>ds zs. L ! current_slot hid = ds @ zs \<and> chain (hmem hid) (hnext hid) zs
                 \<and> ys = zs @ concat (drop (Suc (current_slot hid)) L)))"

lemma hash_inv_bound: "hash_inv hid L \<Longrightarrow> hash hid k (hsize hid) < length L"
  unfolding hash_inv_def by blast

lemma chain_unique: "chain m p xs \<Longrightarrow> chain m p ys \<Longrightarrow> xs = ys"
proof (induction xs arbitrary: p ys)
  case Nil then show ?case by (cases ys) auto
next
  case (Cons a xs) then show ?case by (cases ys) (auto split: option.splits)
qed

lemma chain_append:
  "chain m p (us @ a # vs) \<Longrightarrow> chain m (Some a) (a # vs)"
proof (induction us arbitrary: p)
  case (Cons b us)
  then show ?case by (cases "m b") auto
qed auto

lemma chain_distinct: "chain m p xs \<Longrightarrow> distinct xs"
proof (induction xs arbitrary: p)
  case (Cons a xs)
  have "a \<notin> set xs"
  proof
    assume "a \<in> set xs"
    then obtain us vs where xs: "xs = us @ a # vs" by (meson split_list)
    have "chain m (Some a) (a # vs)" using chain_append [of m p "a # us" a vs] Cons.prems xs by simp
    moreover have "chain m (Some a) (a # xs)" using Cons.prems by simp
    ultimately show False using chain_unique xs by fastforce
  qed
  with Cons show ?case by (auto split: option.splits)
qed simp

lemma chain_upd [simp]: "a \<notin> set xs \<Longrightarrow> chain (m(a \<mapsto> l)) p xs = chain m p xs"
  by (induction xs arbitrary: p) (auto split: option.splits)

lemma chain_mem: "chain m p xs \<Longrightarrow> a \<in> set xs \<Longrightarrow> \<exists>l. m a = Some l"
  by (induction xs arbitrary: p) (auto split: option.splits)

lemma lookup_loop_chain:
  "chain (hmem hid) p xs \<Longrightarrow>
   lookup_loop hid k p = Some (List.find (\<lambda>a. cmp hid k (lkey (the (hmem hid a))) = 0) xs)"
proof (induction xs arbitrary: p)
  case Nil then show ?case by (subst lookup_loop.simps) simp
next
  case (Cons a xs)
  then obtain l where l: "p = Some a" "hmem hid a = Some l" "chain (hmem hid) (lnext l) xs"
    by (auto split: option.splits)
  have "lnext l \<noteq> Some a"
    using l(3) chain_distinct [OF Cons.prems] by (cases xs) auto
  with Cons.IH [OF l(3)] l show ?case by (subst lookup_loop.simps) auto
qed

lemma hash_inv_lookup:
  assumes "hash_inv hid L"
  shows "hash_lookup hid k =
     Some (List.find (\<lambda>a. cmp hid k (lkey (the (hmem hid a))) = 0) (L ! hash hid k (hsize hid)))"
proof -
  have "chain (hmem hid) (buckets hid ! hash hid k (hsize hid)) (L ! hash hid k (hsize hid))"
    and "hash hid k (hsize hid) < length (buckets hid)"
    using assms by (auto simp: hash_inv_def slot_ok_def)
  then show ?thesis by (simp add: hash_lookup_def Let_def lookup_loop_chain)
qed

lemma hash_inv_elem:
  "hash_inv hid L \<Longrightarrow> i < length L \<Longrightarrow> a \<in> set (L ! i) \<Longrightarrow>
   \<exists>l. hmem hid a = Some l \<and> hash hid (lkey l) (hsize hid) = i"
  by (auto simp: hash_inv_def slot_ok_def)

lemma hash_inv_slot:
  assumes "hash_inv hid L" and "a \<in> set (concat L)" and "hmem hid a = Some l"
  shows "hash hid (lkey l) (hsize hid) < length L \<and> a \<in> set (L ! hash hid (lkey l) (hsize hid))"
proof -
  from assms(2) obtain i where "i < length L" "a \<in> set (L ! i)"
    by (auto simp: in_set_conv_nth) (metis nth_mem)
  with hash_inv_elem [OF assms(1)] assms(3) show ?thesis by fastforce
qed

lemma distinct_concat_nth:
  assumes "\<And>i. i < length L \<Longrightarrow> distinct (L ! i)"
    and "\<And>i j. i < length L \<Longrightarrow> j < length L \<Longrightarrow> i \<noteq> j \<Longrightarrow> set (L ! i) \<inter> set (L ! j) = {}"
  shows "distinct (concat L)"
  using assms
proof (induction L)
  case (Cons xs L)
  have "distinct (concat L)"
  proof (rule Cons.IH)
    show "distinct (L ! i)" if "i < length L" for i using Cons.prems(1) [of "Suc i"] that by simp
    show "set (L ! i) \<inter> set (L ! j) = {}" if "i < length L" "j < length L" "i \<noteq> j" for i j
      using Cons.prems(2) [of "Suc i" "Suc j"] that by simp
  qed
  moreover have "distinct xs" using Cons.prems(1) [of 0] by simp
  moreover have "set xs \<inter> set ys = {}" if "ys \<in> set L" for ys
  proof -
    from that obtain j where "j < length L" "ys = L ! j" by (auto simp: in_set_conv_nth)
    then show ?thesis using Cons.prems(2) [of 0 "Suc j"] by simp
  qed
  ultimately show ?case by auto
qed simp

lemma hash_inv_distinct: "hash_inv hid L \<Longrightarrow> distinct (concat L)"
proof -
  assume inv: "hash_inv hid L"
  have "distinct (L ! i)" if "i < length L" for i
    using inv that by (auto simp: hash_inv_def slot_ok_def intro: chain_distinct)
  moreover have "set (L ! i) \<inter> set (L ! j) = {}" if "i < length L" "j < length L" "i \<noteq> j" for i j
  proof (rule ccontr)
    assume "set (L ! i) \<inter> set (L ! j) \<noteq> {}"
    then obtain a where "a \<in> set (L ! i)" "a \<in> set (L ! j)" by blast
    with hash_inv_elem [OF inv that(1)] hash_inv_elem [OF inv that(2)] that(3) show False by fastforce
  qed
  ultimately show ?thesis by (rule distinct_concat_nth)
qed

section \<open>What the operations do\<close>

lemma hash_inv_traversal [simp]:
  "hash_inv (hash_next_bucket hid) L = hash_inv hid L" "hash_inv (hid\<lparr>hnext := p\<rparr>) L = hash_inv hid L"
  "hash_inv (hid\<lparr>current_slot := s\<rparr>) L = hash_inv hid L"
  by (simp_all add: hash_inv_def slot_ok_def)

lemma hash_next_bucket_traversing:
  assumes "hash_inv hid L" and "hnext hid = None"
  shows "traversing (hash_next_bucket hid) L (concat (drop (Suc (current_slot hid)) L))"
  using assms
proof (induction hid rule: hash_next_bucket.induct)
  case (1 hid)
  let ?s = "current_slot hid + 1" and ?h = "hid\<lparr>current_slot := current_slot hid + 1, hnext := buckets hid ! (current_slot hid + 1)\<rparr>"
  from 1(2) have len: "length L = length (buckets hid)" by (simp add: hash_inv_def)
  show ?case
  proof (cases "?s < length (buckets hid)")
    case False
    with 1(3) len show ?thesis by (simp add: hash_next_bucket.simps [of hid] traversing_def)
  next
    case True
    have inv: "hash_inv ?h L" using 1(2) by simp
    have ch: "chain (hmem hid) (buckets hid ! ?s) (L ! ?s)"
      using 1(2) True len by (auto simp: hash_inv_def slot_ok_def)
    have dr: "drop (Suc (current_slot hid)) L = L ! ?s # drop (Suc ?s) L"
      using True len by (simp add: Cons_nth_drop_Suc)
    have eq: "hash_next_bucket hid = hash_next_bucket ?h"
      using 1(3) True by (subst hash_next_bucket.simps) (simp add: Let_def)
    show ?thesis
    proof (cases "buckets hid ! ?s")
      case None
      with ch have "L ! ?s = []" by (cases "L ! ?s") auto
      with 1(1) [OF 1(3) refl True inv] None eq dr show ?thesis by simp
    next
      case (Some a)
      then have "hash_next_bucket ?h = ?h" by (subst hash_next_bucket.simps) simp
      with eq ch dr Some True len show ?thesis
        by (auto simp: traversing_def intro!: exI [of _ "[]"])
    qed
  qed
qed

lemma hash_first_traversing:
  assumes "hash_inv hid L" and "hnext hid = None"
  obtains hid' where "hash_first hid = Some hid'" "hash_inv hid' L" "traversing hid' L (concat L)"
proof -
  let ?h = "hid\<lparr>current_slot := 0, hnext := buckets hid ! 0\<rparr>"
  from assms have L: "L \<noteq> []" "buckets hid \<noteq> []" by (auto simp: hash_inv_def)
  from L assms have ch: "chain (hmem hid) (buckets hid ! 0) (L ! 0)" by (auto simp: hash_inv_def slot_ok_def)
  from L have cat: "concat L = L ! 0 @ concat (drop (Suc 0) L)" by (cases L) auto
  have inv: "hash_inv ?h L" using assms by simp
  show ?thesis
  proof (cases "buckets hid ! 0")
    case None
    with ch have "L ! 0 = []" by (cases "L ! 0") auto
    with hash_next_bucket_traversing [OF inv] None cat have "traversing (hash_next_bucket ?h) L (concat L)" by simp
    with None assms L show ?thesis by (intro that [of "hash_next_bucket ?h"]) (auto simp: hash_first_def Let_def)
  next
    case (Some a)
    with ch cat L have "traversing ?h L (concat L)"
      by (auto simp: traversing_def intro!: exI [of _ "[]"])
    with Some assms L show ?thesis by (intro that [of ?h]) (auto simp: hash_first_def Let_def)
  qed
qed

lemma hash_next_traversing:
  assumes inv: "hash_inv hid L" and tr: "traversing hid L ys"
  shows "\<exists>hid'. hash_next hid = Some (hid', if ys = [] then None else Some (hd ys))
           \<and> hash_inv hid' L \<and> traversing hid' L (tl ys)"
proof (cases "hnext hid")
  case None
  with inv tr show ?thesis by (auto simp: traversing_def hash_next_def)
next
  case (Some a)
  with tr obtain ds zs where s: "current_slot hid < length L" "L ! current_slot hid = ds @ zs"
    and ch: "chain (hmem hid) (Some a) zs" and ys: "ys = zs @ concat (drop (Suc (current_slot hid)) L)"
    by (auto simp: traversing_def)
  from ch obtain l ws where zs: "zs = a # ws" and l: "hmem hid a = Some l" "chain (hmem hid) (lnext l) ws"
    by (cases zs) (auto split: option.splits)
  let ?h = "hid\<lparr>hnext := lnext l\<rparr>"
  let ?h' = "if lnext l = None then hash_next_bucket ?h else ?h"
  have "traversing ?h' L (tl ys)"
  proof (cases "lnext l")
    case None
    with l have "ws = []" by (cases ws) auto
    with hash_next_bucket_traversing [of ?h L] inv None zs ys show ?thesis by simp
  next
    case (Some b)
    with s l ys zs show ?thesis by (auto simp: traversing_def intro!: exI [of _ "ds @ [a]"])
  qed
  moreover have "hash_next hid = Some (?h', Some a)" using Some l by (simp add: hash_next_def Let_def)
  ultimately show ?thesis using inv ys zs by simp
qed

lemma hash_inv_create:
  assumes "\<And>k sz. 0 < sz \<Longrightarrow> h k sz < unat sz"
  shows "hash_inv (hash_create c sz h mem) (replicate (unat (if sz = 0 then DEFAULT_HASH_SIZE else sz)) [])"
proof -
  have "0 < (if sz = 0 then DEFAULT_HASH_SIZE else sz)"
    by (auto simp: DEFAULT_HASH_SIZE_def word_gt_0)
  moreover from this have "0 < unat (if sz = 0 then DEFAULT_HASH_SIZE else sz)"
    by (simp only: unat_gt_0 word_gt_0)
  ultimately show ?thesis
    unfolding hash_inv_def hash_create_def Let_def slot_ok_def using assms by simp
qed

lemma length_concat_update:
  "i < length L \<Longrightarrow> length (concat (L[i := xs])) + length (L ! i) = length (concat L) + length xs"
  by (induction L arbitrary: i) (auto split: nat.splits)

lemma set_concat_nth: "i < length L \<Longrightarrow> a \<in> set (L ! i) \<Longrightarrow> a \<in> set (concat L)"
  by auto

lemma hash_join_inv:
  assumes inv: "hash_inv hid L" and l: "hmem hid a = Some l" and new: "a \<notin> set (concat L)"
  defines "i \<equiv> hash hid (lkey l) (hsize hid)"
  shows "\<exists>hid'. hash_join hid a = Some hid' \<and> hash_inv hid' (L[i := a # L ! i])
           \<and> hmem hid' = (hmem hid)(a \<mapsto> l\<lparr>lnext := buckets hid ! i\<rparr>)
           \<and> cmp hid' = cmp hid \<and> hash hid' = hash hid \<and> hsize hid' = hsize hid \<and> hnext hid' = hnext hid"
proof -
  let ?m = "(hmem hid)(a \<mapsto> l\<lparr>lnext := buckets hid ! i\<rparr>)"
  let ?h = "hid\<lparr>hmem := ?m, buckets := (buckets hid)[i := Some a], hcount := hcount hid + 1\<rparr>"
  from inv have i: "i < length L" "length (buckets hid) = length L" by (auto simp: hash_inv_def i_def)
  have "slot_ok ?h j (L[i := a # L ! i] ! j)" if j: "j < length L" for j
  proof -
    from inv j have ok: "slot_ok hid j (L ! j)" by (simp add: hash_inv_def)
    have "a \<notin> set (L ! j)" using new set_concat_nth [OF j] by blast
    then show ?thesis using ok i by (cases "j = i") (auto simp: slot_ok_def i_def)
  qed
  then have "hash_inv ?h (L[i := a # L ! i])"
    using inv i length_concat_update [OF i(1), of "a # L ! i"] by (auto simp: hash_inv_def)
  moreover have "hash_join hid a = Some ?h" using l i by (simp add: hash_join_def i_def Let_def)
  ultimately show ?thesis by simp
qed

lemma chain_unlink:
  assumes "chain m p (us @ b # a # vs)" and "m a = Some l" and "m b = Some lb"
  shows "chain (m(b \<mapsto> lb\<lparr>lnext := lnext l\<rparr>)) p (us @ b # vs)"
  using assms
proof (induction us arbitrary: p)
  case Nil
  with chain_distinct [OF Nil(1)] show ?case by (auto simp del: fun_upd_apply simp add: fun_upd_same)
next
  case (Cons c us)
  with chain_distinct [OF Cons(2)] show ?case
    by (cases "m c") (auto simp del: fun_upd_apply simp add: fun_upd_other)
qed

lemma find_place_chain:
  "chain (hmem hid) (place_get hid P) (us @ a # vs) \<Longrightarrow> a \<notin> set us \<Longrightarrow>
   find_place hid a P = Some (if us = [] then P else NextOf (last us))"
proof (induction us arbitrary: P)
  case Nil
  then show ?case by (subst find_place.simps) (auto split: option.splits)
next
  case (Cons c us)
  then obtain l where l: "place_get hid P = Some c" "hmem hid c = Some l" "chain (hmem hid) (lnext l) (us @ a # vs)"
    by (auto split: option.splits)
  with Cons.IH [of "NextOf c"] Cons.prems(2) show ?case by (subst find_place.simps) auto
qed

text \<open>A chain that is a tail of the one a link \<open>a\<close> is taken out of.\<close>

definition unlinked :: "(addr \<Rightarrow> ('k, 'v) hash_link option) \<Rightarrow> addr list \<Rightarrow> addr option \<Rightarrow> addr \<Rightarrow> ('k, 'v) hash_link option" where
  "unlinked m us p =
     (if us = [] then m else (case m (last us) of None \<Rightarrow> m | Some lb \<Rightarrow> m(last us \<mapsto> lb\<lparr>lnext := p\<rparr>)))"

lemma chain_unlinked:
  assumes xs: "us @ a # vs = ds @ zs" "distinct (ds @ zs)" and l: "m a = Some l"
    and ch: "chain m p zs" and hd: "p \<noteq> Some a"
  shows "chain (unlinked m us (lnext l)) p (removeAll a zs)"
proof (cases "a \<in> set zs")
  case False
  then have "last us \<notin> set zs" if "us \<noteq> []"
    using xs last_in_set [OF that] by (auto simp: append_eq_append_conv2 Cons_eq_append_conv)
  with False ch show ?thesis by (auto simp: unlinked_def split: option.splits)
next
  case True
  then obtain us2 where us: "us = ds @ us2" "zs = us2 @ a # vs"
    using xs by (auto simp: append_eq_append_conv2 Cons_eq_append_conv)
  with ch hd obtain b us3 where us2: "us2 = us3 @ [b]" by (cases us2 rule: rev_cases) auto
  from chain_mem [OF ch, of b] obtain lb where lb: "m b = Some lb" by (auto simp: us us2)
  have "removeAll a zs = us3 @ b # vs" using xs(2) by (auto simp: us us2)
  with chain_unlink [of m p us3 b a vs, OF _ l lb] ch show ?thesis by (simp add: unlinked_def us us2 lb)
qed

lemma chain_unlinked_hd:
  assumes "distinct (us @ a # vs)" and "m a = Some l" and "chain m (Some a) (a # vs)"
  shows "chain (unlinked m us (lnext l)) (lnext l) vs"
proof -
  have "last us \<notin> set vs" if "us \<noteq> []" using assms(1) last_in_set [OF that] by auto
  with assms show ?thesis by (auto simp: unlinked_def split: option.splits)
qed

lemma unlinked_keys:
  "map_option lkey (unlinked m us p b) = map_option lkey (m b)"
  "map_option lval (unlinked m us p b) = map_option lval (m b)"
  by (auto simp: unlinked_def split: option.splits)

lemma concat_map_removeAll: "concat (map (removeAll a) L) = removeAll a (concat L)"
  by (induction L) auto

lemma length_removeAll_concat:
  assumes "distinct (concat L)" and "a \<in> set (concat L)"
  shows "length (concat (map (removeAll a) L)) + 1 = length (concat L)"
proof -
  have "length (removeAll a xs) + 1 = length xs" if "distinct xs" "a \<in> set xs" for xs
    using that by (induction xs) auto
  with assms show ?thesis unfolding concat_map_removeAll by blast
qed

lemma hash_next_bucket_count:
  "hash_next_bucket (h\<lparr>hcount := n\<rparr>) = (hash_next_bucket h)\<lparr>hcount := n\<rparr>"
proof (induction h rule: hash_next_bucket.induct)
  case (1 h)
  have comm: "k\<lparr>hcount := n, hnext := p\<rparr> = k\<lparr>hnext := p, hcount := n\<rparr>"
    "k\<lparr>hcount := n, current_slot := s\<rparr> = k\<lparr>current_slot := s, hcount := n\<rparr>"
    for s p and k :: "('a, 'b) hash_table"
    by simp_all
  from 1 show ?case
    by (subst (1 2) hash_next_bucket.simps) (auto simp: Let_def comm)
qed

lemma hash_remove_link_eq:
  assumes inv: "hash_inv hid L" and a: "a \<in> set (concat L)"
  obtains l i us vs where "hmem hid a = Some l" "i = hash hid (lkey l) (hsize hid)" "i < length L"
    "L ! i = us @ a # vs" "a \<notin> set us"
    "hash_remove_link hid a =
       (let h = hid\<lparr>buckets := (if us = [] then (buckets hid)[i := lnext l] else buckets hid),
                     hmem := unlinked (hmem hid) us (lnext l), hcount := hcount hid - 1\<rparr>
        in Some (if hnext hid = Some a then
                   (if lnext l = None then hash_next_bucket (h\<lparr>hnext := None\<rparr>) else h\<lparr>hnext := lnext l\<rparr>)
                 else h))"
proof -
  from a obtain xs where "xs \<in> set L" "a \<in> set xs" by auto
  then obtain j where j: "j < length L" "a \<in> set (L ! j)" by (auto simp: in_set_conv_nth)
  from hash_inv_elem [OF inv this] obtain l where l: "hmem hid a = Some l" "hash hid (lkey l) (hsize hid) = j" by auto
  from j(2) obtain us vs where us: "L ! j = us @ a # vs" "a \<notin> set us" by (meson split_list_first)
  from inv j have ch: "chain (hmem hid) (place_get hid (Bucket j)) (us @ a # vs)"
    and len: "j < length (buckets hid)" by (auto simp: hash_inv_def slot_ok_def us)
  have fp: "find_place hid a (Bucket j) = Some (if us = [] then Bucket j else NextOf (last us))"
    by (rule find_place_chain [OF ch us(2)])
  have b: "\<exists>lb. hmem hid (last us) = Some lb" if "us \<noteq> []"
    using chain_mem [OF ch, of "last us"] last_in_set [OF that] by auto
  have nb: "hash_next_bucket (h\<lparr>hcount := n, hnext := p\<rparr>) = (hash_next_bucket (h\<lparr>hnext := p\<rparr>))\<lparr>hcount := n\<rparr>"
    for n p and h :: "('a, 'b) hash_table"
  proof -
    have "h\<lparr>hcount := n, hnext := p\<rparr> = h\<lparr>hnext := p, hcount := n\<rparr>" by simp
    then show ?thesis by (simp only: hash_next_bucket_count)
  qed
  show ?thesis
  proof (rule that [OF l(1) refl, of us vs, unfolded l(2), OF j(1) us])
    show "hash_remove_link hid a =
       (let h = hid\<lparr>buckets := (if us = [] then (buckets hid)[j := lnext l] else buckets hid),
                     hmem := unlinked (hmem hid) us (lnext l), hcount := hcount hid - 1\<rparr>
        in Some (if hnext hid = Some a then
                   (if lnext l = None then hash_next_bucket (h\<lparr>hnext := None\<rparr>) else h\<lparr>hnext := lnext l\<rparr>)
                 else h))"
      using l len fp b nb by (auto simp: hash_remove_link_def Let_def unlinked_def split: option.splits)
  qed
qed

lemma nth_map_removeAll:
  assumes "hash_inv hid L" and "i < length L" and "L ! i = us @ a # vs" and "j < length L"
  shows "removeAll a (L ! j) = (if j = i then us @ vs else L ! j)"
proof (cases "j = i")
  case True
  have "distinct (L ! i)" using assms(1,2) by (auto simp: hash_inv_def slot_ok_def intro: chain_distinct)
  then show ?thesis using True assms(3) by simp
next
  case False
  have "a \<notin> set (L ! j)"
  proof
    assume "a \<in> set (L ! j)"
    with hash_inv_elem [OF assms(1,4)] hash_inv_elem [OF assms(1,2), of a] assms(3) False show False by force
  qed
  with False show ?thesis by simp
qed

lemma hash_remove_link_inv:
  assumes inv: "hash_inv hid L" and a: "a \<in> set (concat L)"
  obtains hid' where "hash_remove_link hid a = Some hid'" "hash_inv hid' (map (removeAll a) L)"
    "\<And>b. map_option lkey (hmem hid' b) = map_option lkey (hmem hid b)"
    "\<And>b. map_option lval (hmem hid' b) = map_option lval (hmem hid b)"
    "cmp hid' = cmp hid" "hash hid' = hash hid" "hsize hid' = hsize hid"
    "\<And>ys. traversing hid L ys \<Longrightarrow> traversing hid' (map (removeAll a) L) (removeAll a ys)"
proof -
  from inv a obtain l i us vs where l: "hmem hid a = Some l" and ih: "i = hash hid (lkey l) (hsize hid)"
    and i: "i < length L" and us: "L ! i = us @ a # vs" "a \<notin> set us"
    and eq: "hash_remove_link hid a =
       (let h = hid\<lparr>buckets := (if us = [] then (buckets hid)[i := lnext l] else buckets hid),
                     hmem := unlinked (hmem hid) us (lnext l), hcount := hcount hid - 1\<rparr>
        in Some (if hnext hid = Some a then
                   (if lnext l = None then hash_next_bucket (h\<lparr>hnext := None\<rparr>) else h\<lparr>hnext := lnext l\<rparr>)
                 else h))" by (rule hash_remove_link_eq)
  let ?h = "hid\<lparr>buckets := (if us = [] then (buckets hid)[i := lnext l] else buckets hid),
                 hmem := unlinked (hmem hid) us (lnext l), hcount := hcount hid - 1\<rparr>"
  let ?h' = "if hnext hid = Some a then
               (if lnext l = None then hash_next_bucket (?h\<lparr>hnext := None\<rparr>) else ?h\<lparr>hnext := lnext l\<rparr>) else ?h"
  let ?L = "map (removeAll a) L"
  have ok: "slot_ok hid j (L ! j)" "length (buckets hid) = length L" if "j < length L" for j
    using inv that by (auto simp: hash_inv_def)
  have di: "distinct (us @ a # vs)" using ok [OF i] chain_distinct unfolding slot_ok_def us by blast
  note nth = nth_map_removeAll [OF inv i us(1)]
  have chi: "chain (hmem hid) (Some a) (a # vs)"
    using ok [OF i] chain_append unfolding slot_ok_def us by blast
  have slots: "slot_ok ?h j (?L ! j)" if j: "j < length L" for j
  proof -
    have keys: "\<exists>l'. hmem ?h b = Some l' \<and> hash hid (lkey l') (hsize hid) = j" if "b \<in> set (?L ! j)" for b
    proof -
      from that j have "b \<in> set (L ! j)" by simp
      with hash_inv_elem [OF inv j] obtain l0 where "hmem hid b = Some l0" "hash hid (lkey l0) (hsize hid) = j" by auto
      with unlinked_keys(1) [of "hmem hid" us "lnext l" b] show ?thesis by auto
    qed
    have "chain (hmem ?h) (buckets ?h ! j) (?L ! j)"
    proof (cases "j = i")
      case True
      have ch: "chain (hmem hid) (buckets hid ! i) (us @ a # vs)" using ok [OF i] by (simp add: slot_ok_def us)
      show ?thesis
      proof (cases "us = []")
        case empty: True
        with chain_unlinked_hd [OF di l chi] True ok [OF i] i nth [OF i] show ?thesis by simp
      next
        case False
        then have "buckets hid ! i \<noteq> Some a" using ch di by (cases us) auto
        with chain_unlinked [of us a vs "[]" "us @ a # vs", OF _ _ l ch] di True False us i nth [OF i]
        show ?thesis by simp
      qed
    next
      case False
      have "last us \<notin> set (L ! j)" if "us \<noteq> []"
      proof
        assume "last us \<in> set (L ! j)"
        with hash_inv_elem [OF inv j] hash_inv_elem [OF inv i, of "last us"] us last_in_set [OF that] False
        show False by force
      qed
      moreover have "chain (hmem hid) (buckets hid ! j) (L ! j)" using ok [OF j] by (simp add: slot_ok_def)
      ultimately show ?thesis using False nth [OF j] j by (simp add: unlinked_def split: option.splits)
    qed
    with keys show ?thesis by (simp add: slot_ok_def)
  qed
  have inv': "hash_inv ?h ?L"
  proof -
    have "length (concat ?L) + 1 = length (concat L)"
      by (rule length_removeAll_concat [OF hash_inv_distinct [OF inv] a])
    with inv slots show ?thesis by (auto simp: hash_inv_def)
  qed
  have tr: "traversing ?h' ?L (removeAll a ys)" if "traversing hid L ys" for ys
  proof (cases "hnext hid")
    case None
    with that show ?thesis by (simp add: traversing_def)
  next
    case (Some b)
    let ?c = "current_slot hid"
    from that Some obtain ds zs where c: "?c < length L" "L ! ?c = ds @ zs" "chain (hmem hid) (Some b) zs"
      and ys: "ys = zs @ concat (drop (Suc ?c) L)" by (auto simp: traversing_def)
    have rest: "removeAll a (concat (drop (Suc ?c) L)) = concat (drop (Suc ?c) ?L)"
      by (simp add: concat_map_removeAll [symmetric] drop_map)
    show ?thesis
    proof (cases "b = a")
      case True
      with c obtain ws where zs: "zs = a # ws" by (cases zs) auto
      have ci: "?c = i" using hash_inv_elem [OF inv c(1), of a] l ih c(2) zs by auto
      have eqs: "ds = us" "ws = vs" using c(2) us di unfolding zs ci
        by (auto simp: append_eq_append_conv2 append_eq_Cons_conv Cons_eq_append_conv)
      have ys': "removeAll a ys = vs @ concat (drop (Suc i) ?L)" using di rest by (simp add: ys zs eqs ci)
      show ?thesis
      proof (cases "lnext l")
        case None
        with chi l have "vs = []" by (cases vs) auto
        with hash_next_bucket_traversing [of "?h\<lparr>hnext := None\<rparr>" ?L] inv' ys' Some True None ci show ?thesis by simp
      next
        case (Some d)
        then show ?thesis using \<open>hnext hid = Some b\<close> True i ci ys' nth [OF i] chain_unlinked_hd [OF di l chi]
          by (auto simp: traversing_def intro!: exI [of _ us])
      qed
    next
      case False
      have "chain (hmem ?h) (Some b) (removeAll a zs)"
      proof (cases "?c = i")
        case True
        with chain_unlinked [of us a vs ds zs, OF _ _ l c(3)] c(2) us di False show ?thesis by simp
      next
        case neq: False
        have "a \<notin> set zs" using nth [OF c(1)] neq c(2) removeAll_id by (metis UnCI removeAll_append set_append hash_inv_elem inv c(1) l ih option.inject)
        moreover have "last us \<notin> set zs" if "us \<noteq> []"
        proof
          assume "last us \<in> set zs"
          with hash_inv_elem [OF inv c(1), of "last us"] hash_inv_elem [OF inv i, of "last us"] us c(2)
            last_in_set [OF that] neq
          show False by force
        qed
        ultimately show ?thesis using c(3) by (simp add: unlinked_def split: option.splits)
      qed
      then show ?thesis using False Some c ys rest
        by (auto simp: traversing_def intro!: exI [of _ "removeAll a ds"])
    qed
  qed
  show ?thesis
  proof (rule that [of ?h'])
    show "hash_remove_link hid a = Some ?h'" by (simp add: eq Let_def)
    have "hash_inv (if b then (if b' then hash_next_bucket (h\<lparr>hnext := p\<rparr>) else h\<lparr>hnext := q\<rparr>) else h) M = hash_inv h M"
      for b b' p q M and h :: "('a, 'b) hash_table" by simp
    then show "hash_inv ?h' ?L" using inv' by blast
    show "map_option lkey (hmem ?h' b) = map_option lkey (hmem hid b)"
      "map_option lval (hmem ?h' b) = map_option lval (hmem hid b)" for b
      by (simp_all add: unlinked_keys)
  qed (simp_all add: tr)
qed

lemma strcmp_eq [simp]: "strcmp s t = 0 \<longleftrightarrow> s = t"
  by (induction s t rule: strcmp.induct) auto

lemma hash4_loop_eq: "length key = 8 * n \<Longrightarrow> hash4_loop n h key = foldl HASH4 h key"
proof (induction n h key rule: hash4_loop.induct)
  case (2 n h key)
  have "foldl HASH4 h key = foldl HASH4 h (take 8 key @ drop 8 key)" by simp
  also have "\<dots> = foldl HASH4 (foldl HASH4 h (take 8 key)) (drop 8 key)" by (simp only: foldl_append)
  finally show ?case using 2 by simp
qed simp

lemma HASH4_eq: "HASH4 h c = 33 * h + schar c"
proof -
  have "push_bit 5 h = 32 * h" by (simp add: push_bit_eq_mult)
  then show ?thesis by (simp add: HASH4_def)
qed

lemma hash4_eq_fold: "hash4 key sz = unat (foldl (\<lambda>h c. 33 * h + schar c) 0 key mod sz)"
proof -
  let ?n = "length key"
  have r: "?n AND (8 - 1) = ?n mod 8" using take_bit_eq_mask [of 3 ?n] by (simp add: take_bit_eq_mod mask_eq_exp_minus_1)
  have d: "drop_bit 3 ?n = ?n div 8" by (simp add: drop_bit_eq_div)
  have "hash4_loop (?n div 8) h (drop (?n mod 8) key) = foldl HASH4 h (drop (?n mod 8) key)" for h
    by (rule hash4_loop_eq) (simp add: minus_mod_eq_mult_div)
  then have "hash4 key sz = unat (foldl HASH4 0 (take (?n mod 8) key @ drop (?n mod 8) key) mod sz)"
    unfolding hash4_def Let_def r d foldl_append by simp
  moreover have "HASH4 = (\<lambda>h c. 33 * h + schar c)" using HASH4_eq by blast
  ultimately show ?thesis by simp
qed

lemma unat_mod_less: "0 < (sz :: 32 word) \<Longrightarrow> unat (w mod sz) < unat sz"
  by (simp add: unat_mod word_gt_0 unat_gt_0)

lemma hash4_less: "0 < sz \<Longrightarrow> hash4 key sz < unat sz"
  by (simp add: hash4_eq_fold unat_mod_less)

lemma hash_string_less: "0 < sz \<Longrightarrow> hash_string key sz < unat sz"
  by (simp add: hash_string_def unat_mod_less split: prod.splits)

text \<open>
  C14. The unrolled hash function \<open>hash4\<close>, a \<open>switch\<close> that falls through its cases followed by a loop
  over groups of eight bytes, computes the plain fold \<open>33 * h + c\<close> over the string, with signed bytes
  and 32-bit wrap-around, and it and \<open>hash_string\<close> index a table of any non-zero size within bounds.
\<close>

theorem hash4_unrolling_correct:
  "hash4 key sz = unat (foldl (\<lambda>h c. 33 * h + schar c) 0 key mod sz)
   \<and> (0 < sz \<longrightarrow> hash4 key sz < unat sz \<and> hash_string key sz < unat sz)"
  by (auto intro: hash4_eq_fold hash4_less hash_string_less)

theorem hash4_unrolling_correct_witness: "hash4 ''mybox-filter'' 229 < 229 \<and> hash_string ''mybox'' 229 < 229"
  using hash4_unrolling_correct [of "''mybox-filter''" 229] hash4_unrolling_correct [of "''mybox''" 229] by simp

section \<open>Traversals with removals\<close>

text \<open>
  The calls a client makes between \<open>hash_first\<close> and the end of its traversal, and what they return.
  \<open>iter_spec\<close> is the same on the list of links of the table and the list of those not yet returned.
\<close>

datatype hop = Next | Remove addr

fun hash_iter :: "('k, 'v) hash_table \<Rightarrow> hop list \<Rightarrow> addr option list option" where
  "hash_iter hid [] = Some []"
| "hash_iter hid (Next # ops) =
     (case hash_next hid of
        None \<Rightarrow> None
      | Some (hid, r) \<Rightarrow> map_option ((#) r) (hash_iter hid ops))"
| "hash_iter hid (Remove a # ops) =
     (case hash_remove_link hid a of None \<Rightarrow> None | Some hid \<Rightarrow> hash_iter hid ops)"

fun iter_spec :: "addr list \<Rightarrow> addr list \<Rightarrow> hop list \<Rightarrow> addr option list option" where
  "iter_spec xs ys [] = Some []"
| "iter_spec xs ys (Next # ops) =
     map_option ((#) (if ys = [] then None else Some (hd ys))) (iter_spec xs (tl ys) ops)"
| "iter_spec xs ys (Remove a # ops) =
     (if a \<in> set xs then iter_spec (removeAll a xs) (removeAll a ys) ops else None)"

lemma hash_iter_refines:
  "hash_inv hid L \<Longrightarrow> traversing hid L ys \<Longrightarrow> iter_spec (concat L) ys ops = Some outs \<Longrightarrow>
   hash_iter hid ops = Some outs"
proof (induction ops arbitrary: hid L ys outs)
  case (Cons op ops)
  show ?case
  proof (cases op)
    case Next
    from hash_next_traversing [OF Cons.prems(1,2)] Cons.IH Cons.prems(3) Next
    show ?thesis by fastforce
  next
    case (Remove a)
    with Cons.prems(3) have a: "a \<in> set (concat L)"
      and s: "iter_spec (removeAll a (concat L)) (removeAll a ys) ops = Some outs" by (auto split: if_splits)
    obtain hid' where "hash_remove_link hid a = Some hid'" "hash_inv hid' (map (removeAll a) L)"
      "traversing hid' (map (removeAll a) L) (removeAll a ys)"
      by (rule hash_remove_link_inv [OF Cons.prems(1) a], rule that) (use Cons.prems(2) in blast)+
    with Cons.IH s Remove show ?thesis by (simp add: concat_map_removeAll)
  qed
qed simp

lemma free_collect_traversing:
  "hash_inv hid L \<Longrightarrow> traversing hid L ys \<Longrightarrow> int (length xs) + int (length ys) = hcount hid \<Longrightarrow>
   \<exists>hid'. free_collect hid (int (length xs)) xs = Some (hid', xs @ ys) \<and> hnext hid' = None"
proof (induction ys arbitrary: hid xs)
  case Nil
  with hash_next_traversing [OF Nil(1,2)] show ?case
    by (subst free_collect.simps) (auto simp: traversing_def hash_next_def split: option.splits if_splits)
next
  case (Cons y ys)
  from hash_next_traversing [OF Cons.prems(1,2)] obtain hid' where n: "hash_next hid = Some (hid', Some y)"
    "hash_inv hid' L" "traversing hid' L ys" by auto
  with hash_next_frame have c: "hcount hid' = hcount hid" by blast
  with Cons.prems(3) have "int (length (xs @ [y])) + int (length ys) = hcount hid'" by simp
  from Cons.IH [OF n(2,3) this] n(1) c Cons.prems(3) show ?case
    by (subst free_collect.simps) (auto simp: add.commute)
qed

text \<open>
  C12. Traversing a hash table: from a table that satisfies the invariant, \<open>hash_first\<close> followed by any
  sequence of \<open>hash_next\<close> and \<open>hash_remove_link\<close> calls (of links that are in the table at that time, the
  one about to be returned included) never fails an assertion nor follows a dangling pointer, and returns
  exactly what iterating over the list of links would: each link once, none that was removed before, and
  then NULL. In particular \<open>hashFreeItems\<close> passes every link to the free function exactly once.
\<close>

theorem hash_traversal_refines:
  assumes "hash_inv hid L" and "hnext hid = None"
  shows "(\<exists>h. hash_first hid = Some h \<and>
           (\<forall>ops outs. iter_spec (concat L) (concat L) ops = Some outs \<longrightarrow> hash_iter h ops = Some outs))
    \<and> (\<exists>h. hashFreeItems hid = Some (h, concat L) \<and> hnext h = None) \<and> distinct (concat L)"
proof (intro conjI)
  from assms obtain h where h: "hash_first hid = Some h" "hash_inv h L" "traversing h L (concat L)"
    by (rule hash_first_traversing)
  with hash_iter_refines show "\<exists>h. hash_first hid = Some h \<and>
           (\<forall>ops outs. iter_spec (concat L) (concat L) ops = Some outs \<longrightarrow> hash_iter h ops = Some outs)" by blast
  from h(2) have "int (length []) + int (length (concat L)) = hcount h" by (simp add: hash_inv_def)
  from free_collect_traversing [OF h(2,3) this] h(1)
  show "\<exists>h. hashFreeItems hid = Some (h, concat L) \<and> hnext h = None" by (simp add: hashFreeItems_def)
qed (rule hash_inv_distinct [OF assms(1)])

definition two_links :: "(string, unit) hash_table" where
  "two_links = \<lparr>buckets = [Some 0, Some 1], cmp = strcmp, hash = hash4, hsize = 2, current_slot = 0,
     hnext = None, hcount = 3,
     hmem = [0 \<mapsto> \<lparr>lkey = ''b'', lnext = None, lval = ()\<rparr>, 1 \<mapsto> \<lparr>lkey = ''a'', lnext = Some 2, lval = ()\<rparr>,
             2 \<mapsto> \<lparr>lkey = ''c'', lnext = None, lval = ()\<rparr>]\<rparr>"

lemma two_links_inv: "hash_inv two_links [[0], [1, 2]]"
proof -
  have h: "hash4 ''b'' 2 = 0" "hash4 ''a'' 2 = 1" "hash4 ''c'' 2 = 1" by code_simp+
  have "slot_ok two_links 0 [0]" "slot_ok two_links 1 [1, 2]"
    using h by (simp_all add: slot_ok_def two_links_def)
  then have "slot_ok two_links i ([[0], [1, 2]] ! i)" if "i < 2" for i
    using that by (auto simp: less_2_cases_iff)
  moreover have "hash4 k 2 < 2" for k using hash4_less [of 2 k] by simp
  ultimately show ?thesis by (simp add: hash_inv_def two_links_def numeral_2_eq_2 [symmetric] flip: One_nat_def)
qed

theorem hash_traversal_refines_witness:
  "\<exists>h. hash_first two_links = Some h
     \<and> hash_iter h [Next, Remove 1, Next, Remove 0, Next, Next] = Some [Some 0, Some 2, None, None]"
proof -
  have "hnext two_links = None" by (simp add: two_links_def)
  from hash_traversal_refines [OF two_links_inv this] obtain h where h: "hash_first two_links = Some h"
    "\<forall>ops outs. iter_spec [0, 1, 2] [0, 1, 2] ops = Some outs \<longrightarrow> hash_iter h ops = Some outs" by auto
  have "iter_spec [0, 1, 2] [0, 1, 2] [Next, Remove 1, Next, Remove 0, Next, Next] = Some [Some 0, Some 2, None, None]"
    by simp
  with h show ?thesis by blast
qed

section \<open>A store of links by key\<close>

text \<open>
  What a client of the table relies on. \<open>insert\<close> stands for allocating a link with a key and a value at
  a fresh address and joining it, \<open>lookup\<close> and \<open>remove\<close> for \<open>hash_lookup\<close> and \<open>hash_remove_link\<close>.
\<close>

locale keyed_store =
  fixes inv :: "'s \<Rightarrow> bool"
    and items :: "'s \<Rightarrow> addr set"
    and key :: "'s \<Rightarrow> addr \<Rightarrow> 'k"
    and val :: "'s \<Rightarrow> addr \<Rightarrow> 'v"
    and lookup :: "'s \<Rightarrow> 'k \<Rightarrow> addr option option"
    and insert :: "'s \<Rightarrow> addr \<Rightarrow> 'k \<Rightarrow> 'v \<Rightarrow> 's option"
    and remove :: "'s \<Rightarrow> addr \<Rightarrow> 's option"
  assumes lookup_total: "inv s \<Longrightarrow> \<exists>r. lookup s k = Some r"
    and lookup_found: "inv s \<Longrightarrow> lookup s k = Some (Some a) \<Longrightarrow> a \<in> items s \<and> key s a = k"
    and lookup_none: "inv s \<Longrightarrow> lookup s k = Some None \<Longrightarrow> a \<in> items s \<Longrightarrow> key s a \<noteq> k"
    and insert_ok: "inv s \<Longrightarrow> a \<notin> items s \<Longrightarrow>
      \<exists>s'. insert s a k v = Some s' \<and> inv s' \<and> items s' = items s \<union> {a} \<and> key s' a = k \<and> val s' a = v
           \<and> (\<forall>b \<in> items s. key s' b = key s b \<and> val s' b = val s b)"
    and remove_ok: "inv s \<Longrightarrow> a \<in> items s \<Longrightarrow>
      \<exists>s'. remove s a = Some s' \<and> inv s' \<and> items s' = items s - {a}
           \<and> (\<forall>b \<in> items s'. key s' b = key s b \<and> val s' b = val s b)"
begin

lemma insert_lookup:
  assumes "inv s" and "lookup s k = Some None" and "a \<notin> items s" and "insert s a k v = Some s'"
  shows "lookup s' k = Some (Some a)"
proof -
  from insert_ok [OF assms(1,3), of k v] assms(4) have s': "inv s'" "items s' = items s \<union> {a}" "key s' a = k"
    "\<forall>b \<in> items s. key s' b = key s b" by auto
  from lookup_total [OF s'(1)] obtain r where r: "lookup s' k = Some r" by blast
  show ?thesis
  proof (cases r)
    case None
    with lookup_none [OF s'(1), of k a] r s' show ?thesis by simp
  next
    case (Some b)
    with lookup_found [OF s'(1)] r have b: "b \<in> items s'" "key s' b = k" by auto
    have "b = a"
    proof (rule ccontr)
      assume "b \<noteq> a"
      with b s' have "b \<in> items s" "key s b = k" by auto
      with lookup_none [OF assms(1,2)] show False by blast
    qed
    with r Some show ?thesis by simp
  qed
qed

lemma insert_lookup_other:
  assumes "inv s" and "a \<notin> items s" and "insert s a k v = Some s'" and "k' \<noteq> k"
    and "\<And>b c. b \<in> items s \<Longrightarrow> c \<in> items s \<Longrightarrow> key s b = key s c \<Longrightarrow> b = c"
  shows "lookup s' k' = lookup s k'"
proof -
  from insert_ok [OF assms(1,2), of k v] assms(3) have s': "inv s'" "items s' = items s \<union> {a}" "key s' a = k"
    "\<forall>b \<in> items s. key s' b = key s b" by auto
  from lookup_total [OF s'(1)] lookup_total [OF assms(1)] obtain r r' where
    r: "lookup s' k' = Some r" "lookup s k' = Some r'" by blast
  have "r = r'"
  proof (cases r)
    case None
    with r lookup_none [OF s'(1), of k'] s' lookup_found [OF assms(1), of k'] show ?thesis
      by (cases r') fastforce+
  next
    case (Some b)
    with r lookup_found [OF s'(1)] s' assms(4) have "b \<in> items s" "key s b = k'" by fastforce+
    with r Some lookup_none [OF assms(1), of k'] lookup_found [OF assms(1), of k'] assms(5) show ?thesis
      by (cases r') auto
  qed
  with r show ?thesis by simp
qed

lemma remove_lookup:
  assumes "inv s" and "lookup s k = Some (Some a)" and "remove s a = Some s'"
    and "\<And>b c. b \<in> items s \<Longrightarrow> c \<in> items s \<Longrightarrow> key s b = key s c \<Longrightarrow> b = c"
  shows "lookup s' k = Some None"
proof -
  from lookup_found [OF assms(1,2)] have a: "a \<in> items s" "key s a = k" by auto
  from remove_ok [OF assms(1) a(1)] assms(3) have s': "inv s'" "items s' = items s - {a}"
    "\<forall>b \<in> items s'. key s' b = key s b" by auto
  from lookup_total [OF s'(1)] obtain r where r: "lookup s' k = Some r" by blast
  have "r = None"
  proof (rule ccontr)
    assume "r \<noteq> None"
    then obtain b where "r = Some b" by blast
    with lookup_found [OF s'(1)] r have "b \<in> items s'" "key s' b = k" by auto
    with s' a assms(4) [of b a] show False by auto
  qed
  with r show ?thesis by simp
qed

end

definition str_inv :: "(string, 'v) hash_table \<Rightarrow> bool" where
  "str_inv hid \<longleftrightarrow> (\<exists>L. hash_inv hid L) \<and> cmp hid = strcmp \<and> hash hid = hash4"

definition link_set :: "('k, 'v) hash_table \<Rightarrow> addr set" where
  "link_set hid = {a. \<exists>L. hash_inv hid L \<and> a \<in> set (concat L)}"

definition link_key :: "('k, 'v) hash_table \<Rightarrow> addr \<Rightarrow> 'k" where
  "link_key hid a = lkey (the (hmem hid a))"

definition link_val :: "('k, 'v) hash_table \<Rightarrow> addr \<Rightarrow> 'v" where
  "link_val hid a = lval (the (hmem hid a))"

definition new_link :: "('k, 'v) hash_table \<Rightarrow> addr \<Rightarrow> 'k \<Rightarrow> 'v \<Rightarrow> ('k, 'v) hash_table option" where
  \<comment> \<open>\<open>lp = xmalloc(...)\<close>, its fields, and \<open>hash_join\<close>\<close>
  "new_link hid a k v =
     hash_join (hid\<lparr>hmem := (hmem hid)(a \<mapsto> \<lparr>lkey = k, lnext = None, lval = v\<rparr>)\<rparr>) a"

lemma hash_inv_unique: "hash_inv hid L \<Longrightarrow> hash_inv hid M \<Longrightarrow> L = M"
proof (rule nth_equalityI)
  assume L: "hash_inv hid L" and M: "hash_inv hid M"
  then show "length L = length M" by (simp add: hash_inv_def)
  fix i assume "i < length L"
  with L M have "chain (hmem hid) (buckets hid ! i) (L ! i)" "chain (hmem hid) (buckets hid ! i) (M ! i)"
    by (auto simp: hash_inv_def slot_ok_def)
  then show "L ! i = M ! i" by (rule chain_unique)
qed

lemma link_set_eq: "hash_inv hid L \<Longrightarrow> link_set hid = set (concat L)"
  unfolding link_set_def using hash_inv_unique by blast

lemma hash_inv_alloc:
  assumes "hash_inv hid L" and "a \<notin> set (concat L)"
  shows "hash_inv (hid\<lparr>hmem := (hmem hid)(a \<mapsto> l)\<rparr>) L"
proof -
  have "slot_ok (hid\<lparr>hmem := (hmem hid)(a \<mapsto> l)\<rparr>) i (L ! i)" if i: "i < length L" for i
  proof -
    have "a \<notin> set (L ! i)" using assms(2) set_concat_nth [OF i] by blast
    moreover have "slot_ok hid i (L ! i)" using assms(1) i by (simp add: hash_inv_def)
    ultimately show ?thesis by (auto simp: slot_ok_def)
  qed
  with assms(1) show ?thesis by (auto simp: hash_inv_def)
qed

lemma new_link_inv:
  assumes inv: "hash_inv hid L" and new: "a \<notin> set (concat L)"
  obtains hid' where "new_link hid a k v = Some hid'" "hash_inv hid' (L[hash hid k (hsize hid) := a # L ! hash hid k (hsize hid)])"
    "link_key hid' a = k" "link_val hid' a = v" "\<And>b. b \<noteq> a \<Longrightarrow> hmem hid' b = hmem hid b"
    "cmp hid' = cmp hid" "hash hid' = hash hid" "hsize hid' = hsize hid" "hnext hid' = hnext hid"
proof -
  let ?l = "\<lparr>lkey = k, lnext = None, lval = v\<rparr>"
  let ?h = "hid\<lparr>hmem := (hmem hid)(a \<mapsto> ?l)\<rparr>"
  from hash_join_inv [OF hash_inv_alloc [OF inv new, of ?l], of a ?l] new
  show ?thesis by (auto simp: new_link_def link_key_def link_val_def intro!: that)
qed

lemma str_lookup:
  assumes "hash_inv hid L" and "cmp hid = strcmp" and "hash hid = hash4"
  obtains r where "hash_lookup hid k = Some r"
    and "\<And>a. r = Some a \<Longrightarrow> a \<in> set (concat L) \<and> link_key hid a = k"
    and "\<And>a. r = None \<Longrightarrow> a \<in> set (concat L) \<Longrightarrow> link_key hid a \<noteq> k"
proof (rule that [OF hash_inv_lookup [OF assms(1)]])
  let ?b = "hash hid k (hsize hid)" and ?P = "\<lambda>a. cmp hid k (lkey (the (hmem hid a))) = 0"
  from assms(1) have b: "?b < length L" by (rule hash_inv_bound)
  show "a \<in> set (concat L) \<and> link_key hid a = k" if "List.find ?P (L ! ?b) = Some a" for a
    using that b assms(2) set_concat_nth [OF b] by (auto simp: find_Some_iff link_key_def)
  show "link_key hid a \<noteq> k" if "List.find ?P (L ! ?b) = None" "a \<in> set (concat L)" for a
  proof -
    from that(2) obtain l where l: "hmem hid a = Some l"
      using hash_inv_elem [OF assms(1)] by (auto simp: in_set_conv_nth) (metis nth_mem)
    from hash_inv_slot [OF assms(1) that(2) l] that(1) assms(2) l show ?thesis
      by (auto simp: find_None_iff link_key_def)
  qed
qed

interpretation strtab: keyed_store str_inv link_set link_key link_val hash_lookup new_link hash_remove_link
proof
  fix s :: "(string, 'v) hash_table" and k :: string and v :: 'v and a
  assume "str_inv s"
  then obtain L where L: "hash_inv s L" and c: "cmp s = strcmp" "hash s = hash4" by (auto simp: str_inv_def)
  note items = link_set_eq [OF L]
  note lk = str_lookup [OF L c, of k]
  show "\<exists>r. hash_lookup s k = Some r" by (rule lk) blast
  show "hash_lookup s k = Some (Some a) \<Longrightarrow> a \<in> link_set s \<and> link_key s a = k"
    by (rule lk) (auto simp: items)
  show "hash_lookup s k = Some None \<Longrightarrow> a \<in> link_set s \<Longrightarrow> link_key s a \<noteq> k"
    by (rule lk) (auto simp: items)
  show "\<exists>s'. new_link s a k v = Some s' \<and> str_inv s' \<and> link_set s' = link_set s \<union> {a} \<and> link_key s' a = k
      \<and> link_val s' a = v \<and> (\<forall>b\<in>link_set s. link_key s' b = link_key s b \<and> link_val s' b = link_val s b)"
    if "a \<notin> link_set s"
  proof -
    have new: "a \<notin> set (concat L)" using that items by simp
    obtain s' where s': "new_link s a k v = Some s'"
      "hash_inv s' (L[hash s k (hsize s) := a # L ! hash s k (hsize s)])"
      "link_key s' a = k" "link_val s' a = v" "\<And>b. b \<noteq> a \<Longrightarrow> hmem s' b = hmem s b"
      "cmp s' = cmp s" "hash s' = hash s"
      by (rule new_link_inv [OF L new, of k v]) blast
    have "set (concat (L[i := a # L ! i])) = insert a (set (concat L))" if "i < length L" for i
      using that by (induction L arbitrary: i) (auto split: nat.splits)
    moreover have "hash s k (hsize s) < length L" using L by (rule hash_inv_bound)
    ultimately have "link_set s' = link_set s \<union> {a}" using link_set_eq [OF s'(2)] items by simp
    moreover have "link_key s' b = link_key s b \<and> link_val s' b = link_val s b" if "b \<in> link_set s" for b
    proof -
      from that \<open>a \<notin> link_set s\<close> have "b \<noteq> a" by auto
      with s'(5) show ?thesis by (simp add: link_key_def link_val_def)
    qed
    ultimately show ?thesis using s' c by (auto simp: str_inv_def)
  qed
  show "\<exists>s'. hash_remove_link s a = Some s' \<and> str_inv s' \<and> link_set s' = link_set s - {a}
      \<and> (\<forall>b\<in>link_set s'. link_key s' b = link_key s b \<and> link_val s' b = link_val s b)"
    if "a \<in> link_set s"
  proof -
    have a: "a \<in> set (concat L)" using that items by simp
    obtain s' where s': "hash_remove_link s a = Some s'" "hash_inv s' (map (removeAll a) L)"
      "\<And>b. map_option lkey (hmem s' b) = map_option lkey (hmem s b)"
      "\<And>b. map_option lval (hmem s' b) = map_option lval (hmem s b)" "cmp s' = cmp s" "hash s' = hash s"
      by (rule hash_remove_link_inv [OF L a]) blast
    have li: "link_set s' = link_set s - {a}" using link_set_eq [OF s'(2)] items by (auto simp: concat_map_removeAll)
    have "link_key s' b = link_key s b \<and> link_val s' b = link_val s b" if "b \<in> link_set s'" for b
    proof -
      from that li items hash_inv_elem [OF L] obtain l where "hmem s b = Some l"
        by (auto simp: in_set_conv_nth) (metis nth_mem)
      with s'(3,4) [of b] show ?thesis by (auto simp: link_key_def link_val_def)
    qed
    with s' c li show ?thesis by (auto simp: str_inv_def)
  qed
qed

text \<open>
  C13. The store the virus filter builds on the table (string keys, \<open>strcmp\<close>, \<open>hash4\<close>): a lookup always
  ends with an answer; a key that is not in the table is found after a link with it is joined, at that
  link; and when no two links share a key, a link that is looked up and removed is not found again.
\<close>

theorem hash_store_correct:
  assumes "str_inv s"
  shows "(\<exists>r. hash_lookup s k = Some r)
    \<and> (hash_lookup s k = Some None \<and> a \<notin> link_set s \<longrightarrow>
         (\<exists>s'. new_link s a k v = Some s' \<and> str_inv s' \<and> hash_lookup s' k = Some (Some a)))
    \<and> (hash_lookup s k = Some (Some a) \<and> inj_on (link_key s) (link_set s) \<longrightarrow>
         (\<exists>s'. hash_remove_link s a = Some s' \<and> str_inv s' \<and> hash_lookup s' k = Some None))"
proof (intro conjI impI; (elim conjE)?)
  show "\<exists>r. hash_lookup s k = Some r" by (rule strtab.lookup_total [OF assms])
  show "\<exists>s'. new_link s a k v = Some s' \<and> str_inv s' \<and> hash_lookup s' k = Some (Some a)"
    if "hash_lookup s k = Some None" "a \<notin> link_set s"
    using strtab.insert_ok [OF assms that(2), of k v] strtab.insert_lookup [OF assms that] by blast
  show "\<exists>s'. hash_remove_link s a = Some s' \<and> str_inv s' \<and> hash_lookup s' k = Some None"
    if "hash_lookup s k = Some (Some a)" "inj_on (link_key s) (link_set s)"
    using strtab.remove_ok [OF assms] strtab.lookup_found [OF assms that(1)]
      strtab.remove_lookup [OF assms that(1)] that(2) by (metis inj_onD)
qed

theorem hash_store_correct_witness:
  "\<exists>s'. new_link two_links 9 ''d'' () = Some s' \<and> str_inv s' \<and> hash_lookup s' ''d'' = Some (Some 9)"
proof -
  have inv: "str_inv two_links" using two_links_inv by (auto simp: str_inv_def two_links_def)
  have "hash_lookup two_links ''d'' = Some None"
    using hash_inv_lookup [OF two_links_inv, of "''d''"] by (simp add: two_links_def) code_simp
  moreover have "9 \<notin> link_set two_links" by (simp add: link_set_eq [OF two_links_inv])
  ultimately show ?thesis using hash_store_correct [OF inv] by blast
qed

end
