(* ===== verification/UrlEscape.thy ===== *)
theory UrlEscape
  imports Prelude
begin

text \<open>
  The RFC 1738 escaping of URLs (\<^verbatim>\<open>squid-mybox/lib/rfc1738.c\<close>): the escaping loop with its growing
  static buffer, in the three modes it is called with, and the unescaping loop, which works in place.
  The results of \<open>sscanf(hexnum, "%x", &x)\<close> on two characters are those of glibc, which skips white
  space and accepts a sign and a bare \<open>0x\<close>.
\<close>

section \<open>Escaping\<close>

definition rfc1738_unsafe_chars :: string where
  "rfc1738_unsafe_chars =
     map char_of [0x3C :: nat, 0x3E, 0x22, 0x23, 0x7B, 0x7D, 0x7C, 0x5C, 0x5E, 0x7E, 0x5B, 0x5D, 0x60, 0x27, 0x20]"

definition rfc1738_reserved_chars :: string where
  "rfc1738_reserved_chars = map char_of [0x3b :: nat, 0x2f, 0x3f, 0x3a, 0x40, 0x3d, 0x26]"

definition do_escape :: "int \<Rightarrow> char \<Rightarrow> bool" where
  "do_escape encode_reserved c \<longleftrightarrow>
     c \<in> set rfc1738_unsafe_chars
     \<or> encode_reserved \<ge> 0 \<and> c = CHR ''%''
     \<or> encode_reserved > 0 \<and> c \<in> set rfc1738_reserved_chars
     \<or> ord c \<le> 0x1F \<or> ord c = 0x7F \<or> ord c \<ge> 0x80"

definition hexdigit :: "nat \<Rightarrow> char" where
  "hexdigit n = (if n < 10 then char_of (48 + n) else char_of (87 + n))"

definition triplet :: "char \<Rightarrow> string" where
  \<comment> \<open>\<open>sprintf(q, "%%%02x", (unsigned char) *p)\<close>\<close>
  "triplet c = [CHR ''%'', hexdigit (ord c div 16), hexdigit (ord c mod 16)]"

text \<open>
  The static buffer is represented by its size, 0 before the first call; \<open>None\<close> is a write past it.
\<close>

definition escape_bufsize :: "nat \<Rightarrow> string \<Rightarrow> nat" where
  "escape_bufsize bufsize url = (if bufsize = 0 \<or> length url * 3 > bufsize then length url * 3 + 1 else bufsize)"

fun escape_loop :: "nat \<Rightarrow> int \<Rightarrow> string \<Rightarrow> string \<Rightarrow> string option" where
  "escape_loop bufsize er [] out = (if length out < bufsize then Some out else None)"
| "escape_loop bufsize er (c # p) out =
     (let out' = out @ (if do_escape er c then triplet c else [c]) in
      if length out' \<le> bufsize then escape_loop bufsize er p out' else None)"

definition rfc1738_do_escape :: "nat \<Rightarrow> int \<Rightarrow> string \<Rightarrow> nat \<times> string option" where
  "rfc1738_do_escape bufsize er url =
     (let bufsize = escape_bufsize bufsize url in (bufsize, escape_loop bufsize er url []))"

definition rfc1738_escape :: "nat \<Rightarrow> string \<Rightarrow> nat \<times> string option" where
  "rfc1738_escape b url = rfc1738_do_escape b 0 url"

definition rfc1738_escape_unescaped :: "nat \<Rightarrow> string \<Rightarrow> nat \<times> string option" where
  "rfc1738_escape_unescaped b url = rfc1738_do_escape b (- 1) url"

definition rfc1738_escape_part :: "nat \<Rightarrow> string \<Rightarrow> nat \<times> string option" where
  "rfc1738_escape_part b url = rfc1738_do_escape b 1 url"

section \<open>Unescaping\<close>

definition hexval :: "char \<Rightarrow> int option" where
  "hexval c =
     (if isdigit c then Some (int (ord c) - 48)
      else if 97 \<le> ord c \<and> ord c \<le> 102 then Some (int (ord c) - 87)
      else if 65 \<le> ord c \<and> ord c \<le> 70 then Some (int (ord c) - 55)
      else None)"

definition sscanf_x2 :: "char \<Rightarrow> char \<Rightarrow> int option" where
  "sscanf_x2 d e =
     (if isspace d then (if isspace e then None else hexval e)
      else if d = CHR ''-'' then map_option uminus (hexval e)
      else if d = CHR ''+'' then hexval e
      else
        (case hexval d of
           None \<Rightarrow> None
         | Some a \<Rightarrow> (case hexval e of None \<Rightarrow> Some a | Some b \<Rightarrow> Some (16 * a + b))))"

definition low_byte :: "int \<Rightarrow> char" where
  "low_byte x = char_of (nat (x mod 256))"

fun unescape_loop :: "string \<Rightarrow> bytes" where
  "unescape_loop [] = []"
| "unescape_loop (c # s) =
     (if c \<noteq> CHR ''%'' then c # unescape_loop s
      else
        (case s of
           [] \<Rightarrow> [c]
         | [d] \<Rightarrow> (if d = CHR ''%'' then [c] else c # unescape_loop s)
         | d # e # u \<Rightarrow>
             (if d = CHR ''%'' then c # unescape_loop (e # u)
              else if d = CHR ''0'' \<and> e = CHR ''0'' then c # unescape_loop u
              else
                (case sscanf_x2 d e of
                   Some x \<Rightarrow> low_byte x # unescape_loop u
                 | None \<Rightarrow> c # unescape_loop s))))"

definition rfc1738_unescape :: "string \<Rightarrow> string" where
  \<comment> \<open>what the buffer holds as a string afterwards\<close>
  "rfc1738_unescape s = cread (unescape_loop s)"

section \<open>Lemmas\<close>

definition esc :: "int \<Rightarrow> string \<Rightarrow> string" where
  "esc er url = concat (map (\<lambda>c. if do_escape er c then triplet c else [c]) url)"

lemma esc_simps [simp]:
  "esc er [] = []" "esc er (c # s) = (if do_escape er c then triplet c else [c]) @ esc er s"
  by (simp_all add: esc_def)

lemma escape_loop_fits:
  "length out + 3 * length url < bufsize \<Longrightarrow> escape_loop bufsize er url out = Some (out @ esc er url)"
  by (induction url arbitrary: out) (auto simp: Let_def triplet_def)

lemma escape_bufsize_enough: "bufsize mod 3 \<in> {0, 1} \<Longrightarrow> bufsize mod 3 = 0 \<longrightarrow> bufsize = 0 \<Longrightarrow> 
  3 * length url < escape_bufsize bufsize url"
  unfolding escape_bufsize_def by (auto simp: mult.commute) presburger

lemma rfc1738_do_escape_eq:
  assumes "b = 0 \<or> b mod 3 = 1"
  shows "rfc1738_do_escape b er url = (escape_bufsize b url, Some (esc er url))"
    and "escape_bufsize b url mod 3 = 1"
proof -
  have "3 * length url < escape_bufsize b url" using assms by (intro escape_bufsize_enough) auto
  then show "rfc1738_do_escape b er url = (escape_bufsize b url, Some (esc er url))"
    by (simp add: rfc1738_do_escape_def Let_def escape_loop_fits)
  show "escape_bufsize b url mod 3 = 1"
    using assms by (auto simp: escape_bufsize_def mult.commute) presburger+
qed

lemma hexval_hexdigit: "n < 16 \<Longrightarrow> hexval (hexdigit n) = Some (int n)"
  by (auto simp: hexval_def hexdigit_def isdigit_def)

lemma hexdigit_plain:
  "n < 16 \<Longrightarrow> \<not> isspace (hexdigit n) \<and> hexdigit n \<notin> {CHR ''-'', CHR ''+'', CHR ''%''}
              \<and> (hexdigit n = CHR ''0'' \<longleftrightarrow> n = 0) \<and> \<not> do_escape (- 1) (hexdigit n)"
proof -
  have "\<forall>n \<in> {..<16}. \<not> isspace (hexdigit n) \<and> hexdigit n \<notin> {CHR ''-'', CHR ''+'', CHR ''%''}
              \<and> (hexdigit n = CHR ''0'' \<longleftrightarrow> n = 0) \<and> \<not> do_escape (- 1) (hexdigit n)"
    by (simp only: lessThan_atLeast0 atLeast_upt set_upt [symmetric]) code_simp
  then show "n < 16 \<Longrightarrow> ?thesis" by blast
qed

lemma unescape_triplet: "c \<noteq> NUL \<Longrightarrow> unescape_loop (triplet c @ s) = c # unescape_loop s"
proof -
  assume c: "c \<noteq> NUL"
  let ?d = "ord c div 16" and ?e = "ord c mod 16"
  have lt: "?d < 16" "?e < 16" by (simp_all add: less_mult_imp_div_less)
  have nz: "\<not> (?d = 0 \<and> ?e = 0)"
  proof
    assume "?d = 0 \<and> ?e = 0"
    then have "ord c = 0" using div_mult_mod_eq [of "ord c" 16] by simp
    with c show False by (simp add: char_eq_ord)
  qed
  have "sscanf_x2 (hexdigit ?d) (hexdigit ?e) = Some (int (ord c))"
  proof -
    have "16 * int ?d + int ?e = int (16 * ?d + ?e)" by (simp only: of_nat_add of_nat_mult of_nat_numeral)
    also have "16 * ?d + ?e = ord c" by simp
    finally show ?thesis using hexdigit_plain [OF lt(1)] by (simp add: sscanf_x2_def hexval_hexdigit lt)
  qed
  moreover have "low_byte (int (ord c)) = c"
    by (simp add: low_byte_def char_eq_ord nat_mod_distrib)
  ultimately show ?thesis using hexdigit_plain [OF lt(1)] hexdigit_plain [OF lt(2)] nz
    by (auto simp: triplet_def)
qed

lemma unescape_esc: "cstr s \<Longrightarrow> 0 \<le> er \<Longrightarrow> unescape_loop (esc er s) = s"
proof (induction s)
  case (Cons c s)
  then show ?case
  proof (cases "do_escape er c")
    case True
    with Cons show ?thesis by (simp add: unescape_triplet)
  next
    case False
    with Cons.prems(2) have "c \<noteq> CHR ''%''" by (simp add: do_escape_def)
    with False Cons show ?thesis by simp
  qed
qed simp

lemma esc_output: "d \<in> set (esc er s) \<Longrightarrow> \<not> do_escape er d \<or> d = CHR ''%'' \<or> (\<exists>n<16. d = hexdigit n)"
proof (induction s)
  case (Cons c s)
  have "\<exists>n<16. hexdigit (ord c div 16) = hexdigit n" "\<exists>n<16. hexdigit (ord c mod 16) = hexdigit n"
    by (rule exI [of _ "ord c div 16"], simp add: less_mult_imp_div_less)
       (rule exI [of _ "ord c mod 16"], simp)
  with Cons show ?case by (auto simp: triplet_def split: if_splits)
qed simp

lemma do_escape_percent: "\<not> do_escape (- 1) (CHR ''%'')"
  by code_simp

lemma esc_id: "\<forall>c \<in> set s. \<not> do_escape er c \<Longrightarrow> esc er s = s"
  by (induction s) auto

lemma esc_unescaped_safe: "d \<in> set (esc (- 1) s) \<Longrightarrow> \<not> do_escape (- 1) d"
  using esc_output [of d "- 1" s] do_escape_percent hexdigit_plain by auto

section \<open>Properties\<close>

text \<open>
  C15. Escaping. Whatever strings were escaped before, the static buffer is never overrun; the modes that
  escape the percent sign are undone by \<open>rfc1738_unescape\<close>; and the mode that keeps existing escapes
  leaves no byte that has to be escaped, so that escaping again changes nothing.
\<close>

theorem url_escape_correct:
  assumes "b = 0 \<or> b mod 3 = 1" and "cstr s"
  shows "(\<exists>r. snd (rfc1738_do_escape b er s) = Some r \<and> length r < fst (rfc1738_do_escape b er s)
             \<and> fst (rfc1738_do_escape b er s) mod 3 = 1)
    \<and> (\<exists>r. snd (rfc1738_escape b s) = Some r \<and> rfc1738_unescape r = s)
    \<and> (\<exists>r. snd (rfc1738_escape_part b s) = Some r \<and> rfc1738_unescape r = s)
    \<and> (\<exists>r. snd (rfc1738_escape_unescaped b s) = Some r \<and> (\<forall>c \<in> set r. \<not> do_escape (- 1) c)
             \<and> (\<forall>b'. b' = 0 \<or> b' mod 3 = 1 \<longrightarrow> snd (rfc1738_escape_unescaped b' r) = Some r))"
proof (intro conjI)
  note eq = rfc1738_do_escape_eq [OF assms(1)]
  have "length (esc er s) \<le> 3 * length s" by (induction s) (auto simp: triplet_def)
  moreover have "3 * length s < escape_bufsize b s" using assms by (intro escape_bufsize_enough) auto
  ultimately show "\<exists>r. snd (rfc1738_do_escape b er s) = Some r \<and> length r < fst (rfc1738_do_escape b er s)
             \<and> fst (rfc1738_do_escape b er s) mod 3 = 1" by (simp add: eq)
  show "\<exists>r. snd (rfc1738_escape b s) = Some r \<and> rfc1738_unescape r = s"
    "\<exists>r. snd (rfc1738_escape_part b s) = Some r \<and> rfc1738_unescape r = s"
    by (simp_all add: rfc1738_escape_def rfc1738_escape_part_def eq rfc1738_unescape_def unescape_esc assms(2))
  show "\<exists>r. snd (rfc1738_escape_unescaped b s) = Some r \<and> (\<forall>c \<in> set r. \<not> do_escape (- 1) c)
             \<and> (\<forall>b'. b' = 0 \<or> b' mod 3 = 1 \<longrightarrow> snd (rfc1738_escape_unescaped b' r) = Some r)"
    using esc_unescaped_safe
    by (auto simp: rfc1738_escape_unescaped_def eq rfc1738_do_escape_eq esc_id intro!: esc_id)
qed

theorem url_escape_correct_witness:
  "\<exists>r. snd (rfc1738_escape 0 ''/a b%'') = Some r \<and> rfc1738_unescape r = ''/a b%''"
  using url_escape_correct [of 0 "''/a b%''" 0] by (simp add: NUL_def)

text \<open>
  The guard against \<open>%00\<close> is not complete: the \<open>%x\<close> conversion accepts a single digit, a sign or white
  space, so that other triplets produce the NUL byte too and cut the string off.
\<close>

lemma unescape_makes_NUL:
  "rfc1738_unescape ''/x%00y'' = ''/x%y''" "rfc1738_unescape ''/x%0gy'' = ''/x''" "rfc1738_unescape ''/x%-0y'' = ''/x''"
  by code_simp+

end
