(* ===== verification/HttpHeader.thy ===== *)
theory HttpHeader
  imports Prelude
begin

text \<open>
  The proxy's representation of HTTP message headers (\<^verbatim>\<open>squid-mybox/src/HttpHeader.c\<close>): the table of
  known fields, the entry array with the gaps that deletion leaves, the mask of the field types present
  and the accounted length, and the operations on them. The header filters of the appliance work on this
  structure.

  A mask is the set of its bits. Statistics counters and memory management are left out; \<open>None\<close> as the
  result of an operation is a failed assertion. A \<open>HttpHeaderPos\<close> is represented by the next index to
  look at, that is, by the position plus one.
\<close>

section \<open>Field types\<close>

datatype (plugins only: code) http_hdr_type =
    HDR_ACCEPT | HDR_ACCEPT_CHARSET | HDR_ACCEPT_ENCODING | HDR_ACCEPT_LANGUAGE |
    HDR_ACCEPT_RANGES | HDR_AGE | HDR_ALLOW | HDR_AUTHORIZATION | HDR_CACHE_CONTROL |
    HDR_CONNECTION | HDR_CONTENT_BASE | HDR_CONTENT_DISPOSITION | HDR_CONTENT_ENCODING |
    HDR_CONTENT_LANGUAGE | HDR_CONTENT_LENGTH | HDR_CONTENT_LOCATION | HDR_CONTENT_MD5 |
    HDR_CONTENT_RANGE | HDR_CONTENT_TYPE | HDR_COOKIE | HDR_DATE | HDR_ETAG | HDR_EXPIRES |
    HDR_FROM | HDR_HOST | HDR_IF_MATCH | HDR_IF_MODIFIED_SINCE | HDR_IF_NONE_MATCH | HDR_IF_RANGE |
    HDR_LAST_MODIFIED | HDR_LINK | HDR_LOCATION | HDR_MAX_FORWARDS | HDR_MIME_VERSION |
    HDR_PRAGMA | HDR_PROXY_AUTHENTICATE | HDR_PROXY_AUTHENTICATION_INFO | HDR_PROXY_AUTHORIZATION |
    HDR_PROXY_CONNECTION | HDR_PUBLIC | HDR_RANGE | HDR_REQUEST_RANGE | HDR_REFERER |
    HDR_RETRY_AFTER | HDR_SERVER | HDR_SET_COOKIE | HDR_TITLE | HDR_TRANSFER_ENCODING |
    HDR_UPGRADE | HDR_USER_AGENT | HDR_VARY | HDR_VIA | HDR_WARNING | HDR_WWW_AUTHENTICATE |
    HDR_AUTHENTICATION_INFO | HDR_X_CACHE | HDR_X_CACHE_LOOKUP | HDR_X_FORWARDED_FOR |
    HDR_X_REQUEST_URI | HDR_X_SQUID_ERROR | HDR_NEGOTIATE | HDR_OTHER

datatype field_type = ftStr | ftInt | ftSize | ftPCc | ftPContRange | ftPRange | ftDate_1123 | ftETag | ftDate_1123_or_ETag

definition HeadersAttrs :: "(string \<times> http_hdr_type \<times> field_type) list" where
  "HeadersAttrs =
    [(''Accept'', HDR_ACCEPT, ftStr), (''Accept-Charset'', HDR_ACCEPT_CHARSET, ftStr),
     (''Accept-Encoding'', HDR_ACCEPT_ENCODING, ftStr),
     (''Accept-Language'', HDR_ACCEPT_LANGUAGE, ftStr),
     (''Accept-Ranges'', HDR_ACCEPT_RANGES, ftStr), (''Age'', HDR_AGE, ftInt),
     (''Allow'', HDR_ALLOW, ftStr), (''Authorization'', HDR_AUTHORIZATION, ftStr),
     (''Cache-Control'', HDR_CACHE_CONTROL, ftPCc), (''Connection'', HDR_CONNECTION, ftStr),
     (''Content-Base'', HDR_CONTENT_BASE, ftStr),
     (''Content-Disposition'', HDR_CONTENT_DISPOSITION, ftStr),
     (''Content-Encoding'', HDR_CONTENT_ENCODING, ftStr),
     (''Content-Language'', HDR_CONTENT_LANGUAGE, ftStr),
     (''Content-Length'', HDR_CONTENT_LENGTH, ftSize),
     (''Content-Location'', HDR_CONTENT_LOCATION, ftStr),
     (''Content-MD5'', HDR_CONTENT_MD5, ftStr),
     (''Content-Range'', HDR_CONTENT_RANGE, ftPContRange),
     (''Content-Type'', HDR_CONTENT_TYPE, ftStr), (''Cookie'', HDR_COOKIE, ftStr),
     (''Date'', HDR_DATE, ftDate_1123), (''ETag'', HDR_ETAG, ftETag),
     (''Expires'', HDR_EXPIRES, ftDate_1123), (''From'', HDR_FROM, ftStr),
     (''Host'', HDR_HOST, ftStr), (''If-Match'', HDR_IF_MATCH, ftStr),
     (''If-Modified-Since'', HDR_IF_MODIFIED_SINCE, ftDate_1123),
     (''If-None-Match'', HDR_IF_NONE_MATCH, ftStr),
     (''If-Range'', HDR_IF_RANGE, ftDate_1123_or_ETag),
     (''Last-Modified'', HDR_LAST_MODIFIED, ftDate_1123), (''Link'', HDR_LINK, ftStr),
     (''Location'', HDR_LOCATION, ftStr), (''Max-Forwards'', HDR_MAX_FORWARDS, ftInt),
     (''Mime-Version'', HDR_MIME_VERSION, ftStr), (''Pragma'', HDR_PRAGMA, ftStr),
     (''Proxy-Authenticate'', HDR_PROXY_AUTHENTICATE, ftStr),
     (''Proxy-Authentication-Info'', HDR_PROXY_AUTHENTICATION_INFO, ftStr),
     (''Proxy-Authorization'', HDR_PROXY_AUTHORIZATION, ftStr),
     (''Proxy-Connection'', HDR_PROXY_CONNECTION, ftStr), (''Public'', HDR_PUBLIC, ftStr),
     (''Range'', HDR_RANGE, ftPRange), (''Referer'', HDR_REFERER, ftStr),
     (''Request-Range'', HDR_REQUEST_RANGE, ftPRange), (''Retry-After'', HDR_RETRY_AFTER, ftStr),
     (''Server'', HDR_SERVER, ftStr), (''Set-Cookie'', HDR_SET_COOKIE, ftStr),
     (''Title'', HDR_TITLE, ftStr), (''Transfer-Encoding'', HDR_TRANSFER_ENCODING, ftStr),
     (''Upgrade'', HDR_UPGRADE, ftStr), (''User-Agent'', HDR_USER_AGENT, ftStr),
     (''Vary'', HDR_VARY, ftStr), (''Via'', HDR_VIA, ftStr), (''Warning'', HDR_WARNING, ftStr),
     (''WWW-Authenticate'', HDR_WWW_AUTHENTICATE, ftStr),
     (''Authentication-Info'', HDR_AUTHENTICATION_INFO, ftStr), (''X-Cache'', HDR_X_CACHE, ftStr),
     (''X-Cache-Lookup'', HDR_X_CACHE_LOOKUP, ftStr),
     (''X-Forwarded-For'', HDR_X_FORWARDED_FOR, ftStr),
     (''X-Request-URI'', HDR_X_REQUEST_URI, ftStr), (''X-Squid-Error'', HDR_X_SQUID_ERROR, ftStr),
     (''Negotiate'', HDR_NEGOTIATE, ftStr), (''Other:'', HDR_OTHER, ftStr)]"

definition ListHeadersArr :: "http_hdr_type list" where
  "ListHeadersArr =
    [HDR_ACCEPT, HDR_ACCEPT_CHARSET, HDR_ACCEPT_ENCODING, HDR_ACCEPT_LANGUAGE, HDR_ACCEPT_RANGES,
     HDR_ALLOW, HDR_CACHE_CONTROL, HDR_CONTENT_ENCODING, HDR_CONTENT_LANGUAGE, HDR_CONNECTION,
     HDR_IF_MATCH, HDR_IF_NONE_MATCH, HDR_LINK, HDR_PRAGMA, HDR_PROXY_CONNECTION,
     HDR_TRANSFER_ENCODING, HDR_UPGRADE, HDR_VARY, HDR_VIA, HDR_WWW_AUTHENTICATE,
     HDR_AUTHENTICATION_INFO, HDR_PROXY_AUTHENTICATION_INFO, HDR_X_FORWARDED_FOR]"

text \<open>\<open>httpHeaderBuildFieldsInfo\<close>: the table by field type. \<open>None\<close> is a field type that is described twice.\<close>

fun build_loop :: "(string \<times> http_hdr_type \<times> field_type) list \<Rightarrow> (http_hdr_type \<Rightarrow> (string \<times> field_type) option)
    \<Rightarrow> (http_hdr_type \<Rightarrow> (string \<times> field_type) option) option" where
  "build_loop [] t = Some t"
| "build_loop ((n, i, ty) # as) t =
     (if t i \<noteq> None \<or> n = [] then None else build_loop as (t(i \<mapsto> (n, ty))))"

definition httpHeaderBuildFieldsInfo where
  "httpHeaderBuildFieldsInfo attrs = build_loop attrs (\<lambda>_. None)"

definition hdr_name :: "http_hdr_type \<Rightarrow> string" where
  \<comment> \<open>\<open>Headers[id].name\<close>\<close>
  "hdr_name i = (case map_of (map (\<lambda>(n, i, t). (i, n)) HeadersAttrs) i of None \<Rightarrow> [] | Some n \<Rightarrow> n)"

text \<open>\<open>httpHeaderIdByName\<close> over the table, in the order of the field types; \<open>None\<close> is \<open>-1\<close>.\<close>

fun id_by_name_loop :: "string \<Rightarrow> (string \<times> 'i \<times> 't) list \<Rightarrow> 'i option" where
  "id_by_name_loop name [] = None"
| "id_by_name_loop name ((n, i, t) # info) =
     (if length name \<noteq> length n then id_by_name_loop name info
      else if strcasecmp0 name n then Some i
      else id_by_name_loop name info)"

definition httpHeaderIdByName :: "string \<Rightarrow> http_hdr_type option" where
  "httpHeaderIdByName name = id_by_name_loop name HeadersAttrs"

text \<open>\<open>httpHeaderCalcMask\<close>: \<open>None\<close> when a bit is set twice.\<close>

fun httpHeaderCalcMask :: "http_hdr_type set \<Rightarrow> http_hdr_type list \<Rightarrow> http_hdr_type set option" where
  "httpHeaderCalcMask m [] = Some m"
| "httpHeaderCalcMask m (i # enums) = (if i \<in> m then None else httpHeaderCalcMask (insert i m) enums)"

definition ListHeadersMask :: "http_hdr_type set" where
  "ListHeadersMask = set ListHeadersArr"

section \<open>Entries and headers\<close>

record http_entry =
  eid :: http_hdr_type
  ename :: string
  evalue :: string

record http_header =
  entries :: "http_entry option list"
  hmask :: "http_hdr_type set"
  hlen :: int

definition httpHeaderInit :: http_header where
  "httpHeaderInit = \<lparr>entries = [], hmask = {}, hlen = 0\<rparr>"

definition httpHeaderReset :: "http_header \<Rightarrow> http_header" where
  "httpHeaderReset hdr = httpHeaderInit"

definition httpHeaderEntryCreate :: "http_hdr_type \<Rightarrow> string \<Rightarrow> string \<Rightarrow> http_entry" where
  "httpHeaderEntryCreate i name val =
     \<lparr>eid = i, ename = (if i \<noteq> HDR_OTHER then hdr_name i else name), evalue = val\<rparr>"

definition httpHeaderEntryClone :: "http_entry \<Rightarrow> http_entry" where
  "httpHeaderEntryClone e = httpHeaderEntryCreate (eid e) (ename e) (evalue e)"

definition entry_len :: "http_entry \<Rightarrow> int" where
  "entry_len e = int (length (ename e)) + 2 + int (length (evalue e)) + 2"

text \<open>\<open>httpHeaderGetEntry\<close>: the next entry at or after an index, with the index after it.\<close>

function get_entry :: "http_entry option list \<Rightarrow> nat \<Rightarrow> (nat \<times> http_entry) option" where
  "get_entry es pos =
     (if pos < length es then
        (case es ! pos of Some e \<Rightarrow> Some (pos + 1, e) | None \<Rightarrow> get_entry es (pos + 1))
      else None)"
  by pat_completeness auto
termination by (relation "measure (\<lambda>(es, pos). length es - pos)") auto

declare get_entry.simps [simp del]

definition httpHeaderGetEntry :: "http_header \<Rightarrow> nat \<Rightarrow> (nat \<times> http_entry) option" where
  "httpHeaderGetEntry hdr pos = get_entry (entries hdr) pos"

lemma get_entry_bounds: "get_entry es pos = Some (q, e) \<Longrightarrow> pos < q \<and> q \<le> length es \<and> es ! (q - 1) = Some e"
  by (induction es pos rule: get_entry.induct)
     (subst (asm) (2) get_entry.simps, auto split: if_splits option.splits)

definition httpHeaderDelAt :: "http_header \<Rightarrow> nat \<Rightarrow> http_header option" where
  "httpHeaderDelAt hdr pos =
     (if pos < length (entries hdr) then
        (case entries hdr ! pos of
           None \<Rightarrow> None
         | Some e \<Rightarrow>
             (let len = hlen hdr - entry_len e in
              if len \<ge> 0 then Some (hdr\<lparr>entries := (entries hdr)[pos := None], hlen := len\<rparr>) else None))
      else None)"

lemma DelAt_length [simp]: "httpHeaderDelAt hdr pos = Some hdr' \<Longrightarrow> length (entries hdr') = length (entries hdr)"
  by (auto simp: httpHeaderDelAt_def Let_def split: if_splits option.splits)

function del_by_id_loop :: "http_header \<Rightarrow> http_hdr_type \<Rightarrow> nat \<Rightarrow> int \<Rightarrow> (http_header \<times> int) option" where
  "del_by_id_loop hdr i pos count =
     (case httpHeaderGetEntry hdr pos of
        None \<Rightarrow> Some (hdr, count)
      | Some (q, e) \<Rightarrow>
          (if eid e = i then
             (case httpHeaderDelAt hdr (q - 1) of
                None \<Rightarrow> None
              | Some hdr' \<Rightarrow> del_by_id_loop hdr' i q (count + 1))
           else del_by_id_loop hdr i q count))"
  by pat_completeness auto
termination
  by (relation "measure (\<lambda>(hdr, i, pos, count). length (entries hdr) - pos)")
     (auto simp: httpHeaderGetEntry_def dest!: get_entry_bounds)

definition httpHeaderDelById :: "http_header \<Rightarrow> http_hdr_type \<Rightarrow> (http_header \<times> int) option" where
  "httpHeaderDelById hdr i =
     (if i = HDR_OTHER then None
      else if i \<notin> hmask hdr then Some (hdr, 0)
      else
        (case del_by_id_loop hdr i 0 0 of
           None \<Rightarrow> None
         | Some (hdr, count) \<Rightarrow>
             (if count \<noteq> 0 then Some (hdr\<lparr>hmask := hmask hdr - {i}\<rparr>, count) else None)))"

function del_by_name_loop :: "http_header \<Rightarrow> string \<Rightarrow> nat \<Rightarrow> int \<Rightarrow> (http_header \<times> int) option" where
  "del_by_name_loop hdr name pos count =
     (case httpHeaderGetEntry hdr pos of
        None \<Rightarrow> Some (hdr, count)
      | Some (q, e) \<Rightarrow>
          (if strcasecmp0 (ename e) name then
             (case httpHeaderDelAt hdr (q - 1) of
                None \<Rightarrow> None
              | Some hdr' \<Rightarrow> del_by_name_loop hdr' name q (count + 1))
           else del_by_name_loop (hdr\<lparr>hmask := insert (eid e) (hmask hdr)\<rparr>) name q count))"
  by pat_completeness auto
termination
  by (relation "measure (\<lambda>(hdr, i, pos, count). length (entries hdr) - pos)")
     (auto simp: httpHeaderGetEntry_def dest!: get_entry_bounds)

definition httpHeaderDelByName :: "http_header \<Rightarrow> string \<Rightarrow> (http_header \<times> int) option" where
  "httpHeaderDelByName hdr name = del_by_name_loop (hdr\<lparr>hmask := {}\<rparr>) name 0 0"

declare del_by_id_loop.simps [simp del] del_by_name_loop.simps [simp del]

definition httpHeaderAddEntry :: "http_header \<Rightarrow> http_entry \<Rightarrow> http_header" where
  "httpHeaderAddEntry hdr e =
     hdr\<lparr>hmask := insert (eid e) (hmask hdr), entries := entries hdr @ [Some e], hlen := hlen hdr + entry_len e\<rparr>"

definition httpHeaderInsertEntry :: "http_header \<Rightarrow> http_entry \<Rightarrow> nat \<Rightarrow> http_header" where
  "httpHeaderInsertEntry hdr e pos =
     (let p = (if pos > length (entries hdr) then length (entries hdr) else pos) in
      hdr\<lparr>hmask := insert (eid e) (hmask hdr),
          entries := take p (entries hdr) @ Some e # drop p (entries hdr), hlen := hlen hdr + entry_len e\<rparr>)"

section \<open>Searching\<close>

text \<open>
  The loops that only read walk over the entries from an index on. A result \<open>None\<close> of a search is a
  failed assertion, \<open>Some None\<close> the NULL pointer.
\<close>

function find_loop :: "http_entry option list \<Rightarrow> http_hdr_type \<Rightarrow> nat \<Rightarrow> http_entry option" where
  "find_loop es i pos =
     (case get_entry es pos of
        None \<Rightarrow> None
      | Some (q, e) \<Rightarrow> (if eid e = i then Some e else find_loop es i q))"
  by pat_completeness auto
termination
  by (relation "measure (\<lambda>(es, i, pos). length es - pos)") (auto dest!: get_entry_bounds)

definition httpHeaderFindEntry :: "http_header \<Rightarrow> http_hdr_type \<Rightarrow> http_entry option option" where
  "httpHeaderFindEntry hdr i =
     (if i \<in> ListHeadersMask then None
      else if i \<notin> hmask hdr then Some None
      else (case find_loop (entries hdr) i 0 of None \<Rightarrow> None | Some e \<Rightarrow> Some (Some e)))"

function find_last_loop :: "http_entry option list \<Rightarrow> http_hdr_type \<Rightarrow> nat \<Rightarrow> http_entry option \<Rightarrow> http_entry option" where
  "find_last_loop es i pos result =
     (case get_entry es pos of
        None \<Rightarrow> result
      | Some (q, e) \<Rightarrow> find_last_loop es i q (if eid e = i then Some e else result))"
  by pat_completeness auto
termination
  by (relation "measure (\<lambda>(es, i, pos, r). length es - pos)") (auto dest!: get_entry_bounds)

definition httpHeaderFindLastEntry :: "http_header \<Rightarrow> http_hdr_type \<Rightarrow> http_entry option option" where
  "httpHeaderFindLastEntry hdr i =
     (if i \<in> ListHeadersMask then None
      else if i \<notin> hmask hdr then Some None
      else (case find_last_loop (entries hdr) i 0 None of None \<Rightarrow> None | Some e \<Rightarrow> Some (Some e)))"

definition httpHeaderHas :: "http_header \<Rightarrow> http_hdr_type \<Rightarrow> bool" where
  "httpHeaderHas hdr i \<longleftrightarrow> i \<in> hmask hdr"

definition strListAdd :: "string \<Rightarrow> string \<Rightarrow> char \<Rightarrow> string" where
  "strListAdd str item del = (if length str \<noteq> 0 then str @ [del, CHR '' ''] else str) @ item"

function list_loop :: "http_entry option list \<Rightarrow> http_hdr_type \<Rightarrow> nat \<Rightarrow> string \<Rightarrow> string" where
  "list_loop es i pos s =
     (case get_entry es pos of
        None \<Rightarrow> s
      | Some (q, e) \<Rightarrow> list_loop es i q (if eid e = i then strListAdd s (evalue e) (CHR '','') else s))"
  by pat_completeness auto
termination
  by (relation "measure (\<lambda>(es, i, pos, r). length es - pos)") (auto dest!: get_entry_bounds)

definition httpHeaderGetList :: "http_header \<Rightarrow> http_hdr_type \<Rightarrow> string option" where
  "httpHeaderGetList hdr i =
     (if i \<notin> ListHeadersMask then None
      else if i \<notin> hmask hdr then Some []
      else Some (list_loop (entries hdr) i 0 []))"

definition httpHeaderGetStrOrList :: "http_header \<Rightarrow> http_hdr_type \<Rightarrow> string option option" where
  \<comment> \<open>the inner option is \<open>StringNull\<close>\<close>
  "httpHeaderGetStrOrList hdr i =
     (if i \<in> ListHeadersMask then map_option Some (httpHeaderGetList hdr i)
      else map_option (map_option evalue) (httpHeaderFindEntry hdr i))"

function other_loop :: "http_entry option list \<Rightarrow> string \<Rightarrow> nat \<Rightarrow> string option \<Rightarrow> string option" where
  "other_loop es name pos result =
     (case get_entry es pos of
        None \<Rightarrow> result
      | Some (q, e) \<Rightarrow>
          other_loop es name q
            (if eid e = HDR_OTHER \<and> strcasecmp0 (ename e) name
             then Some (strListAdd (case result of None \<Rightarrow> [] | Some r \<Rightarrow> r) (evalue e) (CHR '','')) else result))"
  by pat_completeness auto
termination
  by (relation "measure (\<lambda>(es, i, pos, r). length es - pos)") (auto dest!: get_entry_bounds)

definition httpHeaderGetByName :: "http_header \<Rightarrow> string \<Rightarrow> string option option" where
  "httpHeaderGetByName hdr name =
     (case httpHeaderIdByName name of
        Some i \<Rightarrow> httpHeaderGetStrOrList hdr i
      | None \<Rightarrow> Some (other_loop (entries hdr) name 0 None))"

declare find_loop.simps [simp del] find_last_loop.simps [simp del] list_loop.simps [simp del] other_loop.simps [simp del]

section \<open>Lists of items\<close>

text \<open>
  \<open>strListGetItem\<close>: how far the scan for the delimiter goes, with quoted strings and backslash escapes
  in them; and the iteration, whose position is \<open>None\<close> before the first item and otherwise the rest of
  the string from the delimiter found on. An empty item ends the iteration.
\<close>

fun list_scan :: "char \<Rightarrow> bool \<Rightarrow> string \<Rightarrow> nat" where
  "list_scan del quoted [] = 0"
| "list_scan del quoted (c # s) =
     (if \<not> quoted \<and> c = del then 0
      else if c = CHR 0x22 then 1 + list_scan del (\<not> quoted) s
      else if quoted \<and> c = CHR 0x5C then (case s of [] \<Rightarrow> 1 | d # s' \<Rightarrow> 2 + list_scan del quoted s')
      else 1 + list_scan del quoted s)"

definition rtrim_ws :: "string \<Rightarrow> string" where
  "rtrim_ws s = rev (dropWhile isspace (rev s))"

definition strListGetItem :: "string \<Rightarrow> char \<Rightarrow> string option \<Rightarrow> (string \<times> string) option" where
  "strListGetItem str del pos =
     (case (case pos of None \<Rightarrow> Some str | Some [] \<Rightarrow> None | Some (c # s) \<Rightarrow> Some s) of
        None \<Rightarrow> None
      | Some s \<Rightarrow>
          (let s = dropWhile isspace s; k = list_scan del False s; item = rtrim_ws (take k s)
           in if item \<noteq> [] then Some (item, drop k s) else None))"

definition pos_len :: "string \<Rightarrow> string option \<Rightarrow> nat" where
  "pos_len str pos = (case pos of None \<Rightarrow> length str + 1 | Some s \<Rightarrow> length s)"

lemma pos_len_Some [simp]: "pos_len str (Some s) = length s"
  by (simp add: pos_len_def)

lemma strListGetItem_progress:
  assumes "strListGetItem str del pos = Some (item, rest)" shows "length rest < pos_len str pos"
proof -
  define start where "start = (case pos of None \<Rightarrow> Some str | Some [] \<Rightarrow> None | Some (c # s) \<Rightarrow> Some s)"
  have *: "strListGetItem str del pos =
     (case start of
        None \<Rightarrow> None
      | Some s \<Rightarrow>
          (let s = dropWhile isspace s; k = list_scan del False s; item = rtrim_ws (take k s)
           in if item \<noteq> [] then Some (item, drop k s) else None))"
    unfolding strListGetItem_def start_def ..
  from assms obtain s where s: "start = Some s"
    and r: "rest = drop (list_scan del False (dropWhile isspace s)) (dropWhile isspace s)"
    unfolding * by (cases start) (auto simp: Let_def split: if_splits)
  have "length rest \<le> length (dropWhile isspace s)" by (simp add: r)
  also have "\<dots> \<le> length s" by (rule length_dropWhile_le)
  also have "length s < pos_len str pos"
    using s unfolding start_def pos_len_def by (cases pos) (auto split: list.splits)
  finally show ?thesis .
qed

function is_member_loop :: "string \<Rightarrow> string \<Rightarrow> char \<Rightarrow> string option \<Rightarrow> bool" where
  "is_member_loop str m del pos =
     (case strListGetItem str del pos of
        None \<Rightarrow> False
      | Some (item, rest) \<Rightarrow>
          (if length m = length item \<and> strcasecmp0 item m then True else is_member_loop str m del (Some rest)))"
  by pat_completeness auto
termination
  by (relation "measure (\<lambda>(str, m, del, pos). pos_len str pos)")
     (auto dest!: strListGetItem_progress)

declare is_member_loop.simps [simp del]

definition strListIsMember :: "string \<Rightarrow> string \<Rightarrow> char \<Rightarrow> bool" where
  "strListIsMember str m del = is_member_loop str m del None"

definition httpHeaderHasConnDir :: "http_header \<Rightarrow> string \<Rightarrow> bool option" where
  "httpHeaderHasConnDir hdr directive =
     (if httpHeaderHas hdr HDR_PROXY_CONNECTION then
        map_option (\<lambda>l. strListIsMember l directive (CHR '','')) (httpHeaderGetList hdr HDR_PROXY_CONNECTION)
      else if httpHeaderHas hdr HDR_CONNECTION then
        map_option (\<lambda>l. strListIsMember l directive (CHR '','')) (httpHeaderGetList hdr HDR_CONNECTION)
      else Some False)"

function member_loop :: "string \<Rightarrow> string \<Rightarrow> char \<Rightarrow> string option \<Rightarrow> string option" where
  "member_loop header m separator pos =
     (case strListGetItem header separator pos of
        None \<Rightarrow> None
      | Some (item, rest) \<Rightarrow>
          (if take (length m) item = m \<and> length m < length item \<and> item ! length m = CHR ''=''
           then Some (drop (length m + 1) item)
           else member_loop header m separator (Some rest)))"
  by pat_completeness auto
termination
  by (relation "measure (\<lambda>(str, m, del, pos). pos_len str pos)")
     (auto dest!: strListGetItem_progress)

declare member_loop.simps [simp del]

definition httpHeaderGetListMember :: "http_header \<Rightarrow> http_hdr_type \<Rightarrow> string \<Rightarrow> char \<Rightarrow> string option option" where
  "httpHeaderGetListMember hdr i m separator =
     map_option (\<lambda>h. case h of None \<Rightarrow> None | Some header \<Rightarrow> member_loop header m separator None)
       (httpHeaderGetStrOrList hdr i)"

definition httpHeaderGetByNameListMember :: "http_header \<Rightarrow> string \<Rightarrow> string \<Rightarrow> char \<Rightarrow> string option option" where
  "httpHeaderGetByNameListMember hdr name m separator =
     map_option (\<lambda>h. case h of None \<Rightarrow> None | Some header \<Rightarrow> member_loop header m separator None)
       (httpHeaderGetByName hdr name)"

section \<open>Copying and packing\<close>

function append_loop :: "http_header \<Rightarrow> http_entry option list \<Rightarrow> nat \<Rightarrow> http_header" where
  "append_loop dest es pos =
     (case get_entry es pos of
        None \<Rightarrow> dest
      | Some (q, e) \<Rightarrow> append_loop (httpHeaderAddEntry dest (httpHeaderEntryClone e)) es q)"
  by pat_completeness auto
termination
  by (relation "measure (\<lambda>(d, es, pos). length es - pos)") (auto dest!: get_entry_bounds)

definition httpHeaderAppend :: "http_header \<Rightarrow> http_header \<Rightarrow> http_header" where
  "httpHeaderAppend dest src = append_loop dest (entries src) 0"

function update_loop :: "http_header \<Rightarrow> http_entry option list \<Rightarrow> http_hdr_type set option \<Rightarrow> nat \<Rightarrow> http_header option" where
  "update_loop old es denied_mask pos =
     (case get_entry es pos of
        None \<Rightarrow> Some old
      | Some (q, e) \<Rightarrow>
          (if (case denied_mask of None \<Rightarrow> False | Some m \<Rightarrow> eid e \<in> m) then update_loop old es denied_mask q
           else
             (case httpHeaderDelByName old (ename e) of
                None \<Rightarrow> None
              | Some (old, n) \<Rightarrow> update_loop (httpHeaderAddEntry old (httpHeaderEntryClone e)) es denied_mask q)))"
  by pat_completeness auto
termination
  by (relation "measure (\<lambda>(d, es, m, pos). length es - pos)") (auto dest!: get_entry_bounds)

definition httpHeaderUpdate :: "http_header \<Rightarrow> http_header \<Rightarrow> http_hdr_type set option \<Rightarrow> http_header option" where
  "httpHeaderUpdate old fresh denied_mask = update_loop old (entries fresh) denied_mask 0"

definition httpHeaderEntryPackInto :: "http_entry \<Rightarrow> string" where
  "httpHeaderEntryPackInto e = ename e @ '': '' @ evalue e @ [CHR 0x0D, CHR 0x0A]"

function pack_loop :: "http_entry option list \<Rightarrow> nat \<Rightarrow> string \<Rightarrow> string" where
  "pack_loop es pos p =
     (case get_entry es pos of
        None \<Rightarrow> p
      | Some (q, e) \<Rightarrow> pack_loop es q (p @ httpHeaderEntryPackInto e))"
  by pat_completeness auto
termination
  by (relation "measure (\<lambda>(es, pos, p). length es - pos)") (auto dest!: get_entry_bounds)

definition httpHeaderPackInto :: "http_header \<Rightarrow> string \<Rightarrow> string" where
  "httpHeaderPackInto hdr p = pack_loop (entries hdr) 0 p"

definition httpHeaderPutStr :: "http_header \<Rightarrow> http_hdr_type \<Rightarrow> string \<Rightarrow> http_header" where
  "httpHeaderPutStr hdr i str = httpHeaderAddEntry hdr (httpHeaderEntryCreate i [] str)"

definition httpHeaderPutExt :: "http_header \<Rightarrow> string \<Rightarrow> string \<Rightarrow> http_header" where
  "httpHeaderPutExt hdr name val = httpHeaderAddEntry hdr (httpHeaderEntryCreate HDR_OTHER name val)"

definition httpHeaderPutAuth :: "http_header \<Rightarrow> string \<Rightarrow> string \<Rightarrow> http_header" where
  "httpHeaderPutAuth hdr auth_scheme realm =
     httpHeaderPutStr hdr HDR_WWW_AUTHENTICATE (auth_scheme @ '' realm='' @ [CHR 0x22] @ realm @ [CHR 0x22])"

declare append_loop.simps [simp del] update_loop.simps [simp del] pack_loop.simps [simp del]

section \<open>The live entries and the invariant\<close>

fun somes :: "'a option list \<Rightarrow> 'a list" where
  "somes [] = []"
| "somes (None # es) = somes es"
| "somes (Some e # es) = e # somes es"

definition kill :: "('a \<Rightarrow> bool) \<Rightarrow> 'a option list \<Rightarrow> 'a option list" where
  "kill P es = map (\<lambda>x. case x of None \<Rightarrow> None | Some e \<Rightarrow> if P e then None else Some e) es"

definition fields :: "http_header \<Rightarrow> http_entry list" where
  "fields hdr = somes (entries hdr)"

definition hdr_ok :: "http_header \<Rightarrow> bool" where
  "hdr_ok hdr \<longleftrightarrow> hmask hdr = eid ` set (fields hdr) \<and> hlen hdr = sum_list (map entry_len (fields hdr))"

lemma somes_append [simp]: "somes (xs @ ys) = somes xs @ somes ys"
  by (induction xs rule: somes.induct) auto

lemma somes_replicate [simp]: "somes (replicate n None) = []"
  by (induction n) auto

lemma kill_simps [simp]:
  "kill P [] = []" "kill P (None # es) = None # kill P es"
  "kill P (Some e # es) = (if P e then None else Some e) # kill P es"
  "kill P (xs @ ys) = kill P xs @ kill P ys" "kill P (replicate n None) = replicate n None"
  by (simp_all add: kill_def)

lemma somes_kill [simp]: "somes (kill P es) = filter (\<lambda>e. \<not> P e) (somes es)"
  by (induction es rule: somes.induct) auto

lemma entry_len_pos: "0 < entry_len e"
  by (simp add: entry_len_def)

lemma sum_entry_len_nonneg [simp]: "0 \<le> sum_list (map entry_len es)"
  by (induction es) (use entry_len_pos in \<open>auto intro: add_nonneg_nonneg less_imp_le\<close>)

lemma sum_filter_split:
  "sum_list (map entry_len es) = sum_list (map entry_len (filter P es)) + sum_list (map entry_len (filter (\<lambda>e. \<not> P e) es))"
  by (induction es) auto

lemma get_entry_None: "get_entry es pos = None \<longleftrightarrow> somes (drop pos es) = []"
proof (induction es pos rule: get_entry.induct)
  case (1 es pos)
  show ?case
  proof (cases "pos < length es")
    case True
    with 1 show ?thesis
      by (subst get_entry.simps) (auto simp: Cons_nth_drop_Suc [symmetric] split: option.splits)
  qed (subst get_entry.simps, simp)
qed

lemma get_entry_split:
  assumes "get_entry es pos = Some (q, e)"
  obtains k where "es = take pos es @ replicate k None @ Some e # drop q es" "q = pos + k + 1" "pos < length es"
proof -
  have "\<exists>k. drop pos es = replicate k None @ Some e # drop q es \<and> q = pos + k + 1 \<and> pos < length es"
    using assms
  proof (induction es pos rule: get_entry.induct)
    case (1 es pos)
    from "1.prems" have lt: "pos < length es" by (subst (asm) get_entry.simps) (auto split: if_splits)
    show ?case
    proof (cases "es ! pos")
      case None
      with "1.prems" lt have "get_entry es (pos + 1) = Some (q, e)" by (subst (asm) get_entry.simps) simp
      from "1.IH" [OF lt None this] obtain k where "drop (pos + 1) es = replicate k None @ Some e # drop q es" "q = pos + 1 + k + 1"
        by auto
      with None lt show ?thesis by (intro exI [of _ "Suc k"]) (simp add: Cons_nth_drop_Suc [symmetric])
    next
      case (Some x)
      with "1.prems" lt have "x = e \<and> q = pos + 1" by (subst (asm) get_entry.simps) simp
      with Some lt show ?thesis by (intro exI [of _ 0]) (simp add: Cons_nth_drop_Suc [symmetric])
    qed
  qed
  then show ?thesis using that by (metis append_take_drop_id)
qed

lemma get_entry_somes:
  assumes "get_entry es pos = Some (q, e)"
  shows "somes (drop pos es) = e # somes (drop q es)"
proof -
  obtain k where k: "es = take pos es @ replicate k None @ Some e # drop q es" "q = pos + k + 1" "pos < length es"
    by (rule get_entry_split [OF assms])
  then have "drop pos es = replicate k None @ Some e # drop q es"
    by (metis append_eq_conv_conj length_take min.absorb4)
  then show ?thesis by simp
qed

lemma get_entry_cases:
  obtains (at_end) "get_entry es pos = None" "somes (drop pos es) = []"
  | (at_entry) q e where "get_entry es pos = Some (q, e)" "somes (drop pos es) = e # somes (drop q es)"
  using get_entry_None get_entry_somes by (cases "get_entry es pos") fastforce+

text \<open>The loops that read.\<close>

lemma find_loop_eq: "find_loop es i pos = List.find (\<lambda>e. eid e = i) (somes (drop pos es))"
proof (induction es i pos rule: find_loop.induct)
  case (1 es i pos)
  then show ?case
    by (cases rule: get_entry_cases [of es pos]) (auto simp: find_loop.simps [of es])
qed

lemma find_last_loop_eq:
  "find_last_loop es i pos r =
     (case filter (\<lambda>e. eid e = i) (somes (drop pos es)) of [] \<Rightarrow> r | y # ys \<Rightarrow> Some (last (y # ys)))"
proof (induction es i pos r rule: find_last_loop.induct)
  case (1 es i pos r)
  then show ?case
    by (cases rule: get_entry_cases [of es pos]) (auto simp: find_last_loop.simps [of es] split: list.splits)
qed

lemma list_loop_eq:
  "list_loop es i pos s =
     foldl (\<lambda>s e. strListAdd s (evalue e) (CHR '','')) s (filter (\<lambda>e. eid e = i) (somes (drop pos es)))"
proof (induction es i pos s rule: list_loop.induct)
  case (1 es i pos s)
  then show ?case
    by (cases rule: get_entry_cases [of es pos]) (auto simp: list_loop.simps [of es])
qed

lemma pack_loop_eq: "pack_loop es pos p = p @ concat (map httpHeaderEntryPackInto (somes (drop pos es)))"
proof (induction es pos p rule: pack_loop.induct)
  case (1 es pos p)
  then show ?case
    by (cases rule: get_entry_cases [of es pos]) (auto simp: pack_loop.simps [of es])
qed

lemma append_loop_eq:
  "append_loop dest es pos = foldl httpHeaderAddEntry dest (map httpHeaderEntryClone (somes (drop pos es)))"
proof (induction dest es pos rule: append_loop.induct)
  case (1 dest es pos)
  then show ?case
    by (cases rule: get_entry_cases [of es pos]) (auto simp: append_loop.simps [of _ es])
qed

text \<open>The loops that delete.\<close>

lemma DelAt_eq:
  assumes "entries hdr = A @ Some e # B" and "entry_len e \<le> hlen hdr"
  shows "httpHeaderDelAt hdr (length A) = Some (hdr\<lparr>entries := A @ None # B, hlen := hlen hdr - entry_len e\<rparr>)"
  using assms by (simp add: httpHeaderDelAt_def Let_def nth_append list_update_append)

lemma get_entry_append [simp]:
  "get_entry A (length A) = None"
  "get_entry (A @ Some e # B) (length A) = Some (Suc (length A), e)"
  "get_entry (A @ None # B) (length A) = get_entry (A @ None # B) (Suc (length A))"
  by (subst get_entry.simps; simp)+

lemma del_by_id_loop_eq:
  assumes "entries hdr = A @ B" and "sum_list (map entry_len (filter (\<lambda>e. eid e = i) (somes B))) \<le> hlen hdr"
  shows "del_by_id_loop hdr i (length A) count =
     Some (hdr\<lparr>entries := A @ kill (\<lambda>e. eid e = i) B,
               hlen := hlen hdr - sum_list (map entry_len (filter (\<lambda>e. eid e = i) (somes B)))\<rparr>,
           count + int (length (filter (\<lambda>e. eid e = i) (somes B))))"
  using assms
proof (induction B arbitrary: hdr A count rule: somes.induct)
  case 1
  then show ?case by (subst del_by_id_loop.simps) (simp add: httpHeaderGetEntry_def)
next
  case (2 B)
  have "del_by_id_loop hdr i (length A) count = del_by_id_loop hdr i (length (A @ [None])) count"
    using 2(2) by (subst (1 2) del_by_id_loop.simps) (simp add: httpHeaderGetEntry_def)
  with 2 2(1) [of hdr "A @ [None]"] show ?case by simp
next
  case (3 e B)
  have ge: "httpHeaderGetEntry hdr (length A) = Some (Suc (length A), e)" using 3(2) by (simp add: httpHeaderGetEntry_def)
  show ?case
  proof (cases "eid e = i")
    case True
    let ?h = "hdr\<lparr>entries := A @ None # B, hlen := hlen hdr - entry_len e\<rparr>"
    have le: "entry_len e + sum_list (map entry_len (filter (\<lambda>e. eid e = i) (somes B))) \<le> hlen hdr"
      using 3(3) True by simp
    then have "entry_len e \<le> hlen hdr"
      using sum_entry_len_nonneg [of "filter (\<lambda>e. eid e = i) (somes B)"] by linarith
    with 3(2) have "httpHeaderDelAt hdr (length A) = Some ?h" by (rule DelAt_eq)
    with ge True have "del_by_id_loop hdr i (length A) count = del_by_id_loop ?h i (length (A @ [None])) (count + 1)"
      by (subst del_by_id_loop.simps) simp
    with 3(1) [of ?h "A @ [None]" "count + 1"] True le show ?thesis by simp
  next
    case False
    with ge have "del_by_id_loop hdr i (length A) count = del_by_id_loop hdr i (length (A @ [Some e])) count"
      by (subst del_by_id_loop.simps) simp
    with 3 3(1) [of hdr "A @ [Some e]"] False show ?thesis by simp
  qed
qed

lemma del_by_name_loop_eq:
  assumes "entries hdr = A @ B" and "sum_list (map entry_len (filter (\<lambda>e. strcasecmp0 (ename e) name) (somes B))) \<le> hlen hdr"
  shows "del_by_name_loop hdr name (length A) count =
     Some (hdr\<lparr>entries := A @ kill (\<lambda>e. strcasecmp0 (ename e) name) B,
               hmask := hmask hdr \<union> eid ` set (filter (\<lambda>e. \<not> strcasecmp0 (ename e) name) (somes B)),
               hlen := hlen hdr - sum_list (map entry_len (filter (\<lambda>e. strcasecmp0 (ename e) name) (somes B)))\<rparr>,
           count + int (length (filter (\<lambda>e. strcasecmp0 (ename e) name) (somes B))))"
  using assms
proof (induction B arbitrary: hdr A count rule: somes.induct)
  case 1
  then show ?case by (subst del_by_name_loop.simps) (simp add: httpHeaderGetEntry_def)
next
  case (2 B)
  have "del_by_name_loop hdr name (length A) count = del_by_name_loop hdr name (length (A @ [None])) count"
    using 2(2) by (subst (1 2) del_by_name_loop.simps) (simp add: httpHeaderGetEntry_def)
  with 2 2(1) [of hdr "A @ [None]"] show ?case by simp
next
  case (3 e B)
  have ge: "httpHeaderGetEntry hdr (length A) = Some (Suc (length A), e)" using 3(2) by (simp add: httpHeaderGetEntry_def)
  show ?case
  proof (cases "strcasecmp0 (ename e) name")
    case True
    let ?h = "hdr\<lparr>entries := A @ None # B, hlen := hlen hdr - entry_len e\<rparr>"
    have le: "entry_len e + sum_list (map entry_len (filter (\<lambda>e. strcasecmp0 (ename e) name) (somes B))) \<le> hlen hdr"
      using 3(3) True by simp
    then have "entry_len e \<le> hlen hdr"
      using sum_entry_len_nonneg [of "filter (\<lambda>e. strcasecmp0 (ename e) name) (somes B)"] by linarith
    with 3(2) have "httpHeaderDelAt hdr (length A) = Some ?h" by (rule DelAt_eq)
    with ge True have "del_by_name_loop hdr name (length A) count = del_by_name_loop ?h name (length (A @ [None])) (count + 1)"
      by (subst del_by_name_loop.simps) simp
    with 3(1) [of ?h "A @ [None]" "count + 1"] True le show ?thesis by simp
  next
    case False
    let ?h = "hdr\<lparr>hmask := insert (eid e) (hmask hdr)\<rparr>"
    from False ge have "del_by_name_loop hdr name (length A) count = del_by_name_loop ?h name (length (A @ [Some e])) count"
      by (subst del_by_name_loop.simps) simp
    with 3 3(1) [of ?h "A @ [Some e]"] False show ?thesis by (simp add: insert_commute Un_assoc)
  qed
qed

lemma DelById_ok:
  assumes "hdr_ok hdr" and "i \<noteq> HDR_OTHER"
  shows "\<exists>hdr'. httpHeaderDelById hdr i = Some (hdr', int (length (filter (\<lambda>e. eid e = i) (fields hdr))))
           \<and> hdr_ok hdr' \<and> fields hdr' = filter (\<lambda>e. eid e \<noteq> i) (fields hdr)"
proof (cases "i \<in> hmask hdr")
  case False
  with assms have "filter (\<lambda>e. eid e = i) (fields hdr) = []" "filter (\<lambda>e. eid e \<noteq> i) (fields hdr) = fields hdr"
    by (auto simp: hdr_ok_def filter_empty_conv filter_id_conv)
  with False assms show ?thesis by (simp add: httpHeaderDelById_def)
next
  case True
  let ?P = "\<lambda>e. eid e = i"
  from True assms have ne: "filter ?P (fields hdr) \<noteq> []" by (auto simp: hdr_ok_def filter_empty_conv)
  have len: "hlen hdr = sum_list (map entry_len (filter ?P (fields hdr))) + sum_list (map entry_len (filter (\<lambda>e. \<not> ?P e) (fields hdr)))"
    using assms sum_filter_split by (simp add: hdr_ok_def)
  then have "sum_list (map entry_len (filter ?P (somes (entries hdr)))) \<le> hlen hdr"
    using sum_entry_len_nonneg by (simp add: fields_def)
  from del_by_id_loop_eq [of hdr "[]" "entries hdr" i 0, OF _ this] ne True assms len
  show ?thesis by (auto simp: httpHeaderDelById_def hdr_ok_def fields_def)
qed

lemma DelByName_ok:
  assumes "hdr_ok hdr"
  shows "\<exists>hdr'. httpHeaderDelByName hdr name = Some (hdr', int (length (filter (\<lambda>e. strcasecmp0 (ename e) name) (fields hdr))))
           \<and> hdr_ok hdr' \<and> fields hdr' = filter (\<lambda>e. \<not> strcasecmp0 (ename e) name) (fields hdr)"
proof -
  let ?P = "\<lambda>e. strcasecmp0 (ename e) name"
  have len: "hlen hdr = sum_list (map entry_len (filter ?P (fields hdr))) + sum_list (map entry_len (filter (\<lambda>e. \<not> ?P e) (fields hdr)))"
    using assms sum_filter_split by (simp add: hdr_ok_def)
  then have "sum_list (map entry_len (filter ?P (somes (entries hdr)))) \<le> hlen (hdr\<lparr>hmask := {}\<rparr>)"
    using sum_entry_len_nonneg by (simp add: fields_def)
  from del_by_name_loop_eq [of "hdr\<lparr>hmask := {}\<rparr>" "[]" "entries hdr" name 0, OF _ this] len
  show ?thesis by (simp add: httpHeaderDelByName_def hdr_ok_def fields_def)
qed

lemma AddEntry_ok:
  "hdr_ok hdr \<Longrightarrow> hdr_ok (httpHeaderAddEntry hdr e) \<and> fields (httpHeaderAddEntry hdr e) = fields hdr @ [e]"
  by (auto simp: hdr_ok_def httpHeaderAddEntry_def fields_def)

lemma InsertEntry_ok: "hdr_ok hdr \<Longrightarrow> hdr_ok (httpHeaderInsertEntry hdr e pos)"
proof -
  assume ok: "hdr_ok hdr"
  define p where "p = (if pos > length (entries hdr) then length (entries hdr) else pos)"
  have "fields hdr = somes (take p (entries hdr)) @ somes (drop p (entries hdr))"
    unfolding fields_def by (metis append_take_drop_id somes_append)
  moreover have "httpHeaderInsertEntry hdr e pos =
      hdr\<lparr>hmask := insert (eid e) (hmask hdr),
          entries := take p (entries hdr) @ Some e # drop p (entries hdr), hlen := hlen hdr + entry_len e\<rparr>"
    by (simp add: httpHeaderInsertEntry_def p_def Let_def)
  ultimately show ?thesis using ok by (auto simp: hdr_ok_def fields_def)
qed

lemma FindEntry_ok:
  assumes "hdr_ok hdr" and "i \<notin> ListHeadersMask"
  shows "httpHeaderFindEntry hdr i = Some (List.find (\<lambda>e. eid e = i) (fields hdr))"
proof -
  have "List.find (\<lambda>e. eid e = i) (fields hdr) = None" if "i \<notin> hmask hdr"
    using that assms(1) by (auto simp: hdr_ok_def find_None_iff)
  moreover have "\<exists>e. List.find (\<lambda>e. eid e = i) (fields hdr) = Some e" if "i \<in> hmask hdr"
    using that assms(1) by (cases "List.find (\<lambda>e. eid e = i) (fields hdr)") (auto simp: hdr_ok_def find_None_iff)
  ultimately show ?thesis using assms(2)
    by (cases "i \<in> hmask hdr") (auto simp: httpHeaderFindEntry_def find_loop_eq fields_def)
qed

lemma PackInto_eq: "httpHeaderPackInto hdr p = p @ concat (map httpHeaderEntryPackInto (fields hdr))"
  by (simp add: httpHeaderPackInto_def pack_loop_eq fields_def)

lemma hdr_ok_Init [simp]: "hdr_ok httpHeaderInit" "fields httpHeaderInit = []"
  by (simp_all add: hdr_ok_def httpHeaderInit_def fields_def)

lemma foldl_AddEntry_ok:
  "hdr_ok hdr \<Longrightarrow> hdr_ok (foldl httpHeaderAddEntry hdr es) \<and> fields (foldl httpHeaderAddEntry hdr es) = fields hdr @ es"
  by (induction es arbitrary: hdr) (use AddEntry_ok in fastforce)+

lemma Append_ok:
  "hdr_ok dest \<Longrightarrow> hdr_ok (httpHeaderAppend dest src) \<and>
   fields (httpHeaderAppend dest src) = fields dest @ map httpHeaderEntryClone (fields src)"
  by (simp add: httpHeaderAppend_def append_loop_eq foldl_AddEntry_ok fields_def [of src])

definition update_field :: "http_hdr_type set option \<Rightarrow> http_entry list \<Rightarrow> http_entry \<Rightarrow> http_entry list" where
  "update_field m fs e =
     (if (case m of None \<Rightarrow> False | Some m \<Rightarrow> eid e \<in> m) then fs
      else filter (\<lambda>f. \<not> strcasecmp0 (ename f) (ename e)) fs @ [httpHeaderEntryClone e])"

lemma update_loop_ok:
  "hdr_ok old \<Longrightarrow>
   \<exists>hdr. update_loop old es m pos = Some hdr \<and> hdr_ok hdr
         \<and> fields hdr = foldl (update_field m) (fields old) (somes (drop pos es))"
proof (induction old es m pos rule: update_loop.induct)
  case (1 old es m pos)
  show ?case
  proof (cases rule: get_entry_cases [of es pos])
    case at_end
    with 1 show ?thesis by (simp add: update_loop.simps [of old es])
  next
    case (at_entry q e)
    show ?thesis
    proof (cases "case m of None \<Rightarrow> False | Some m \<Rightarrow> eid e \<in> m")
      case True
      with 1(1) [OF at_entry(1) refl True "1.prems"] at_entry show ?thesis
        by (simp add: update_loop.simps [of old es] update_field_def)
    next
      case False
      from DelByName_ok [OF "1.prems", of "ename e"] obtain o' n where
        d: "httpHeaderDelByName old (ename e) = Some (o', n)" "hdr_ok o'"
        "fields o' = filter (\<lambda>f. \<not> strcasecmp0 (ename f) (ename e)) (fields old)" by blast
      note a = AddEntry_ok [OF d(2), of "httpHeaderEntryClone e"]
      from 1(2) [OF at_entry(1) refl False d(1) refl] a d at_entry False show ?thesis
        by (simp add: update_loop.simps [of old es] update_field_def)
    qed
  qed
qed

lemma Update_ok:
  "hdr_ok old \<Longrightarrow>
   \<exists>hdr. httpHeaderUpdate old fresh m = Some hdr \<and> hdr_ok hdr
         \<and> fields hdr = foldl (update_field m) (fields old) (fields fresh)"
  using update_loop_ok [of old "entries fresh" m 0] by (simp add: httpHeaderUpdate_def fields_def [of fresh])

lemma GetList_ok:
  assumes "hdr_ok hdr" and "i \<in> ListHeadersMask"
  shows "httpHeaderGetList hdr i =
    Some (foldl (\<lambda>s e. strListAdd s (evalue e) (CHR '','')) [] (filter (\<lambda>e. eid e = i) (fields hdr)))"
proof -
  have "filter (\<lambda>e. eid e = i) (fields hdr) = []" if "i \<notin> hmask hdr"
    using that assms(1) by (auto simp: hdr_ok_def filter_empty_conv)
  with assms show ?thesis by (auto simp: httpHeaderGetList_def list_loop_eq fields_def)
qed

section \<open>Properties\<close>

definition known_types :: "http_hdr_type list" where
  "known_types = map (\<lambda>(n, i, t). i) HeadersAttrs"

lemma known_types_all: "set known_types = UNIV"
proof -
  have "i \<in> set known_types" for i by (cases i) (simp_all add: known_types_def HeadersAttrs_def)
  then show ?thesis by auto
qed

lemma header_names_distinct: "distinct (map (\<lambda>(n, i, t). map tolower n) HeadersAttrs)"
  by (simp add: HeadersAttrs_def tolower_def ord_def)

lemma header_types_distinct: "distinct (map (\<lambda>(n, i, t). i) HeadersAttrs)"
  by (simp add: HeadersAttrs_def)

lemma id_by_name_loop_Some: "id_by_name_loop name as = Some i \<Longrightarrow> \<exists>n t. (n, i, t) \<in> set as \<and> strcasecmp0 name n"
proof (induction name as rule: id_by_name_loop.induct)
  case (2 name n j t info)
  then show ?case by (cases "length name \<noteq> length n \<or> \<not> strcasecmp0 name n") (auto split: if_splits)
qed simp

lemma id_by_name_loop_cong: "strcasecmp0 a b \<Longrightarrow> id_by_name_loop a as = id_by_name_loop b as"
  using strcasecmp0_length [of a b] by (induction as) (auto simp: strcasecmp0_def)

lemma id_by_name_loop_mem:
  "distinct (map (\<lambda>(n, i, t). map tolower n) as) \<Longrightarrow> (n, i, t) \<in> set as \<Longrightarrow> id_by_name_loop n as = Some i"
proof (induction n as rule: id_by_name_loop.induct)
  case (2 name n j t' info)
  then show ?case by (force simp: strcasecmp0_def split: if_splits)
qed simp

lemma header_table_map: "\<forall>(n, i, t) \<in> set HeadersAttrs. hdr_name i = n"
proof clarify
  fix n i t assume m: "(n, i, t) \<in> set HeadersAttrs"
  have "map fst (map (\<lambda>(n, i, t). (i, n)) xs) = map (\<lambda>(n, i, t). i) xs" for xs :: "(string \<times> http_hdr_type \<times> field_type) list"
    by (induction xs) auto
  then have "distinct (map fst (map (\<lambda>(n, i, t). (i, n)) HeadersAttrs))"
    using header_types_distinct by (simp only:)
  then have "map_of (map (\<lambda>(n, i, t). (i, n)) HeadersAttrs) i = Some n"
    by (rule map_of_is_SomeI) (use m in force)
  then show "hdr_name i = n" by (simp add: hdr_name_def)
qed

lemma IdByName_hdr_name [simp]: "httpHeaderIdByName (hdr_name i) = Some i"
proof -
  have "i \<in> set known_types" by (simp add: known_types_all)
  then obtain n t where m: "(n, i, t) \<in> set HeadersAttrs" by (auto simp: known_types_def)
  with header_table_map have "hdr_name i = n" by fastforce
  with id_by_name_loop_mem [OF header_names_distinct m] show ?thesis by (simp add: httpHeaderIdByName_def)
qed

lemma IdByName_Some: "httpHeaderIdByName name = Some i \<Longrightarrow> strcasecmp0 name (hdr_name i)"
  using header_table_map by (auto simp: httpHeaderIdByName_def dest!: id_by_name_loop_Some)

text \<open>
  The table of known header fields: every field type is described exactly once, so that the table
  and the masks can be built without a failed assertion, and looking up a field type's name, in any
  letter case, gives that field type and nothing else does.
\<close>

theorem header_table_correct:
  "httpHeaderBuildFieldsInfo HeadersAttrs \<noteq> None \<and> httpHeaderCalcMask {} ListHeadersArr = Some ListHeadersMask
   \<and> (httpHeaderIdByName name = Some i \<longleftrightarrow> strcasecmp0 name (hdr_name i))"
proof -
  have "strcasecmp0 name (hdr_name i) \<Longrightarrow> httpHeaderIdByName name = httpHeaderIdByName (hdr_name i)"
    unfolding httpHeaderIdByName_def by (rule id_by_name_loop_cong)
  moreover have "httpHeaderBuildFieldsInfo HeadersAttrs \<noteq> None" by code_simp
  moreover have "httpHeaderCalcMask {} ListHeadersArr = Some ListHeadersMask" by code_simp
  ultimately show ?thesis using IdByName_Some by auto
qed

text \<open>
  C18. On a consistent header (the mask is the set of the field types present, the length is that of the
  packed form), the operations never fail an assertion, leave a consistent header, and do what they say
  to the list of fields: adding, deleting all fields of a type or of a name with the number deleted,
  appending and updating; finding returns the first field of a type.
\<close>

theorem header_operations_correct:
  assumes "hdr_ok hdr"
  shows "(hdr_ok (httpHeaderAddEntry hdr e) \<and> fields (httpHeaderAddEntry hdr e) = fields hdr @ [e])
    \<and> (i \<noteq> HDR_OTHER \<longrightarrow> (\<exists>h. httpHeaderDelById hdr i = Some (h, int (length (filter (\<lambda>e. eid e = i) (fields hdr))))
           \<and> hdr_ok h \<and> fields h = filter (\<lambda>e. eid e \<noteq> i) (fields hdr)))
    \<and> (\<exists>h. httpHeaderDelByName hdr name = Some (h, int (length (filter (\<lambda>e. strcasecmp0 (ename e) name) (fields hdr))))
           \<and> hdr_ok h \<and> fields h = filter (\<lambda>e. \<not> strcasecmp0 (ename e) name) (fields hdr))
    \<and> (hdr_ok (httpHeaderAppend hdr src) \<and> fields (httpHeaderAppend hdr src) = fields hdr @ map httpHeaderEntryClone (fields src))
    \<and> (\<exists>h. httpHeaderUpdate hdr src m = Some h \<and> hdr_ok h \<and> fields h = foldl (update_field m) (fields hdr) (fields src))
    \<and> (i \<notin> ListHeadersMask \<longrightarrow> httpHeaderFindEntry hdr i = Some (List.find (\<lambda>e. eid e = i) (fields hdr)))
    \<and> hlen hdr = int (length (httpHeaderPackInto hdr []))"
proof -
  have "hlen hdr = int (length (httpHeaderPackInto hdr []))"
  proof -
    have "sum_list (map entry_len es) = int (length (concat (map httpHeaderEntryPackInto es)))" for es
      by (induction es) (auto simp: entry_len_def httpHeaderEntryPackInto_def)
    with assms show ?thesis by (simp add: hdr_ok_def PackInto_eq)
  qed
  then show ?thesis
    by (simp add: assms AddEntry_ok DelById_ok DelByName_ok Append_ok Update_ok FindEntry_ok)
qed

theorem header_operations_correct_witness:
  "\<exists>h. httpHeaderDelById (httpHeaderAddEntry httpHeaderInit (httpHeaderEntryCreate HDR_COOKIE [] ''a=b'')) HDR_COOKIE = Some (h, 1)
     \<and> fields h = []"
proof -
  let ?hdr = "httpHeaderAddEntry httpHeaderInit (httpHeaderEntryCreate HDR_COOKIE [] ''a=b'')"
  have ok: "hdr_ok (httpHeaderAddEntry httpHeaderInit (httpHeaderEntryCreate HDR_COOKIE [] ''a=b''))"
    using AddEntry_ok hdr_ok_Init by blast
  have "fields (httpHeaderAddEntry httpHeaderInit (httpHeaderEntryCreate HDR_COOKIE [] ''a=b''))
          = [httpHeaderEntryCreate HDR_COOKIE [] ''a=b'']" by (simp add: AddEntry_ok)
  moreover have "\<exists>h. httpHeaderDelById ?hdr HDR_COOKIE = Some (h, int (length (filter (\<lambda>e. eid e = HDR_COOKIE) (fields ?hdr))))
      \<and> hdr_ok h \<and> fields h = filter (\<lambda>e. eid e \<noteq> HDR_COOKIE) (fields ?hdr)"
    using header_operations_correct [OF ok, of undefined HDR_COOKIE] by blast
  ultimately show ?thesis by (auto simp: httpHeaderEntryCreate_def)
qed

end
