(* ===== verification/HttpParse.thy ===== *)
theory HttpParse
  imports HttpHeader
begin

text \<open>
  The parser of HTTP message headers (\<^verbatim>\<open>httpHeaderParse\<close> and \<^verbatim>\<open>httpHeaderEntryParseCreate\<close> of
  \<^verbatim>\<open>squid-mybox/src/HttpHeader.c\<close>), with the two numeric field parsers of \<^verbatim>\<open>HttpHeaderTools.c\<close>.

  The text between \<open>header_start\<close> and \<open>header_end\<close> is a string, a pointer into it is the rest of the text
  from there. The configuration option \<open>relaxed_header_parser\<close> and the name of the proxy host are
  arguments. A result \<open>None\<close> is a failed assertion; the theorems show that there is none.
\<close>

definition CR :: char where "CR = CHR 0x0D"
definition LF :: char where "LF = CHR 0x0A"
definition w_space :: string where "w_space = [CHR '' '', CHR 0x09, LF, CR]"

definition stringHasWhitespace :: "string \<Rightarrow> bool" where
  "stringHasWhitespace s \<longleftrightarrow> (\<exists>c \<in> set s. c \<in> set w_space)"

section \<open>Numeric fields\<close>

definition strtoll :: "string \<Rightarrow> int option" where
  \<comment> \<open>\<open>strto_off_t(s, &end, 10)\<close>; \<open>None\<close> when \<open>end == s\<close>\<close>
  "strtoll s =
     (let t = dropWhile isspace s;
          neg = (t \<noteq> [] \<and> hd t = CHR ''-'');
          u = (if t \<noteq> [] \<and> (hd t = CHR ''-'' \<or> hd t = CHR ''+'') then tl t else t);
          ds = takeWhile isdigit u; v = int (digits_val ds)
      in if ds = [] then None
         else Some (max (- (2 ^ 63)) (min (2 ^ 63 - 1) (if neg then - v else v))))"

definition httpHeaderParseSize :: "string \<Rightarrow> bool \<times> int" where
  "httpHeaderParseSize start = (case strtoll start of None \<Rightarrow> (False, 0) | Some v \<Rightarrow> (True, v))"

definition httpHeaderParseInt :: "string \<Rightarrow> bool \<times> int" where
  "httpHeaderParseInt start =
     (let v = atoi start in
      (\<not> (v = 0 \<and> \<not> (case start of [] \<Rightarrow> False | c # s \<Rightarrow> isdigit c)), v))"

section \<open>A field\<close>

text \<open>
  The removal of the NOFILTER hack: the suffix \<open>.<host>.nofilter\<close> of a value, where the host name is
  compared backwards.
\<close>

function nf_loop :: "string \<Rightarrow> string \<Rightarrow> int \<Rightarrow> int \<Rightarrow> int \<times> int" where
  "nf_loop v h k l =
     (if l \<ge> 0 \<and> v ! nat k = tolower (h ! nat l) then nf_loop v h (k - 1) (l - 1) else (k, l))"
  by pat_completeness auto
termination by (relation "measure (\<lambda>(v, h, k, l). nat (l + 1))") auto

declare nf_loop.simps [simp del]

definition strip_nofilter :: "string \<Rightarrow> string \<Rightarrow> string" where
  "strip_nofilter h v =
     (if length v > 9 \<and> strcasecmp0 (drop (length v - 9) v) ''.nofilter'' then
        (let k = int (length v) - 10; l = int (length h) - 1 in
         if k > l then
           (case nf_loop v h k l of
              (k, l) \<Rightarrow> if l = - 1 \<and> v ! nat k = CHR ''.'' then take (nat k) v else v)
         else v)
      else v)"

definition ltrim_ws :: "string \<Rightarrow> string" where
  "ltrim_ws s = dropWhile isspace s"

definition httpHeaderEntryParseCreate :: "bool \<Rightarrow> string \<Rightarrow> string \<Rightarrow> http_entry option" where
  "httpHeaderEntryParseCreate relaxed h field =
     (let name_len = (case strchr field (CHR '':'') of None \<Rightarrow> 0 | Some k \<Rightarrow> k) in
      if name_len = 0 then None
      else if name_len > 65534 then None
      else
        (let name = take name_len field;
             name = (if relaxed \<and> isspace (last name) then rtrim_ws name else name)
         in
         if name = [] then None
         else
           (let i = (case httpHeaderIdByName name of None \<Rightarrow> HDR_OTHER | Some i \<Rightarrow> i);
                val = rtrim_ws (ltrim_ws (drop (name_len + 1) field))
            in
            if length val > 65534 then None
            else Some \<lparr>eid = i, ename = (if i = HDR_OTHER then name else hdr_name i),
                       evalue = strip_nofilter h val\<rparr>)))"

section \<open>The lines of a field\<close>

text \<open>
  One line without its newline: the text that belongs to the field, and the carriage returns removed
  from its end; \<open>None\<close> for a stray carriage return, which the relaxed parser replaces by a space.
\<close>

definition clean_line :: "bool \<Rightarrow> string \<Rightarrow> (string \<times> string) option" where
  "clean_line relaxed line =
     (let l1 = (if line \<noteq> [] \<and> last line = CR then butlast line else line);
          l2 = (if line \<noteq> [] \<and> last line = CR \<and> relaxed \<and> length l1 > 1 \<and> last l1 = CR then butlast l1 else l1)
      in
      if CR \<in> set l2 \<and> \<not> relaxed then None
      else Some (map (\<lambda>c. if c = CR then CHR '' '' else c) l2, drop (length l2) line))"

text \<open>
  The inner loop: one line and its continuation lines. \<open>acc\<close> is the text of the field before this line.
  The results are the field and the rest of the text, or \<open>None\<close> when the parser gives up.
\<close>

function field_lines :: "bool \<Rightarrow> string \<Rightarrow> string \<Rightarrow> (string \<times> string) option" where
  "field_lines relaxed acc rest =
     (case strchr rest LF of
        None \<Rightarrow> None
      | Some k \<Rightarrow>
          (let rest' = drop (k + 1) rest in
           case clean_line relaxed (take k rest) of
             None \<Rightarrow> None
           | Some (l, cr) \<Rightarrow>
               (if length l = 1 \<and> acc \<noteq> [] then None
                else if rest' \<noteq> [] \<and> (hd rest' = CHR '' '' \<or> hd rest' = CHR 0x09) then
                  field_lines relaxed (acc @ l @ cr @ [LF]) rest'
                else Some (acc @ l, rest'))))"
  by pat_completeness auto
termination
  by (relation "measure (\<lambda>(relaxed, acc, rest). length rest)") (auto dest: strchr_Some)

declare field_lines.simps [simp del]

lemma field_lines_progress: "field_lines relaxed acc rest = Some (field, rest') \<Longrightarrow> length rest' < length rest"
proof (induction relaxed acc rest rule: field_lines.induct)
  case (1 relaxed acc rest)
  from "1.prems" obtain k l cr where k: "strchr rest LF = Some k" "clean_line relaxed (take k rest) = Some (l, cr)"
    and nb: "\<not> (length l = 1 \<and> acc \<noteq> [])"
    by (auto simp: field_lines.simps [of relaxed acc rest] Let_def split: option.splits if_splits)
  let ?r = "drop (k + 1) rest"
  have "k < length rest" using strchr_Some [OF k(1)] by simp
  then have lt: "length ?r < length rest" by simp
  show ?case
  proof (cases "?r \<noteq> [] \<and> (hd ?r = CHR '' '' \<or> hd ?r = CHR 0x09)")
    case True
    with "1.prems" k nb have "field_lines relaxed (acc @ l @ cr @ [LF]) ?r = Some (field, rest')"
      by (auto simp: field_lines.simps [of relaxed acc rest] Let_def split: if_splits)
    from "1.IH" [OF k(1) refl k(2) refl nb True this] lt show ?thesis by simp
  next
    case False
    with "1.prems" k nb lt show ?thesis
      by (auto simp: field_lines.simps [of relaxed acc rest] Let_def)
  qed
qed

section \<open>The header\<close>

text \<open>What the duplicate check does with a Content-Length field.\<close>

datatype cl_action = Reject | Drop | Keep http_header

definition cl_check :: "bool \<Rightarrow> http_header \<Rightarrow> http_entry \<Rightarrow> cl_action option" where
  "cl_check relaxed hdr e =
     (case httpHeaderFindEntry hdr (eid e) of
        None \<Rightarrow> None
      | Some None \<Rightarrow> Some (Keep hdr)
      | Some (Some e2) \<Rightarrow>
          (if evalue e \<noteq> evalue e2 then
             (if \<not> relaxed then Some Reject
              else
                (case (httpHeaderParseSize (evalue e), httpHeaderParseSize (evalue e2)) of
                   ((ok1, l1), (ok2, l2)) \<Rightarrow>
                     (if \<not> ok1 then Some Drop
                      else if \<not> ok2 \<or> l1 > l2 then
                        (case httpHeaderDelById hdr (eid e2) of None \<Rightarrow> None | Some (hdr, n) \<Rightarrow> Some (Keep hdr))
                      else Some Drop)))
           else Some (if relaxed then Drop else Reject)))"

function parse_loop :: "bool \<Rightarrow> string \<Rightarrow> http_header \<Rightarrow> string \<Rightarrow> (http_header \<times> bool) option" where
  "parse_loop relaxed h hdr rest =
     (if rest = [] then Some (hdr, True)
      else
        (case field_lines relaxed [] rest of
           None \<Rightarrow> Some (httpHeaderReset hdr, False)
         | Some (field, rest') \<Rightarrow>
             (if field = [] then
                (if rest' \<noteq> [] then Some (httpHeaderReset hdr, False) else Some (hdr, True))
              else
                (case httpHeaderEntryParseCreate relaxed h field of
                   None \<Rightarrow> (if relaxed then parse_loop relaxed h hdr rest' else Some (httpHeaderReset hdr, False))
                 | Some e \<Rightarrow>
                     (case (if eid e = HDR_CONTENT_LENGTH then cl_check relaxed hdr e else Some (Keep hdr)) of
                        None \<Rightarrow> None
                      | Some Reject \<Rightarrow> Some (httpHeaderReset hdr, False)
                      | Some Drop \<Rightarrow> parse_loop relaxed h hdr rest'
                      | Some (Keep hdr) \<Rightarrow>
                          (if eid e = HDR_OTHER \<and> stringHasWhitespace (ename e) \<and> \<not> relaxed
                           then Some (httpHeaderReset hdr, False)
                           else parse_loop relaxed h (httpHeaderAddEntry hdr e) rest'))))))"
  by pat_completeness auto
termination
  by (relation "measure (\<lambda>(relaxed, h, hdr, rest). length rest)") (auto dest: field_lines_progress)

declare parse_loop.simps [simp del]

definition httpHeaderParse :: "bool \<Rightarrow> string \<Rightarrow> http_header \<Rightarrow> string \<Rightarrow> (http_header \<times> bool) option" where
  "httpHeaderParse relaxed h hdr header =
     (if NUL \<in> set header then Some (httpHeaderReset hdr, False) else parse_loop relaxed h hdr header)"

section \<open>Safety of the parser\<close>

lemma header_names_plain_table:
  "\<forall>(n, i, t) \<in> set HeadersAttrs. n \<noteq> [] \<and> length n \<le> 65534
     \<and> (i \<noteq> HDR_OTHER \<longrightarrow> (\<forall>c \<in> set n. c \<notin> {CHR '':'', CR, LF, NUL} \<and> \<not> isspace c))"
  by (simp add: HeadersAttrs_def CR_def LF_def NUL_def isspace_def ord_def)

lemma header_names_plain:
  "hdr_name i \<noteq> []" "length (hdr_name i) \<le> 65534"
  "i \<noteq> HDR_OTHER \<Longrightarrow> c \<in> set (hdr_name i) \<Longrightarrow> c \<notin> {CHR '':'', CR, LF, NUL} \<and> \<not> isspace c"
proof -
  have "i \<in> set known_types" by (simp add: known_types_all)
  then obtain n t where m: "(n, i, t) \<in> set HeadersAttrs" by (auto simp: known_types_def)
  with header_table_map have "hdr_name i = n" by fastforce
  with m header_names_plain_table show "hdr_name i \<noteq> []" "length (hdr_name i) \<le> 65534"
    "i \<noteq> HDR_OTHER \<Longrightarrow> c \<in> set (hdr_name i) \<Longrightarrow> c \<notin> {CHR '':'', CR, LF, NUL} \<and> \<not> isspace c" by fastforce+
qed

lemma CL_not_list: "HDR_CONTENT_LENGTH \<notin> ListHeadersMask"
  by (simp add: ListHeadersMask_def ListHeadersArr_def)

definition count_cl :: "http_header \<Rightarrow> nat" where
  "count_cl hdr = length (filter (\<lambda>e. eid e = HDR_CONTENT_LENGTH) (fields hdr))"

definition field_ok :: "http_entry \<Rightarrow> bool" where
  "field_ok e \<longleftrightarrow> ename e \<noteq> [] \<and> length (ename e) \<le> 65534 \<and> length (evalue e) \<le> 65534
     \<and> (eid e \<noteq> HDR_OTHER \<longrightarrow> ename e = hdr_name (eid e))"

lemma find_hd_filter: "List.find P xs = (case filter P xs of [] \<Rightarrow> None | y # ys \<Rightarrow> Some y)"
  by (induction xs) auto

lemma cl_check_ok:
  assumes "hdr_ok hdr" and "count_cl hdr \<le> 1" and "eid e = HDR_CONTENT_LENGTH"
  obtains "cl_check relaxed hdr e = Some Reject" | "cl_check relaxed hdr e = Some Drop"
  | hdr' where "cl_check relaxed hdr e = Some (Keep hdr')" "hdr_ok hdr'" "count_cl hdr' = 0"
      "set (fields hdr') \<subseteq> set (fields hdr)"
proof (cases "httpHeaderFindEntry hdr HDR_CONTENT_LENGTH")
  case None
  with FindEntry_ok [OF assms(1) CL_not_list] show ?thesis by simp
next
  case (Some r)
  then have r: "r = List.find (\<lambda>e. eid e = HDR_CONTENT_LENGTH) (fields hdr)"
    using FindEntry_ok [OF assms(1) CL_not_list] by simp
  show ?thesis
  proof (cases r)
    case None
    with r have "count_cl hdr = 0" by (simp add: count_cl_def find_hd_filter split: list.splits)
    with None Some assms show ?thesis by (intro that(3) [of hdr]) (simp_all add: cl_check_def)
  next
    case e2: (Some e2)
    with r have id2: "eid e2 = HDR_CONTENT_LENGTH" by (auto simp: find_Some_iff dest: sym)
    from DelById_ok [OF assms(1), of HDR_CONTENT_LENGTH] obtain h n where
      d: "httpHeaderDelById hdr HDR_CONTENT_LENGTH = Some (h, n)" "hdr_ok h"
      "fields h = filter (\<lambda>e. eid e \<noteq> HDR_CONTENT_LENGTH) (fields hdr)" by auto
    have z: "count_cl h = 0" by (simp add: count_cl_def d(3))
    have s: "set (fields h) \<subseteq> set (fields hdr)" by (auto simp: d(3))
    obtain ok1 l1 ok2 l2 where p: "httpHeaderParseSize (evalue e) = (ok1, l1)" "httpHeaderParseSize (evalue e2) = (ok2, l2)"
      by (metis surj_pair)
    have "cl_check relaxed hdr e \<in> {Some Reject, Some Drop, Some (Keep h)}"
      using Some e2 id2 d(1) p by (auto simp: cl_check_def assms(3))
    then show ?thesis using that d(2) z s by blast
  qed
qed

lemma EntryParseCreate_ok:
  assumes "httpHeaderEntryParseCreate relaxed h field = Some e"
  shows "field_ok e" and "CHR '':'' \<notin> set (ename e) \<or> eid e \<noteq> HDR_OTHER"
proof -
  let ?n = "case strchr field (CHR '':'') of None \<Rightarrow> 0 | Some k \<Rightarrow> k"
  let ?name = "if relaxed \<and> isspace (last (take ?n field)) then rtrim_ws (take ?n field) else take ?n field"
  let ?i = "case httpHeaderIdByName ?name of None \<Rightarrow> HDR_OTHER | Some i \<Rightarrow> i"
  let ?v = "rtrim_ws (ltrim_ws (drop (?n + 1) field))"
  from assms have n: "?n \<noteq> 0" "?n \<le> 65534" "?name \<noteq> []" "length ?v \<le> 65534"
    and e: "e = \<lparr>eid = ?i, ename = (if ?i = HDR_OTHER then ?name else hdr_name ?i), evalue = strip_nofilter h ?v\<rparr>"
    by (simp_all only: httpHeaderEntryParseCreate_def Let_def split: if_splits) auto
  have "length (rtrim_ws s) \<le> length s" for s
    unfolding rtrim_ws_def using length_dropWhile_le [of isspace "rev s"] by simp
  then have len: "length ?name \<le> 65534" using n(2) by (smt (verit) length_take min.cobounded2 order_trans)
  note lh = header_names_plain(1,2)
  have "length (strip_nofilter h v) \<le> length v" for v
    by (simp add: strip_nofilter_def Let_def split: prod.splits)
  with n(4) have "length (strip_nofilter h ?v) \<le> 65534" using order_trans by blast
  with e n len lh show "field_ok e" by (simp add: field_ok_def)
  have "CHR '':'' \<notin> set (take ?n field)" using strchr_Some n(1) by (cases "strchr field (CHR '':'')") auto
  moreover have "set (rtrim_ws s) \<subseteq> set s" for s unfolding rtrim_ws_def by (auto dest: set_dropWhileD)
  ultimately have "CHR '':'' \<notin> set ?name" by (cases "relaxed \<and> isspace (last (take ?n field))") auto
  then show "CHR '':'' \<notin> set (ename e) \<or> eid e \<noteq> HDR_OTHER" by (simp add: e)
qed

lemma parse_loop_safe:
  assumes "hdr_ok hdr" and "count_cl hdr \<le> 1" and "\<forall>e \<in> set (fields hdr). field_ok e"
  shows "\<exists>hdr' ok. parse_loop relaxed h hdr rest = Some (hdr', ok) \<and> hdr_ok hdr' \<and> count_cl hdr' \<le> 1
           \<and> (\<forall>e \<in> set (fields hdr'). field_ok e) \<and> (\<not> ok \<longrightarrow> fields hdr' = [])"
  using assms
proof (induction relaxed h hdr rest rule: parse_loop.induct)
  case (1 relaxed h hdr rest)
  have reset: "hdr_ok (httpHeaderReset hdr) \<and> count_cl (httpHeaderReset hdr) = 0 \<and> fields (httpHeaderReset hdr) = []"
    by (simp add: httpHeaderReset_def count_cl_def)
  note unf = parse_loop.simps [of relaxed h hdr rest]
  show ?case
  proof (cases "rest = [] \<or> field_lines relaxed [] rest = None")
    case True
    with 1(4-6) reset show ?thesis by (auto simp: unf)
  next
    case False
    then obtain field rest' where fl: "rest \<noteq> []" "field_lines relaxed [] rest = Some (field, rest')" by auto
    show ?thesis
    proof (cases "field = [] \<or> httpHeaderEntryParseCreate relaxed h field = None")
      case True
      with fl 1(1) [OF fl refl] 1(4-6) reset show ?thesis by (auto simp: unf)
    next
      case f: False
      then obtain e where e: "field \<noteq> []" "httpHeaderEntryParseCreate relaxed h field = Some e" by auto
      have add: "hdr_ok (httpHeaderAddEntry k e) \<and> count_cl (httpHeaderAddEntry k e) = count_cl k + (if eid e = HDR_CONTENT_LENGTH then 1 else 0)
          \<and> set (fields (httpHeaderAddEntry k e)) = insert e (set (fields k))" if "hdr_ok k" for k
        using AddEntry_ok [OF that, of e] by (simp add: count_cl_def)
      have fe: "field_ok e" by (rule EntryParseCreate_ok [OF e(2)])
      show ?thesis
      proof (cases "eid e = HDR_CONTENT_LENGTH")
        case False
        let ?h = "httpHeaderAddEntry hdr e"
        have k: "(if eid e = HDR_CONTENT_LENGTH then cl_check relaxed hdr e else Some (Keep hdr)) = Some (Keep hdr)"
          using False by simp
        show ?thesis
        proof (cases "eid e = HDR_OTHER \<and> stringHasWhitespace (ename e) \<and> \<not> relaxed")
          case True
          with fl e False have "parse_loop relaxed h hdr rest = Some (httpHeaderReset hdr, False)"
            unfolding unf by simp
          with reset show ?thesis by auto
        next
          case ok: False
          with fl e False have "parse_loop relaxed h hdr rest = parse_loop relaxed h ?h rest'" by (auto simp: unf)
          with 1(3) [OF fl refl e k refl ok] 1(4-6) add [OF 1(4)] fe False show ?thesis by simp
        qed
      next
        case cl: True
        show ?thesis
        proof (rule cl_check_ok [OF 1(4,5) cl, of relaxed], goal_cases)
          case 1
          with fl e cl reset show ?case by (auto simp: unf)
        next
          case 2
          with fl e cl have "parse_loop relaxed h hdr rest = parse_loop relaxed h hdr rest'" by (auto simp: unf)
          with "1.IH"(2) [OF fl refl e _ ] 2 cl "1.prems" show ?case by simp
        next
          case (3 hdr')
          let ?h = "httpHeaderAddEntry hdr' e"
          from 3 fl e cl have "parse_loop relaxed h hdr rest = parse_loop relaxed h ?h rest'" by (auto simp: unf)
          with "1.IH"(3) [OF fl refl e _ refl] 3 cl "1.prems" add [OF 3(2)] fe show ?case by auto
        qed
      qed
    qed
  qed
qed

section \<open>Parsing what was packed\<close>

definition wf_field :: "string \<Rightarrow> http_entry \<Rightarrow> bool" where
  "wf_field h e \<longleftrightarrow>
     (if eid e = HDR_OTHER
      then httpHeaderIdByName (ename e) = None \<and> ename e \<noteq> [] \<and> length (ename e) \<le> 65534
           \<and> (\<forall>c \<in> set (ename e). c \<notin> {CHR '':'', CR, LF, NUL} \<and> \<not> isspace c)
      else ename e = hdr_name (eid e))
     \<and> (\<forall>c \<in> set (evalue e). c \<notin> {CR, LF, NUL})
     \<and> (evalue e \<noteq> [] \<longrightarrow> \<not> isspace (hd (evalue e)) \<and> \<not> isspace (last (evalue e)))
     \<and> length (evalue e) \<le> 65534 \<and> strip_nofilter h (evalue e) = evalue e"

lemma wf_field_name:
  "wf_field h e \<Longrightarrow> ename e \<noteq> [] \<and> length (ename e) \<le> 65534
     \<and> (\<forall>c \<in> set (ename e). c \<notin> {CHR '':'', CR, LF, NUL} \<and> \<not> isspace c)
     \<and> httpHeaderIdByName (ename e) = (if eid e = HDR_OTHER then None else Some (eid e))"
  using header_names_plain [of "eid e"] by (auto simp: wf_field_def split: if_splits)

lemma wf_field_no_NUL: "wf_field h e \<Longrightarrow> CHR 0x00 \<notin> set (httpHeaderEntryPackInto e)"
proof -
  assume wf: "wf_field h e"
  have "NUL \<notin> set (ename e)" using wf_field_name [OF wf] by blast
  moreover have "\<forall>c \<in> set (evalue e). c \<notin> {CR, LF, NUL}" using wf unfolding wf_field_def by blast
  then have "NUL \<notin> set (evalue e)" by blast
  ultimately show ?thesis unfolding NUL_def by (simp add: httpHeaderEntryPackInto_def)
qed

lemma strchr_append: "d \<notin> set s \<Longrightarrow> strchr (s @ d # t) d = Some (length s)"
  by (induction s) auto

lemma clean_line_CR: "CR \<notin> set f \<Longrightarrow> clean_line relaxed (f @ [CR]) = Some (f, [CR])"
proof -
  assume a: "CR \<notin> set f"
  then have "last f \<noteq> CR" if "f \<noteq> []" using that last_in_set by metis
  moreover from a have "map (\<lambda>c. if c = CR then CHR '' '' else c) f = f" by (auto intro: map_idI)
  ultimately show ?thesis using a by (cases "f = []") (auto simp: clean_line_def Let_def)
qed

lemma field_lines_plain:
  assumes "CR \<notin> set f" and "LF \<notin> set f" and "rest = [] \<or> hd rest \<noteq> CHR '' '' \<and> hd rest \<noteq> CHR 0x09"
  shows "field_lines relaxed [] (f @ [CR, LF] @ rest) = Some (f, rest)"
proof -
  have "strchr ((f @ [CR]) @ LF # rest) LF = Some (length (f @ [CR]))"
    using assms(2) by (intro strchr_append) (auto simp: CR_def LF_def)
  then show ?thesis using clean_line_CR [OF assms(1), of relaxed] assms(3)
    by (subst field_lines.simps) (auto simp: Let_def)
qed

lemma rtrim_ws_id: "s = [] \<or> \<not> isspace (last s) \<Longrightarrow> rtrim_ws s = s"
  by (cases s rule: rev_cases) (auto simp: rtrim_ws_def)

lemma w_space_isspace: "c \<in> set w_space \<Longrightarrow> isspace c"
  by (auto simp: w_space_def isspace_def CR_def LF_def ord_def)

lemma isspace_blank [simp]: "isspace (CHR '' '')"
  by (simp add: isspace_def)

lemma EntryParseCreate_packed:
  assumes "wf_field h e"
  shows "httpHeaderEntryParseCreate relaxed h (ename e @ '': '' @ evalue e) = Some e"
proof -
  note n = wf_field_name [OF assms]
  have s: "strchr (ename e @ '': '' @ evalue e) (CHR '':'') = Some (length (ename e))"
    using n strchr_append [of "CHR '':''" "ename e" "CHR '' '' # evalue e"] by auto
  have last: "\<not> isspace (last (ename e))" using n by auto
  have "ltrim_ws (CHR '' '' # evalue e) = evalue e"
    using assms by (cases "evalue e") (auto simp: ltrim_ws_def wf_field_def)
  moreover have "rtrim_ws (evalue e) = evalue e" using assms by (intro rtrim_ws_id) (auto simp: wf_field_def)
  ultimately show ?thesis using s n last assms
    by (auto simp: httpHeaderEntryParseCreate_def Let_def wf_field_def split: if_splits)
qed

lemma parse_loop_packed:
  assumes "hdr_ok hdr" and "\<forall>e \<in> set es. wf_field h e"
    and "count_cl hdr + length (filter (\<lambda>e. eid e = HDR_CONTENT_LENGTH) es) \<le> 1"
  shows "parse_loop relaxed h hdr (concat (map httpHeaderEntryPackInto es) @ [CR, LF])
         = Some (foldl httpHeaderAddEntry hdr es, True)"
  using assms
proof (induction es arbitrary: hdr)
  case Nil
  have "field_lines relaxed [] [CR, LF] = Some ([], [])" using field_lines_plain [of "[]" "[]"] by simp
  then show ?case by (subst parse_loop.simps) simp
next
  case (Cons e es)
  let ?f = "ename e @ '': '' @ evalue e" and ?rest = "concat (map httpHeaderEntryPackInto es) @ [CR, LF]"
  have wf: "wf_field h e" using Cons.prems by simp
  note n = wf_field_name [OF wf]
  have f: "CR \<notin> set ?f" "LF \<notin> set ?f" using n wf by (auto simp: wf_field_def CR_def LF_def)
  have hd: "hd ?rest \<noteq> CHR '' '' \<and> hd ?rest \<noteq> CHR 0x09"
  proof (cases es)
    case Nil then show ?thesis by (simp add: CR_def)
  next
    case (Cons e' es')
    with Cons.prems wf_field_name [of h e'] have "ename e' \<noteq> [] \<and> \<not> isspace (hd (ename e'))" by auto
    then show ?thesis using Cons by (auto simp: httpHeaderEntryPackInto_def isspace_def ord_def)
  qed
  have fl: "field_lines relaxed [] (?f @ [CR, LF] @ ?rest) = Some (?f, ?rest)"
    using hd by (intro field_lines_plain [OF f]) simp
  have packed: "concat (map httpHeaderEntryPackInto (e # es)) @ [CR, LF] = ?f @ [CR, LF] @ ?rest"
    by (simp add: httpHeaderEntryPackInto_def CR_def LF_def)
  have chk: "(if eid e = HDR_CONTENT_LENGTH then cl_check relaxed hdr e else Some (Keep hdr)) = Some (Keep hdr)"
  proof (cases "eid e = HDR_CONTENT_LENGTH")
    case True
    with Cons.prems have "filter (\<lambda>e. eid e = HDR_CONTENT_LENGTH) (fields hdr) = []" by (simp add: count_cl_def)
    with FindEntry_ok [OF Cons.prems(1) CL_not_list] True show ?thesis by (simp add: cl_check_def find_hd_filter)
  qed simp
  have ws: "\<not> (eid e = HDR_OTHER \<and> stringHasWhitespace (ename e) \<and> \<not> relaxed)"
    using n w_space_isspace by (auto simp: stringHasWhitespace_def)
  have "parse_loop relaxed h hdr (?f @ [CR, LF] @ ?rest) = parse_loop relaxed h (httpHeaderAddEntry hdr e) ?rest"
    by (subst parse_loop.simps) (use fl EntryParseCreate_packed [OF wf] chk ws n in auto)
  moreover have "count_cl (httpHeaderAddEntry hdr e) = count_cl hdr + (if eid e = HDR_CONTENT_LENGTH then 1 else 0)"
    using AddEntry_ok [OF Cons.prems(1), of e] by (simp add: count_cl_def)
  ultimately show ?case unfolding packed using Cons.IH [of "httpHeaderAddEntry hdr e"] Cons.prems AddEntry_ok
    by (auto split: if_splits)
qed

section \<open>Properties\<close>

text \<open>
  C16. The header parser is safe on every input, in both modes: it ends, fails no assertion, and leaves
  a consistent header with at most one Content-Length field and with names and values within the limits
  of a \<open>String\<close>; when it rejects the input the header is empty.
\<close>

theorem header_parse_safe:
  assumes "hdr_ok hdr" and "fields hdr = []"
  shows "\<exists>hdr' ok. httpHeaderParse relaxed h hdr s = Some (hdr', ok) \<and> hdr_ok hdr'
           \<and> length (filter (\<lambda>e. eid e = HDR_CONTENT_LENGTH) (fields hdr')) \<le> 1
           \<and> (\<forall>e \<in> set (fields hdr'). ename e \<noteq> [] \<and> length (ename e) \<le> 65534 \<and> length (evalue e) \<le> 65534)
           \<and> (\<not> ok \<longrightarrow> fields hdr' = [])"
proof (cases "NUL \<in> set s")
  case True
  then show ?thesis by (auto simp: httpHeaderParse_def httpHeaderReset_def)
next
  case False
  have "count_cl hdr \<le> 1" "\<forall>e \<in> set (fields hdr). field_ok e" using assms(2) by (simp_all add: count_cl_def)
  from parse_loop_safe [OF assms(1) this, of relaxed h s] False show ?thesis
    by (auto simp: httpHeaderParse_def count_cl_def field_ok_def)
qed

theorem header_parse_safe_witness:
  "\<exists>hdr' ok. httpHeaderParse True ''proxy'' httpHeaderInit ''Content-Length: 1'' = Some (hdr', ok) \<and> hdr_ok hdr'"
  using header_parse_safe [OF hdr_ok_Init, of True "''proxy''" "''Content-Length: 1''"] by auto

text \<open>
  C17. Round trip: parsing the packed form of a header, ended by an empty line, gives back its fields in
  order, in both modes, when the fields could have come from the parser: names without separators,
  values without line breaks and surrounding white space, and not two Content-Length fields.
\<close>

theorem header_pack_parse_roundtrip:
  assumes "\<forall>e \<in> set (fields hdr). wf_field h e"
    and "length (filter (\<lambda>e. eid e = HDR_CONTENT_LENGTH) (fields hdr)) \<le> 1"
  shows "\<exists>hdr'. httpHeaderParse relaxed h httpHeaderInit (httpHeaderPackInto hdr [] @ [CR, LF]) = Some (hdr', True)
           \<and> fields hdr' = fields hdr"
proof -
  have "NUL \<notin> set (concat (map httpHeaderEntryPackInto (fields hdr)) @ [CR, LF])"
    using assms(1) wf_field_no_NUL by (auto simp: CR_def LF_def NUL_def)
  then show ?thesis
    using parse_loop_packed [OF hdr_ok_Init(1) assms(1), of relaxed] assms(2) foldl_AddEntry_ok [OF hdr_ok_Init(1)]
    by (auto simp: httpHeaderParse_def PackInto_eq count_cl_def)
qed

theorem header_pack_parse_roundtrip_witness:
  "\<exists>hdr'. httpHeaderParse False ''proxy'' httpHeaderInit
       (httpHeaderPackInto (httpHeaderPutStr httpHeaderInit HDR_HOST ''a.example'') [] @ [CR, LF]) = Some (hdr', True)
     \<and> fields hdr' = [httpHeaderEntryCreate HDR_HOST [] ''a.example'']"
proof -
  let ?h = "httpHeaderPutStr httpHeaderInit HDR_HOST ''a.example''"
  have f: "fields ?h = [httpHeaderEntryCreate HDR_HOST [] ''a.example'']"
    by (simp add: httpHeaderPutStr_def AddEntry_ok)
  have "wf_field ''proxy'' (httpHeaderEntryCreate HDR_HOST [] ''a.example'')"
    by (simp add: wf_field_def httpHeaderEntryCreate_def CR_def LF_def NUL_def strip_nofilter_def isspace_def ord_def)
  with f header_pack_parse_roundtrip [of ?h "''proxy''" False] show ?thesis by (simp add: httpHeaderEntryCreate_def)
qed

lemma nf_loop_match:
  "nf_loop (w @ map tolower h @ s) h (int (length w + length h) - 1) (int (length h) - 1) = (int (length w) - 1, - 1)"
proof -
  have "nf_loop (w @ map tolower (g @ r) @ s) (g @ r) (int (length w + length g) - 1) (int (length g) - 1) = (int (length w) - 1, - 1)" for g r
  proof (induction g arbitrary: r rule: rev_induct)
    case Nil then show ?case by (subst nf_loop.simps) simp
  next
    case (snoc c g)
    have "nf_loop (w @ map tolower (g @ [c] @ r) @ s) (g @ [c] @ r) (int (length w + length g)) (int (length g))
        = nf_loop (w @ map tolower (g @ [c] @ r) @ s) (g @ [c] @ r) (int (length w + length g) - 1) (int (length g) - 1)"
      by (subst nf_loop.simps) (simp add: nth_append flip: of_nat_add)
    with snoc.IH [of "[c] @ r"] show ?case by simp
  qed
  from this [of h "[]"] show ?thesis by simp
qed

text \<open>
  The NOFILTER hack: a value that ends in a dot, the proxy's host name in lower case and
  \<open>.nofilter\<close> loses exactly that suffix, so that the origin server gets the name it knows; a value
  that does not end in \<open>.nofilter\<close> is not changed.
\<close>

theorem nofilter_suffix_removed:
  "(strcasecmp0 s ''.nofilter'' \<longrightarrow> strip_nofilter h (x @ ''.'' @ map tolower h @ s) = x)
   \<and> (\<not> strcasecmp0 (drop (length v - 9) v) ''.nofilter'' \<longrightarrow> strip_nofilter h v = v)"
proof (intro conjI impI)
  show "\<not> strcasecmp0 (drop (length v - 9) v) ''.nofilter'' \<Longrightarrow> strip_nofilter h v = v"
    by (simp add: strip_nofilter_def)
  assume s: "strcasecmp0 s ''.nofilter''"
  then have len: "length s = 9" using strcasecmp0_length [of s] by simp
  let ?v = "x @ ''.'' @ map tolower h @ s"
  from nf_loop_match [of "x @ ''.''" h s] have "nf_loop ?v h (int (length x + length h)) (int (length h) - 1) = (int (length x), - 1)" by simp
  moreover have "int (length ?v) - 10 = int (length x + length h)" by (simp add: len)
  ultimately show "strip_nofilter h ?v = x" using s len
    by (simp add: strip_nofilter_def Let_def nth_append)
qed

theorem nofilter_suffix_removed_witness:
  "strip_nofilter ''Proxy'' ''www.example.proxy.NoFilter'' = ''www.example''"
proof -
  have "strcasecmp0 ''.NoFilter'' ''.nofilter''" by code_simp
  moreover have "map tolower ''Proxy'' = ''proxy''" by code_simp
  ultimately show ?thesis
    using nofilter_suffix_removed [of "''.NoFilter''" "''Proxy''" "''www.example''"] by simp
qed

end
