(* ===== verification/CfTemp.thy ===== *)
theory CfTemp
  imports HashTable FileSys
begin

text \<open>
  The temporary files of the virus filter (\<^verbatim>\<open>filters/lib.c\<close>): a hash table from the URL and the client
  address to the name of a file that collects the data of one download. The state is the file system,
  the table and the next free address for \<open>xmalloc\<close>; \<open>None\<close> is a memory error. \<open>tempnam\<close> is a parameter.

  The abstract view of the state is a map from keys to files; \<open>update_file\<close> and \<open>remove_file\<close> are
  shown to act on it as an insertion and a deletion.
\<close>

unbundle bit_operations_syntax

section \<open>A keyed store as a map\<close>

context keyed_store
begin

definition assoc :: "'s \<Rightarrow> 'k \<Rightarrow> 'v option" where
  "assoc s k = (case lookup s k of Some (Some a) \<Rightarrow> Some (val s a) | _ \<Rightarrow> None)"

definition distinct_keys :: "'s \<Rightarrow> bool" where
  "distinct_keys s \<longleftrightarrow> inj_on (key s) (items s)"

lemma assoc_iff:
  assumes "inv s" and "distinct_keys s"
  shows "assoc s k = Some v \<longleftrightarrow> (\<exists>a \<in> items s. key s a = k \<and> val s a = v)"
proof -
  from lookup_total [OF assms(1)] obtain r where r: "lookup s k = Some r" by blast
  show ?thesis
  proof (cases r)
    case None
    with r have "assoc s k = None" by (simp add: assoc_def)
    moreover have "\<forall>a \<in> items s. key s a \<noteq> k" using lookup_none [OF assms(1), of k] r None by blast
    ultimately show ?thesis by simp
  next
    case (Some a)
    with r lookup_found [OF assms(1)] have a: "a \<in> items s" "key s a = k" by auto
    with assms(2) have "b = a" if "b \<in> items s" "key s b = k" for b
      using that by (auto simp: distinct_keys_def dest: inj_onD)
    with a have "(\<exists>b \<in> items s. key s b = k \<and> val s b = v) \<longleftrightarrow> val s a = v" by blast
    moreover have "assoc s k = Some (val s a)" using r Some by (simp add: assoc_def)
    ultimately show ?thesis by simp
  qed
qed

lemma assoc_None_iff:
  assumes "inv s" and "distinct_keys s"
  shows "assoc s k = None \<longleftrightarrow> lookup s k = Some None"
  using lookup_total [OF assms(1), of k] by (auto simp: assoc_def split: option.splits)

lemma insert_assoc:
  assumes "inv s" and "distinct_keys s" and "a \<notin> items s" and "assoc s k = None" and "insert s a k v = Some s'"
  shows "distinct_keys s' \<and> assoc s' = (assoc s)(k \<mapsto> v)"
proof -
  from insert_ok [OF assms(1,3), of k v] assms(5) have s': "inv s'" "items s' = items s \<union> {a}" "key s' a = k" "val s' a = v"
    "\<forall>b \<in> items s. key s' b = key s b \<and> val s' b = val s b" by auto
  from assms(4) have k: "\<forall>b \<in> items s. key s b \<noteq> k"
    using assoc_iff [OF assms(1,2)] by (metis option.distinct(1))
  have d: "distinct_keys s'"
    using assms(2,3) s' k by (fastforce simp: distinct_keys_def inj_on_def)
  have "assoc s' j = Some w \<longleftrightarrow> ((assoc s)(k \<mapsto> v)) j = Some w" for j w
    using assoc_iff [OF s'(1) d, of j w] assoc_iff [OF assms(1,2), of j w] s' assms(3) k by auto
  then have "assoc s' j = ((assoc s)(k \<mapsto> v)) j" for j by (metis option.exhaust)
  with d show ?thesis by blast
qed

lemma remove_assoc:
  assumes "inv s" and "distinct_keys s" and "a \<in> items s" and "remove s a = Some s'"
  shows "distinct_keys s' \<and> assoc s' = (assoc s)(key s a := None)"
proof -
  from remove_ok [OF assms(1,3)] assms(4) have s': "inv s'" "items s' = items s - {a}"
    "\<forall>b \<in> items s'. key s' b = key s b \<and> val s' b = val s b" by auto
  have d: "distinct_keys s'"
    using assms(2) s' by (auto simp: distinct_keys_def inj_on_def)
  have "assoc s' j = Some w \<longleftrightarrow> ((assoc s)(key s a := None)) j = Some w" for j w
    using assoc_iff [OF s'(1) d, of j w] assoc_iff [OF assms(1,2), of j w] s' assms(2,3)
    by (auto simp: distinct_keys_def dest: inj_onD)
  then have "assoc s' j = ((assoc s)(key s a := None)) j" for j by (metis option.exhaust)
  with d show ?thesis by blast
qed

end

section \<open>Keys\<close>

definition strnlen :: "string \<Rightarrow> nat \<Rightarrow> nat" where
  "strnlen s n = min (length s) n"

text \<open>
  The key: \<open>strncpy\<close> and \<open>strncat\<close> into a block of \<open>keylen + 1\<close> bytes. \<open>strncpy\<close> leaves the block
  without a terminator when the URL fills all of \<open>keylen\<close>, and \<open>strncat\<close> is given \<open>keylen\<close> and not the
  room that is left.
\<close>

definition hash_key :: "string \<Rightarrow> string \<Rightarrow> string option" where
  "hash_key url client_addr =
     (let keylen = strnlen url 1024 + strnlen client_addr 1024 in
      if length url < keylen \<and> length url + strnlen client_addr keylen \<le> keylen
      then Some (url @ take keylen client_addr) else None)"

section \<open>The operations\<close>

record tmpfile =
  filename :: string
  lastscannedsize :: int

record tmpstate =
  t_fs :: fsys
  t_hash :: "(string, tmpfile) hash_table"
  t_next :: addr

type_synonym tempnam = "fsys \<Rightarrow> string \<Rightarrow> string \<Rightarrow> string option"

definition init_hash :: "(string, tmpfile) hash_table \<times> int" where
  "init_hash = (hash_create strcmp 229 hash4 (\<lambda>_. None), 1)"

definition query_hash :: "(string, tmpfile) hash_table \<Rightarrow> string \<Rightarrow> string \<Rightarrow> addr option option" where
  "query_hash h url client_addr =
     (case hash_key url client_addr of None \<Rightarrow> None | Some key \<Rightarrow> hash_lookup h key)"

text \<open>The part of \<open>update_file\<close> that finds or makes the entry: \<open>None\<close> inside when there is no name to be had.\<close>

definition get_entry_file :: "tempnam \<Rightarrow> tmpstate \<Rightarrow> string \<Rightarrow> string \<Rightarrow> (tmpstate \<times> addr option) option" where
  "get_entry_file tempnam s tempdir key =
     (case hash_lookup (t_hash s) key of
        None \<Rightarrow> None
      | Some (Some lp) \<Rightarrow> Some (s, Some lp)
      | Some None \<Rightarrow>
          (let s = (if cf_is_dir (t_fs s) tempdir then s else s\<lparr>t_fs := fst (cf_mkdir (t_fs s) tempdir)\<rparr>) in
           case tempnam (t_fs s) tempdir ''file'' of
             None \<Rightarrow> Some (s, None)
           | Some name \<Rightarrow>
               (case new_link (t_hash s) (t_next s) key \<lparr>filename = name, lastscannedsize = 0\<rparr> of
                  None \<Rightarrow> None
                | Some h \<Rightarrow> Some (s\<lparr>t_hash := h, t_next := t_next s + 1\<rparr>, Some (t_next s)))))"

text \<open>
  \<open>fopen(..., "ab")\<close> creates a file with the permissions 0666 less the umask, which has just been set to
  0077: those \<open>fs_open_write\<close> gives it.
\<close>

definition update_file :: "tempnam \<Rightarrow> tmpstate \<Rightarrow> string \<Rightarrow> string \<Rightarrow> string \<Rightarrow> bytes \<Rightarrow> nat \<Rightarrow> (tmpstate \<times> cptr) option" where
  "update_file tempnam s tempdir url client_addr buf len =
     (case hash_key url client_addr of
        None \<Rightarrow> None
      | Some key \<Rightarrow>
          (case get_entry_file tempnam s tempdir key of
             None \<Rightarrow> None
           | Some (s, None) \<Rightarrow> Some (s, None)
           | Some (s, Some lp) \<Rightarrow>
               (let name = filename (link_val (t_hash s) lp);
                    s = s\<lparr>t_fs := (t_fs s)\<lparr>fumask := 0x3F\<rparr>\<rparr> in
                case fs_open_write (t_fs s) name False of
                  None \<Rightarrow> Some (s, None)
                | Some fs \<Rightarrow>
                    (if buf = [] then None
                     else Some (s\<lparr>t_fs := (if hd buf \<noteq> CHR '' '' then fs_append fs name (take len buf) else fs)\<rparr>,
                                Some name)))))"

definition fs_unlink :: "fsys \<Rightarrow> string \<Rightarrow> fsys" where
  "fs_unlink fs p =
     (if p = [] \<or> deny fs (comps p) \<or> fs_isdir fs (comps p) then fs
      else fs\<lparr>inodes := (inodes fs)(comps p := None)\<rparr>)"

definition remove_file :: "tmpstate \<Rightarrow> string \<Rightarrow> string \<Rightarrow> tmpstate option" where
  "remove_file s url client_addr =
     (case query_hash (t_hash s) url client_addr of
        None \<Rightarrow> None
      | Some None \<Rightarrow> Some s
      | Some (Some lp) \<Rightarrow>
          (case hash_remove_link (t_hash s) lp of
             None \<Rightarrow> None
           | Some h \<Rightarrow>
               Some (s\<lparr>t_fs := fs_unlink (t_fs s) (filename (link_val (t_hash s) lp)),
                       t_hash := h\<lparr>hmem := (hmem h)(lp := None)\<rparr>\<rparr>)))"

text \<open>
  \<open>execute_action\<close>: the processes that return from the call and the value each of them gets. The result
  of \<open>fork\<close>, whether \<open>execv\<close> succeeds and the exit code of the command, if it exits normally, come from
  outside.
\<close>

datatype process = Parent | Child

definition execute_action :: "bool \<Rightarrow> bool \<Rightarrow> int option \<Rightarrow> bool \<Rightarrow> (process \<times> int) list" where
  "execute_action forks execs exit_code wait =
     (if \<not> forks then [(Parent, - 1)]
      else
        (if execs then [] else [(Child, 0)]) @
        [(Parent, if wait then (case exit_code of Some c \<Rightarrow> c | None \<Rightarrow> - 1) else 0)])"

text \<open>The arguments the command gets: up to the first that is NULL.\<close>

definition action_args :: "cptr list \<Rightarrow> string list" where
  "action_args cmdArgs = map the (takeWhile (\<lambda>a. a \<noteq> None) cmdArgs)"

section \<open>The state as a map\<close>

definition tmp_ok :: "tmpstate \<Rightarrow> bool" where
  "tmp_ok s \<longleftrightarrow> str_inv (t_hash s) \<and> (\<forall>a \<in> link_set (t_hash s). a < t_next s) \<and> strtab.distinct_keys (t_hash s)"

definition files :: "tmpstate \<Rightarrow> string \<Rightarrow> tmpfile option" where
  "files s = strtab.assoc (t_hash s)"

definition fs_data :: "fsys \<Rightarrow> string \<Rightarrow> bytes" where
  "fs_data fs p = (case fs_node fs p of None \<Rightarrow> [] | Some n \<Rightarrow> idata n)"

lemma hash_inv_free:
  assumes "hash_inv h L" and "a \<notin> set (concat L)"
  shows "hash_inv (h\<lparr>hmem := (hmem h)(a := None)\<rparr>) L"
proof -
  have ch: "chain ((hmem h)(a := None)) p xs" if "chain (hmem h) p xs" "a \<notin> set xs" for p xs
    using that by (induction xs arbitrary: p) (auto split: option.splits)
  have "slot_ok (h\<lparr>hmem := (hmem h)(a := None)\<rparr>) i (L ! i)" if i: "i < length L" for i
  proof -
    have "a \<notin> set (L ! i)" using assms(2) set_concat_nth [OF i] by blast
    moreover have "slot_ok h i (L ! i)" using assms(1) i by (simp add: hash_inv_def)
    ultimately show ?thesis by (auto simp: slot_ok_def ch)
  qed
  with assms(1) show ?thesis by (auto simp: hash_inv_def)
qed

lemma free_ok:
  fixes h :: "(string, 'v) hash_table"
  assumes "str_inv h" and "a \<notin> link_set h" and "strtab.distinct_keys h"
  defines "h' \<equiv> h\<lparr>hmem := (hmem h)(a := None)\<rparr>"
  shows "str_inv h' \<and> link_set h' = link_set h \<and> strtab.distinct_keys h' \<and> strtab.assoc h' = strtab.assoc h"
proof -
  from assms(1) obtain L where L: "hash_inv h L" and c: "cmp h = strcmp" "hash h = hash4" by (auto simp: str_inv_def)
  have L': "hash_inv h' L" unfolding h'_def using L assms(2) by (intro hash_inv_free) (simp_all add: link_set_eq)
  then have inv: "str_inv h'" using c by (auto simp: str_inv_def h'_def)
  have set: "link_set h' = link_set h" using L L' by (simp add: link_set_eq)
  have kv: "link_key h' b = link_key h b" "link_val h' b = link_val h b" if "b \<in> link_set h" for b
    using that assms(2) by (auto simp: link_key_def link_val_def h'_def)
  have d: "strtab.distinct_keys h'"
    using assms(3) kv set by (simp add: strtab.distinct_keys_def inj_on_def)
  have "strtab.assoc h' k = Some v \<longleftrightarrow> strtab.assoc h k = Some v" for k v
    using strtab.assoc_iff [OF inv d] strtab.assoc_iff [OF assms(1,3)] kv set by simp
  then have "strtab.assoc h' k = strtab.assoc h k" for k by (metis option.exhaust)
  with inv set d show ?thesis by blast
qed

lemma remove_file_ok:
  assumes "tmp_ok s" and "hash_key url client_addr = Some k"
  obtains s' where "remove_file s url client_addr = Some s'" "tmp_ok s'" "files s' = (files s)(k := None)"
    "t_fs s' = (case files s k of None \<Rightarrow> t_fs s | Some f \<Rightarrow> fs_unlink (t_fs s) (filename f))" "t_next s' = t_next s"
proof -
  from assms(1) have ok: "str_inv (t_hash s)" "strtab.distinct_keys (t_hash s)" by (auto simp: tmp_ok_def)
  show ?thesis
  proof (cases "hash_lookup (t_hash s) k")
    case None
    with strtab.lookup_total [OF ok(1), of k] show ?thesis by simp
  next
    case (Some r)
    show ?thesis
    proof (cases r)
      case None
      with Some have "files s k = None" by (simp add: files_def strtab.assoc_def)
      with that [of s] assms Some None show ?thesis by (auto simp: remove_file_def query_hash_def fun_upd_idem)
    next
      case a: (Some a)
      with Some strtab.lookup_found [OF ok(1)] have a': "a \<in> link_set (t_hash s)" "link_key (t_hash s) a = k" by auto
      from strtab.remove_ok [OF ok(1) a'(1)] obtain h where
        h: "hash_remove_link (t_hash s) a = Some h" "str_inv h" "link_set h = link_set (t_hash s) - {a}" by blast
      from strtab.remove_assoc [OF ok a'(1) h(1)] a'(2) have
        m: "strtab.distinct_keys h" "strtab.assoc h = (strtab.assoc (t_hash s))(k := None)" by auto
      from h(2,3) m(1) have "str_inv (h\<lparr>hmem := (hmem h)(a := None)\<rparr>) \<and> link_set (h\<lparr>hmem := (hmem h)(a := None)\<rparr>) = link_set h
          \<and> strtab.distinct_keys (h\<lparr>hmem := (hmem h)(a := None)\<rparr>) \<and> strtab.assoc (h\<lparr>hmem := (hmem h)(a := None)\<rparr>) = strtab.assoc h"
        by (intro free_ok) auto
      moreover have "files s k = Some (link_val (t_hash s) a)" using Some a by (simp add: files_def strtab.assoc_def)
      ultimately show ?thesis
        using that [of "s\<lparr>t_fs := fs_unlink (t_fs s) (filename (link_val (t_hash s) a)), t_hash := h\<lparr>hmem := (hmem h)(a := None)\<rparr>\<rparr>"]
          assms Some a h m by (auto simp: remove_file_def query_hash_def tmp_ok_def files_def)
    qed
  qed
qed

lemma open_append:
  assumes "fs_open_write fs p False = Some fs'"
  shows "p \<noteq> []" "fs_data fs' p = fs_data fs p" "\<exists>n. inodes fs' (comps p) = Some n" "\<not> deny fs' (comps p)"
  using assms by (auto simp: fs_open_write_def fs_data_def fs_node_def Let_def split: if_splits option.splits)

lemma append_data:
  assumes "fs_open_write fs p False = Some fs'"
  shows "fs_data (fs_append fs' p d) p = fs_data fs p @ d"
    "\<exists>n. fs_node (fs_append fs' p d) p = Some n \<and> idata n = fs_data fs p @ d"
    "deny (fs_append fs' p d) = deny fs'"
  using open_append [OF assms] by (auto simp: fs_append_def fs_data_def fs_node_def)

lemma get_entry_file_ok:
  assumes "tmp_ok s"
  obtains (no_name) s' where "get_entry_file tempnam s dir k = Some (s', None)" "tmp_ok s'" "files s' = files s"
      "t_hash s' = t_hash s" "files s k = None"
  | (found) a f where "get_entry_file tempnam s dir k = Some (s, Some a)" "files s k = Some f" "link_val (t_hash s) a = f"
  | (made) s' a f where "get_entry_file tempnam s dir k = Some (s', Some a)" "tmp_ok s'" "files s k = None"
      "files s' = (files s)(k \<mapsto> f)" "link_val (t_hash s') a = f" "tempnam (t_fs s') dir ''file'' = Some (filename f)"
proof -
  from assms have ok: "str_inv (t_hash s)" "strtab.distinct_keys (t_hash s)" and
    fresh: "t_next s \<notin> link_set (t_hash s)" by (auto simp: tmp_ok_def)
  define s1 where "s1 = (if cf_is_dir (t_fs s) dir then s else s\<lparr>t_fs := fst (cf_mkdir (t_fs s) dir)\<rparr>)"
  have s1: "t_hash s1 = t_hash s" "t_next s1 = t_next s" "tmp_ok s1" "files s1 = files s"
    using assms by (auto simp: s1_def tmp_ok_def files_def)
  from strtab.lookup_total [OF ok(1), of k] obtain r where r: "hash_lookup (t_hash s) k = Some r" by blast
  show ?thesis
  proof (cases r)
    case (Some a)
    with r found [of a "link_val (t_hash s) a"] show ?thesis
      by (simp add: get_entry_file_def files_def strtab.assoc_def)
  next
    case None
    then have absent: "files s k = None" using r by (simp add: files_def strtab.assoc_def)
    show ?thesis
    proof (cases "tempnam (t_fs s1) dir ''file''")
      case None
      with \<open>r = None\<close> r no_name [of s1] s1 absent show ?thesis by (simp add: get_entry_file_def s1_def Let_def)
    next
      case (Some name)
      let ?f = "\<lparr>filename = name, lastscannedsize = 0\<rparr>"
      from strtab.insert_ok [OF ok(1) fresh, of k ?f] obtain h where
        h: "new_link (t_hash s) (t_next s) k ?f = Some h" "str_inv h" "link_set h = link_set (t_hash s) \<union> {t_next s}"
          "link_val h (t_next s) = ?f" by blast
      from strtab.insert_assoc [OF ok fresh _ h(1)] absent have
        m: "strtab.distinct_keys h" "strtab.assoc h = (strtab.assoc (t_hash s))(k \<mapsto> ?f)" by (auto simp: files_def)
      have g: "get_entry_file tempnam s dir k = Some (s1\<lparr>t_hash := h, t_next := t_next s + 1\<rparr>, Some (t_next s))"
        using r \<open>r = None\<close> Some h(1) s1 by (simp add: get_entry_file_def s1_def [symmetric] Let_def)
      show ?thesis
        by (rule made [OF g, of ?f]) (use assms h m s1 absent Some in \<open>auto simp: tmp_ok_def files_def\<close>)
    qed
  qed
qed

lemma update_file_ok:
  assumes "tmp_ok s" and "hash_key url client_addr = Some k" and "buf \<noteq> []"
  obtains (failed) s' where "update_file tempnam s dir url client_addr buf len = Some (s', None)" "tmp_ok s'"
  | (written) s' f n where "update_file tempnam s dir url client_addr buf len = Some (s', Some (filename f))" "tmp_ok s'"
      "files s' = (files s)(k \<mapsto> f)" "files s k = None \<or> files s k = Some f"
      "fs_node (t_fs s') (filename f) = Some n" "\<not> deny (t_fs s') (comps (filename f))"
      "files s k = Some f \<longrightarrow> idata n = fs_data (t_fs s) (filename f) @ (if hd buf = CHR '' '' then [] else take len buf)"
      "files s k = None \<longrightarrow> (\<forall>fs d p x. tempnam fs d p = Some x \<longrightarrow> fs_node fs x = None)
         \<longrightarrow> idata n = (if hd buf = CHR '' '' then [] else take len buf)"
proof -
  have step: thesis
    if e: "get_entry_file tempnam s dir k = Some (s1, Some a)" and ok: "tmp_ok s1" and v: "link_val (t_hash s1) a = f"
      and m: "files s1 = (files s)(k \<mapsto> f)" "files s k = None \<or> files s k = Some f" "files s k = Some f \<Longrightarrow> s1 = s"
      and nm: "files s k = None \<Longrightarrow> tempnam (t_fs s1) dir ''file'' = Some (filename f)" for s1 a f
  proof -
    let ?fs = "(t_fs s1)\<lparr>fumask := 0x3F\<rparr>"
    let ?d = "if hd buf = CHR '' '' then [] else take len buf"
    have same: "fs_data ?fs p = fs_data (t_fs s1) p" "fs_node ?fs p = fs_node (t_fs s1) p" for p
      by (simp_all add: fs_data_def fs_node_def)
    have inv: "tmp_ok (s1\<lparr>t_fs := fs\<rparr>)" "files (s1\<lparr>t_fs := fs\<rparr>) = files s1" for fs
      using ok by (simp_all add: tmp_ok_def files_def)
    show thesis
    proof (cases "fs_open_write ?fs (filename f) False")
      case None
      then have "update_file tempnam s dir url client_addr buf len = Some (s1\<lparr>t_fs := ?fs\<rparr>, None)"
        using assms e v by (simp add: update_file_def Let_def)
      then show thesis using failed inv by blast
    next
      case (Some fs')
      have noap: "fs_append fs' (filename f) [] = fs'"
        using open_append [OF Some] by (auto simp: fs_append_def fun_upd_idem)
      then have upd: "update_file tempnam s dir url client_addr buf len
          = Some (s1\<lparr>t_fs := fs_append fs' (filename f) ?d\<rparr>, Some (filename f))"
        using assms e v Some by (simp add: update_file_def Let_def)
      from append_data [OF Some, of ?d] obtain n where
        n: "fs_node (fs_append fs' (filename f) ?d) (filename f) = Some n" "idata n = fs_data (t_fs s1) (filename f) @ ?d"
          "deny (fs_append fs' (filename f) ?d) = deny fs'" using same by auto
      show thesis
      proof (rule written [OF upd])
        show "files s k = None \<longrightarrow> (\<forall>fs d p x. tempnam fs d p = Some x \<longrightarrow> fs_node fs x = None) \<longrightarrow> idata n = ?d"
          using n(2) nm by (auto simp: fs_data_def)
      qed (use inv m n open_append(4) [OF Some] in auto)
    qed
  qed
  from assms(1) show thesis
  proof (cases rule: get_entry_file_ok [of s tempnam dir k])
    case (no_name s')
    then have "update_file tempnam s dir url client_addr buf len = Some (s', None)"
      using assms by (simp add: update_file_def)
    then show thesis using failed no_name by blast
  next
    case (found a f)
    show thesis by (rule step [OF found(1) assms(1) found(3)]) (use found in \<open>simp_all add: fun_upd_idem\<close>)
  next
    case (made s' a f)
    show thesis by (rule step [OF made(1,2,5,4)]) (use made in simp_all)
  qed
qed

lemma tmp_ok_init: "tmp_ok \<lparr>t_fs = fs, t_hash = fst init_hash, t_next = n\<rparr> \<and> files \<lparr>t_fs = fs, t_hash = fst init_hash, t_next = n\<rparr> = Map.empty"
proof -
  have inv: "hash_inv (fst init_hash) (replicate 229 [])"
    using hash_inv_create [of hash4 strcmp 229 "\<lambda>_. None"] hash4_less by (simp add: init_hash_def)
  then have none: "link_set (fst init_hash) = {}" by (simp add: link_set_eq)
  have str: "str_inv (fst init_hash)" using inv by (auto simp: str_inv_def init_hash_def hash_create_def)
  have d: "strtab.distinct_keys (fst init_hash)" using none by (simp add: strtab.distinct_keys_def)
  have "strtab.assoc (fst init_hash) k = None" for k
    using strtab.assoc_iff [OF str d, of k] none by (metis empty_iff option.exhaust)
  with str d none show ?thesis by (auto simp: tmp_ok_def files_def)
qed

end
