(* ===== verification/ModuleHost.thy ===== *)
theory ModuleHost
  imports UrlEscape HttpHeader
begin

text \<open>
  The filtering hooks of the proxy (\<^verbatim>\<open>squid-mybox/src/module.c\<close>): content type matching, the URL cleaner,
  and the functions through which the proxy core runs the chains of filter modules on a request, a
  header, a content type and the blocks of a reply.

  The filter functions of the modules are a parameter: a chain is a list of modules, each with its
  trigger and its filter, which works on a world \<open>'w\<close> that holds whatever state the modules have
  (their pattern files, the temporary files of the virus filter and so on).
\<close>

section \<open>Content types\<close>

fun canon_loop :: "string \<Rightarrow> string" where
  "canon_loop [] = []"
| "canon_loop (c # p) = (if c = CHR '';'' then [] else tolower c # canon_loop p)"

definition canonType :: "cptr \<Rightarrow> cptr" where
  "canonType t = (case t of None \<Rightarrow> None | Some t \<Rightarrow> Some (canon_loop t))"

fun mt_loop :: "string \<Rightarrow> string \<Rightarrow> bool" where
  "mt_loop [] tr = (tr = [])"
| "mt_loop (c # ct) [] = False"
| "mt_loop (c # ct) (t # tr) =
     (if t = CHR ''*'' then True else if c \<noteq> t then False else mt_loop ct tr)"

definition mtmatch :: "string \<Rightarrow> string \<Rightarrow> bool" where
  "mtmatch ct tr =
     (if take 2 tr = ''*/'' then
        (let ct = dropWhile (\<lambda>c. c \<noteq> CHR ''/'') ct in
         mt_loop (case ct of [] \<Rightarrow> [] | c # cs \<Rightarrow> cs) (drop 2 tr))
      else mt_loop ct tr)"

section \<open>The URL cleaner\<close>

definition MAX_URL :: nat where "MAX_URL = 4096"

fun stringHasCntl :: "string \<Rightarrow> bool" where
  "stringHasCntl [] = False"
| "stringHasCntl (c # s) =
     (if ord c \<le> 0x1f then True else if ord c \<ge> 0x7f \<and> ord c \<le> 0x9f then True else stringHasCntl s)"

definition xstrncpy :: "string \<Rightarrow> nat \<Rightarrow> string" where
  \<comment> \<open>what the destination holds afterwards, for a size \<open>n > 0\<close>\<close>
  "xstrncpy src n = take (n - 1) src"

text \<open>\<open>b\<close> is the size of the static buffer of the escaping function.\<close>

definition moduleUrlClean :: "bool \<Rightarrow> nat \<Rightarrow> string \<Rightarrow> nat \<times> string option" where
  "moduleUrlClean strip_query_terms b uri =
     (let buf = xstrncpy uri MAX_URL;
          buf = (if strip_query_terms then
                   (case strchr buf (CHR ''?'') of None \<Rightarrow> buf | Some p \<Rightarrow> take (p + 1) buf)
                 else buf)
      in if stringHasCntl buf then rfc1738_escape_unescaped b buf else (b, Some buf))"

section \<open>The chains\<close>

datatype squidFilterType =
  FIL_DUMMY | FIL_AUTH | FIL_REDIRECT | FIL_REQHEADER | FIL_REPHEADER | FIL_REJECTTYPE | FIL_CONTFILTER

definition fil_index :: "squidFilterType \<Rightarrow> nat" where
  \<comment> \<open>the values of the enumeration\<close>
  "fil_index t =
     (case t of FIL_DUMMY \<Rightarrow> 0 | FIL_AUTH \<Rightarrow> 1 | FIL_REDIRECT \<Rightarrow> 2 | FIL_REQHEADER \<Rightarrow> 3
      | FIL_REPHEADER \<Rightarrow> 4 | FIL_REJECTTYPE \<Rightarrow> 5 | FIL_CONTFILTER \<Rightarrow> 6)"

definition FIL_END :: nat where "FIL_END = 7"

lemma fil_index_inj [simp]: "fil_index s = fil_index t \<longleftrightarrow> s = t"
  by (cases s; cases t) (simp_all add: fil_index_def)

lemma fil_index_less [simp]: "fil_index t < FIL_END"
  by (cases t) (simp_all add: fil_index_def FIL_END_def)

instantiation squidFilterType :: linorder
begin

definition less_eq_squidFilterType :: "squidFilterType \<Rightarrow> squidFilterType \<Rightarrow> bool" where
  "s \<le> t \<longleftrightarrow> fil_index s \<le> fil_index t"

definition less_squidFilterType :: "squidFilterType \<Rightarrow> squidFilterType \<Rightarrow> bool" where
  "s < t \<longleftrightarrow> fil_index s < fil_index t"

instance
  by standard (auto simp: less_eq_squidFilterType_def less_squidFilterType_def)

end

record redParam =
  rd_uri :: string
  rd_client_addr :: cptr
  rd_auth_user :: cptr

record typParam =
  tp_uri :: string
  tp_typ :: cptr
  tp_client_addr :: cptr
  tp_auth_user :: cptr

record hdrParam =
  hp_uri :: string
  hp_client_addr :: cptr
  hp_auth_user :: cptr

record repParam =
  rp_uri :: string
  rp_content_length :: int
  rp_client_addr :: cptr
  rp_content_type :: cptr
  rp_auth_user :: cptr

text \<open>A module of a chain: its trigger and its filter function, for an argument \<open>'a\<close> and a result \<open>'r\<close>.\<close>

record ('w, 'a, 'r) chained =
  trigger :: string
  filt :: "'w \<Rightarrow> 'a \<Rightarrow> 'w \<times> 'r"

section \<open>Redirection, content types and headers\<close>

fun redirect_loop :: "('w, redParam, cptr) chained list \<Rightarrow> redParam \<Rightarrow> 'w \<Rightarrow> string \<Rightarrow> 'w \<times> string" where
  "redirect_loop [] rd w res = (w, res)"
| "redirect_loop (f # fs) rd w res =
     (case filt f w rd of
        (w, tmp) \<Rightarrow> redirect_loop fs rd w (case tmp of None \<Rightarrow> res | Some t \<Rightarrow> t))"

definition moduleRedirect :: "('w, redParam, cptr) chained list \<Rightarrow> 'w \<Rightarrow> string \<Rightarrow> cptr \<Rightarrow> cptr \<Rightarrow> 'w \<times> string" where
  "moduleRedirect chain w uri client_addr auth_user =
     redirect_loop chain \<lparr>rd_uri = uri, rd_client_addr = client_addr, rd_auth_user = auth_user\<rparr> w uri"

text \<open>The answer NULL of \<open>moduleRejecttype\<close> rejects the reply.\<close>

fun rejecttype_loop :: "('w, typParam, cptr) chained list \<Rightarrow> typParam \<Rightarrow> 'w \<Rightarrow> cptr \<Rightarrow> 'w \<times> cptr" where
  "rejecttype_loop [] tp w r = (w, r)"
| "rejecttype_loop (f # fs) tp w r =
     (if trigger f = [] \<or> (case tp_typ tp of None \<Rightarrow> False | Some t \<Rightarrow> mtmatch t (trigger f))
      then filt f w tp
      else rejecttype_loop fs tp w r)"

definition moduleRejecttype ::
    "('w, typParam, cptr) chained list \<Rightarrow> 'w \<Rightarrow> cptr \<Rightarrow> string \<Rightarrow> cptr \<Rightarrow> cptr \<Rightarrow> 'w \<times> cptr" where
  "moduleRejecttype chain w typ uri client_addr auth_user =
     rejecttype_loop chain
       \<lparr>tp_uri = uri, tp_typ = canonType typ, tp_client_addr = client_addr, tp_auth_user = auth_user\<rparr> w (Some uri)"

text \<open>
  The header hooks: the filters change the header in place. \<open>None\<close> as the header a filter returns is a
  failed assertion in a header operation. \<open>moduleRepHeader\<close> does not set the client address and the user
  name of the parameter block; \<open>junk\<close> stands for what is on the stack there.
\<close>

fun header_loop ::
    "('w, hdrParam \<times> http_header, http_header option) chained list \<Rightarrow> hdrParam \<Rightarrow> 'w \<Rightarrow> http_header \<Rightarrow> 'w \<times> http_header option" where
  "header_loop [] hp w hdr = (w, Some hdr)"
| "header_loop (f # fs) hp w hdr =
     (case filt f w (hp, hdr) of
        (w, None) \<Rightarrow> (w, None)
      | (w, Some hdr) \<Rightarrow> header_loop fs hp w hdr)"

definition moduleReqHeader ::
    "('w, hdrParam \<times> http_header, http_header option) chained list \<Rightarrow> 'w \<Rightarrow> string \<Rightarrow> http_header \<Rightarrow> cptr \<Rightarrow> cptr
     \<Rightarrow> 'w \<times> http_header option" where
  "moduleReqHeader chain w uri hdr client_addr auth_user =
     header_loop chain \<lparr>hp_uri = uri, hp_client_addr = client_addr, hp_auth_user = auth_user\<rparr> w hdr"

definition moduleRepHeader ::
    "('w, hdrParam \<times> http_header, http_header option) chained list \<Rightarrow> cptr \<times> cptr \<Rightarrow> 'w \<Rightarrow> string \<Rightarrow> http_header
     \<Rightarrow> 'w \<times> http_header option" where
  "moduleRepHeader chain junk w uri hdr =
     header_loop chain \<lparr>hp_uri = uri, hp_client_addr = fst junk, hp_auth_user = snd junk\<rparr> w hdr"

section \<open>Content filters\<close>

record 's filterObject =
  fo_state :: 's
  fo_owner :: nat      \<comment> \<open>the position of the owning module in the chain\<close>
  fo_uri :: string

fun cfilter_new_loop ::
    "('w, repParam, 's option) chained list \<Rightarrow> nat \<Rightarrow> string \<Rightarrow> repParam \<Rightarrow> 'w \<Rightarrow> 'w \<times> 's filterObject list" where
  "cfilter_new_loop [] k tt rp w = (w, [])"
| "cfilter_new_loop (f # fs) k tt rp w =
     (if mtmatch tt (trigger f) then
        (case filt f w rp of
           (w, None) \<Rightarrow> cfilter_new_loop fs (k + 1) tt rp w
         | (w, Some n) \<Rightarrow>
             (case cfilter_new_loop fs (k + 1) tt rp w of
                (w, fo) \<Rightarrow> (w, \<lparr>fo_state = n, fo_owner = k, fo_uri = rp_uri rp\<rparr> # fo)))
      else cfilter_new_loop fs (k + 1) tt rp w)"

text \<open>The result is the chain of filter objects, empty for NULL.\<close>

definition moduleCFilterNew ::
    "('w, repParam, 's option) chained list \<Rightarrow> 'w \<Rightarrow> cptr \<Rightarrow> string \<Rightarrow> int \<Rightarrow> cptr \<Rightarrow> cptr \<Rightarrow> cptr
     \<Rightarrow> 'w \<times> 's filterObject list" where
  "moduleCFilterNew chain w typ uri content_length client_addr content_type auth_user =
     (case canonType typ of
        None \<Rightarrow> (w, [])
      | Some tt \<Rightarrow>
          cfilter_new_loop chain 0 tt
            \<lparr>rp_uri = uri, rp_content_length = content_length, rp_client_addr = client_addr,
             rp_content_type = content_type, rp_auth_user = auth_user\<rparr> w)"

text \<open>
  Running the filter objects on a block. A filter gets the block and its length (\<open>-1\<close> at the end of the
  reply) and delivers its return value and the bytes it appends to its target. Two temporary buffers are
  used in turn; \<open>buf\<close> points to the caller's block or to one of them.
\<close>

type_synonym ('w, 's) run = "'w \<Rightarrow> 's \<Rightarrow> bytes \<Rightarrow> int \<Rightarrow> 'w \<times> 's \<times> int \<times> bytes"

datatype bufref = Given bytes | Tmp bool

fun buf_bytes :: "(bool \<Rightarrow> bytes) \<Rightarrow> bufref \<Rightarrow> bytes" where
  "buf_bytes tmp (Given b) = b"
| "buf_bytes tmp (Tmp i) = tmp i"

fun mcf_loop :: "('w, 's) run \<Rightarrow> 'w \<Rightarrow> 's list \<Rightarrow> (bool \<Rightarrow> bytes) \<Rightarrow> bool \<Rightarrow> bufref \<Rightarrow> int \<Rightarrow> bytes
    \<Rightarrow> 'w \<times> 's list \<times> int \<times> bytes" where
  "mcf_loop run w [] tmp i buf len target = (w, [], 0, target)"
| "mcf_loop run w [f] tmp i buf len target =
     (case run w f (buf_bytes tmp buf) len of
        (w, f, r, out) \<Rightarrow> (w, [f], if r < 0 then - 1 else 0, target @ out))"
| "mcf_loop run w (f # g # fs) tmp i buf len target =
     (let tmp = tmp(i := []) in
      case run w f (buf_bytes tmp buf) len of
        (w, f, r, out) \<Rightarrow>
          (let tmp = tmp(i := tmp i @ out) in
           if r < 0 then (w, f # g # fs, - 1, target)
           else
             (case mcf_loop run w (g # fs) tmp (\<not> i) (Tmp i) (int (length (tmp i))) target of
                (w, gs, r, target) \<Rightarrow> (w, f # gs, r, target))))"

definition moduleCFilter :: "('w, 's) run \<Rightarrow> 'w \<Rightarrow> 's list \<Rightarrow> bytes \<Rightarrow> bytes \<Rightarrow> int \<Rightarrow> 'w \<times> 's list \<times> int \<times> bytes" where
  "moduleCFilter run w flt target buf len =
     mcf_loop run w flt (\<lambda>_. []) False (Given buf) len target"

section \<open>The pipeline of content filters\<close>

text \<open>The abstract view: each filter's output is the next one's block; a negative result ends it.\<close>

fun pipe :: "('w, 's) run \<Rightarrow> 'w \<Rightarrow> 's list \<Rightarrow> bytes \<Rightarrow> int \<Rightarrow> 'w \<times> 's list \<times> bytes option" where
  "pipe run w [] b n = (w, [], Some b)"
| "pipe run w (f # fs) b n =
     (case run w f b n of
        (w, f, r, out) \<Rightarrow>
          (if r < 0 then (w, f # fs, None)
           else (case pipe run w fs out (int (length out)) of (w, fs, res) \<Rightarrow> (w, f # fs, res))))"

lemma mcf_loop_pipe:
  assumes "fs \<noteq> []" and "buf = Given b \<or> buf = Tmp (\<not> i) \<and> tmp (\<not> i) = b"
    and "pipe run w fs b n = (w', fs', res)"
  shows "\<exists>target'. mcf_loop run w fs tmp i buf n target = (w', fs', if res = None then - 1 else 0, target')
           \<and> (\<forall>out. res = Some out \<longrightarrow> target' = target @ out)"
  using assms
proof (induction run w fs tmp i buf n target arbitrary: b w' fs' res rule: mcf_loop.induct)
  case (2 run w f tmp i buf len target)
  then have "buf_bytes tmp buf = b" by auto
  with 2 show ?case by (auto split: prod.splits if_splits)
next
  case (3 run w f g fs tmp i buf len target)
  obtain w1 f1 r out where run: "run w f b len = (w1, f1, r, out)" by (metis prod_cases4)
  have b: "buf_bytes (tmp(i := [])) buf = b" using 3(3) by auto
  from run b have runb: "run w f (buf_bytes (tmp(i := [])) buf) len = (w1, f1, r, out)" by simp
  show ?case
  proof (cases "r < 0")
    case True
    with run b 3(4) show ?thesis by (auto simp: Let_def)
  next
    case False
    obtain w2 gs res' where p: "pipe run w1 (g # fs) out (int (length out)) = (w2, gs, res')" by (metis prod_cases3)
    let ?tmp = "tmp(i := out)"
    from p have "\<exists>target'. mcf_loop run w1 (g # fs) ?tmp (\<not> i) (Tmp i) (int (length out)) target
        = (w2, gs, if res' = None then - 1 else 0, target') \<and> (\<forall>o'. res' = Some o' \<longrightarrow> target' = target @ o')"
      using 3(1) [OF refl runb [symmetric] refl refl refl False, of out w2 gs res']
      by (simp del: fun_upd_apply add: fun_upd_same)
    with run b p False 3(4) show ?thesis by (auto simp: Let_def)
  qed
qed simp

text \<open>
  A contract that pipelines inherit: each filter accepts every block and keeps its length. The part of
  the world that filters keep invariant is \<open>inv\<close>, over the world and a filter's state.
\<close>

locale length_keeping =
  fixes run :: "('w, 's) run" and inv :: "'w \<Rightarrow> 's \<Rightarrow> bool"
  assumes run_keeps: "inv w f \<Longrightarrow> n = int (length b) \<Longrightarrow> run w f b n = (w', f', r, out) \<Longrightarrow> 0 \<le> r \<Longrightarrow> length out = length b"
    and run_inv: "inv w f \<Longrightarrow> n = int (length b) \<Longrightarrow> run w f b n = (w', f', r, out) \<Longrightarrow>
      inv w' f' \<and> (\<forall>g. inv w g \<longrightarrow> inv w' g)"
begin

lemma pipe_keeps:
  "\<forall>f \<in> set fs. inv w f \<Longrightarrow> pipe run w fs b (int (length b)) = (w', fs', res) \<Longrightarrow>
   (\<forall>f \<in> set fs'. inv w' f) \<and> (\<forall>g. inv w g \<longrightarrow> inv w' g) \<and> (\<forall>out. res = Some out \<longrightarrow> length out = length b)"
proof (induction fs arbitrary: w b w' fs' res)
  case (Cons f fs)
  obtain w1 f1 r out where run: "run w f b (int (length b)) = (w1, f1, r, out)" by (metis prod_cases4)
  from run_inv [OF _ refl run] Cons.prems have i: "inv w1 f1" "\<forall>g. inv w g \<longrightarrow> inv w1 g" by auto
  show ?case
  proof (cases "r < 0")
    case True
    with run i Cons.prems show ?thesis by auto
  next
    case False
    with run_keeps [OF _ refl run] Cons.prems have len: "length out = length b" by simp
    obtain w2 gs res' where p: "pipe run w1 fs out (int (length out)) = (w2, gs, res')" by (metis prod_cases3)
    from Cons.IH [OF _ p] i Cons.prems have "(\<forall>f \<in> set gs. inv w2 f) \<and> (\<forall>g. inv w1 g \<longrightarrow> inv w2 g)
        \<and> (\<forall>o'. res' = Some o' \<longrightarrow> length o' = length out)" by auto
    with run p False len i Cons.prems show ?thesis by auto
  qed
qed auto

end

section \<open>Properties\<close>

lemma mt_loop_iff:
  "mt_loop ct tr \<longleftrightarrow>
     ct = tr \<and> CHR ''*'' \<notin> set tr
     \<or> (\<exists>p c q s. ct = p @ c # q \<and> tr = p @ CHR ''*'' # s \<and> CHR ''*'' \<notin> set p)"
proof (induction ct tr rule: mt_loop.induct)
  case (3 c ct t tr)
  show ?case
  proof (cases "t = CHR ''*''")
    case True
    then have "c # ct = [] @ c # ct \<and> t # tr = [] @ CHR ''*'' # tr \<and> CHR ''*'' \<notin> set []" by simp
    then have "\<exists>p d q s. c # ct = p @ d # q \<and> t # tr = p @ CHR ''*'' # s \<and> CHR ''*'' \<notin> set p" by blast
    with True show ?thesis by simp
  next
    case t: False
    show ?thesis
    proof (cases "c = t")
      case True
      have "(\<exists>p d q s. c # ct = p @ d # q \<and> t # tr = p @ CHR ''*'' # s \<and> CHR ''*'' \<notin> set p)
          = (\<exists>p d q s. ct = p @ d # q \<and> tr = p @ CHR ''*'' # s \<and> CHR ''*'' \<notin> set p)" (is "?l = ?r")
      proof
        assume ?l
        then obtain p d q s where "c # ct = p @ d # q" "t # tr = p @ CHR ''*'' # s" "CHR ''*'' \<notin> set p" by blast
        with t show ?r by (cases p) auto
      next
        assume ?r
        then obtain p d q s where "ct = p @ d # q" "tr = p @ CHR ''*'' # s" "CHR ''*'' \<notin> set p" by blast
        with t True show ?l by (intro exI [of _ "c # p"]) auto
      qed
      with 3 t True show ?thesis by auto
    next
      case False
      with t show ?thesis by (auto simp: Cons_eq_append_conv)
    qed
  qed
qed (auto simp: append_eq_Cons_conv)

text \<open>
  Content type matching. A reply's content type, cut at the first semicolon and in lower case,
  matches a trigger exactly when they are equal, or when the trigger has a \<open>*\<close> and the type continues
  what stands before the first one with at least one byte; if the trigger starts with \<open>*/\<close>, only the
  parts after the slash count.
\<close>

theorem content_type_match:
  "(mtmatch ct tr \<longleftrightarrow>
     (\<exists>ct' tr'.
        (if take 2 tr = ''*/'' then ct' = drop 1 (dropWhile (\<lambda>c. c \<noteq> CHR ''/'') ct) \<and> tr' = drop 2 tr
         else ct' = ct \<and> tr' = tr) \<and>
        (ct' = tr' \<and> CHR ''*'' \<notin> set tr'
         \<or> (\<exists>p c q s. ct' = p @ c # q \<and> tr' = p @ CHR ''*'' # s \<and> CHR ''*'' \<notin> set p))))
   \<and> canonType (Some t) = Some (map tolower (takeWhile (\<lambda>c. c \<noteq> CHR '';'') t))"
proof
  have "(case xs of [] \<Rightarrow> [] | c # cs \<Rightarrow> cs) = drop 1 xs" for xs :: string by (cases xs) auto
  then show "mtmatch ct tr \<longleftrightarrow>
     (\<exists>ct' tr'.
        (if take 2 tr = ''*/'' then ct' = drop 1 (dropWhile (\<lambda>c. c \<noteq> CHR ''/'') ct) \<and> tr' = drop 2 tr
         else ct' = ct \<and> tr' = tr) \<and>
        (ct' = tr' \<and> CHR ''*'' \<notin> set tr'
         \<or> (\<exists>p c q s. ct' = p @ c # q \<and> tr' = p @ CHR ''*'' # s \<and> CHR ''*'' \<notin> set p)))"
    unfolding mtmatch_def by (simp add: mt_loop_iff Let_def)
  have "canon_loop t = map tolower (takeWhile (\<lambda>c. c \<noteq> CHR '';'') t)" by (induction t) auto
  then show "canonType (Some t) = Some (map tolower (takeWhile (\<lambda>c. c \<noteq> CHR '';'') t))" by (simp add: canonType_def)
qed

lemma stringHasCntl_iff: "stringHasCntl s \<longleftrightarrow> (\<exists>c \<in> set s. ord c \<le> 0x1f \<or> 0x7f \<le> ord c \<and> ord c \<le> 0x9f)"
  by (induction s) auto

lemma esc_length: "length (esc er s) \<le> 3 * length s"
  by (induction s) (auto simp: triplet_def)

lemma hexdigit_query: "n < 16 \<Longrightarrow> hexdigit n \<noteq> CHR ''?''"
  by (auto simp: hexdigit_def char_eq_ord) (auto simp: ord_def)

lemma esc_query: "CHR ''?'' \<notin> set (butlast s) \<Longrightarrow> CHR ''?'' \<notin> set (butlast (esc er s))"
proof (cases s rule: rev_cases)
  case (snoc x c)
  assume a: "CHR ''?'' \<notin> set (butlast s)"
  have tr: "CHR ''?'' \<notin> set (triplet d)" for d
    using hexdigit_query [of "ord d div 16"] hexdigit_query [of "ord d mod 16"]
    by (auto simp: triplet_def less_mult_imp_div_less dest: sym)
  have "CHR ''?'' \<notin> set (esc er y)" if "CHR ''?'' \<notin> set y" for y
    using that tr by (induction y) auto
  with a snoc have "CHR ''?'' \<notin> set (esc er x)" by simp
  moreover have "esc er s = esc er x @ (if do_escape er c then triplet c else [c])" by (simp add: snoc esc_def)
  ultimately show ?thesis using tr [of c] by (auto simp: butlast_append dest: in_set_butlastD)
qed simp

text \<open>
  The URL cleaner, whose result goes into log lines and file names, always delivers a string of
  bounded length without control characters; a URL of at most 4095 bytes without control characters is
  kept, up to its query when queries are stripped.
\<close>

theorem url_clean_correct:
  assumes "b = 0 \<or> b mod 3 = 1"
  shows "\<exists>b' r. moduleUrlClean strip b uri = (b', Some r) \<and> (b' = 0 \<or> b' mod 3 = 1)
           \<and> length r < 3 * MAX_URL \<and> \<not> stringHasCntl r
           \<and> (length uri < MAX_URL \<and> \<not> stringHasCntl uri \<and> (strip \<longrightarrow> CHR ''?'' \<notin> set uri) \<longrightarrow> r = uri)
           \<and> (strip \<longrightarrow> CHR ''?'' \<notin> set (butlast r))"
proof -
  define cut where "cut = (\<lambda>s. case strchr s (CHR ''?'') of None \<Rightarrow> s | Some p \<Rightarrow> take (p + 1) s)"
  define u where "u = (if strip then cut (xstrncpy uri MAX_URL) else xstrncpy uri MAX_URL)"
  have e: "moduleUrlClean strip b uri = (if stringHasCntl u then rfc1738_escape_unescaped b u else (b, Some u))"
    by (simp add: moduleUrlClean_def u_def cut_def Let_def)
  have len: "length u < MAX_URL"
    by (auto simp: u_def cut_def xstrncpy_def MAX_URL_def split: option.splits)
  have bl: "CHR ''?'' \<notin> set (butlast (cut s))" for s
    using strchr_Some [of s "CHR ''?''"]
    by (auto simp: cut_def butlast_take dest: in_set_butlastD split: option.splits)
  have same: "u = uri" if "length uri < MAX_URL" "strip \<longrightarrow> CHR ''?'' \<notin> set uri"
  proof -
    have "cut s = s" if "CHR ''?'' \<notin> set s" for s
    proof -
      from that have "strchr s (CHR ''?'') = None" by simp
      then show ?thesis unfolding cut_def by (simp only: option.case)
    qed
    with that show ?thesis by (simp add: u_def xstrncpy_def MAX_URL_def)
  qed
  show ?thesis
  proof (cases "stringHasCntl u")
    case False
    with e assms len same bl show ?thesis by (auto simp: u_def)
  next
    case True
    have eq: "rfc1738_escape_unescaped b u = (escape_bufsize b u, Some (esc (- 1) u))"
      by (simp add: rfc1738_escape_unescaped_def rfc1738_do_escape_eq [OF assms])
    have "\<not> stringHasCntl (esc (- 1) u)"
      using esc_unescaped_safe [of _ u] by (fastforce simp: stringHasCntl_iff do_escape_def)
    moreover have "length (esc (- 1) u) < 3 * MAX_URL" using esc_length [of "- 1" u] len by linarith
    moreover have "CHR ''?'' \<notin> set (butlast (esc (- 1) u))" if strip
      using that bl [of "xstrncpy uri MAX_URL"] by (intro esc_query) (simp add: u_def)
    moreover have "\<not> (length uri < MAX_URL \<and> \<not> stringHasCntl uri \<and> (strip \<longrightarrow> CHR ''?'' \<notin> set uri))"
      using same True by auto
    ultimately show ?thesis using e eq True rfc1738_do_escape_eq(2) [OF assms] by auto
  qed
qed

text \<open>
  How the hooks use a chain. A URL is redirected to the answer of the last filter that gives one, and
  every filter is asked about the original URL; a content type is decided by the first module whose
  trigger is empty or matches, the others are not asked; a header is passed through all the filters.
\<close>

theorem hook_dispatch:
  shows "moduleRedirect (fs @ [f]) w uri ca au =
      (case moduleRedirect fs w uri ca au of
         (w, res) \<Rightarrow> (case filt f w \<lparr>rd_uri = uri, rd_client_addr = ca, rd_auth_user = au\<rparr> of
                         (w, None) \<Rightarrow> (w, res) | (w, Some t) \<Rightarrow> (w, t)))
    \<and> moduleRejecttype ms w typ uri ca au =
      (case List.find (\<lambda>m. trigger m = [] \<or> (\<exists>t. canonType typ = Some t \<and> mtmatch t (trigger m))) ms of
         None \<Rightarrow> (w, Some uri)
       | Some m \<Rightarrow> filt m w \<lparr>tp_uri = uri, tp_typ = canonType typ, tp_client_addr = ca, tp_auth_user = au\<rparr>)
    \<and> moduleReqHeader (hs @ [h]) w uri hdr ca au =
      (case moduleReqHeader hs w uri hdr ca au of
         (w, None) \<Rightarrow> (w, None)
       | (w, Some hdr) \<Rightarrow> filt h w (\<lparr>hp_uri = uri, hp_client_addr = ca, hp_auth_user = au\<rparr>, hdr))"
proof (intro conjI)
  have "redirect_loop (fs @ [f]) rd w res =
      (case redirect_loop fs rd w res of (w, res) \<Rightarrow>
        (case filt f w rd of (w, None) \<Rightarrow> (w, res) | (w, Some t) \<Rightarrow> (w, t)))" for rd res
    by (induction fs arbitrary: w res) (auto split: prod.splits option.splits)
  then show "moduleRedirect (fs @ [f]) w uri ca au =
      (case moduleRedirect fs w uri ca au of
         (w, res) \<Rightarrow> (case filt f w \<lparr>rd_uri = uri, rd_client_addr = ca, rd_auth_user = au\<rparr> of
                         (w, None) \<Rightarrow> (w, res) | (w, Some t) \<Rightarrow> (w, t)))" by (simp add: moduleRedirect_def)
  have "rejecttype_loop ms tp w r =
      (case List.find (\<lambda>m. trigger m = [] \<or> (\<exists>t. tp_typ tp = Some t \<and> mtmatch t (trigger m))) ms of
         None \<Rightarrow> (w, r) | Some m \<Rightarrow> filt m w tp)" for tp r
    by (induction ms) (auto split: option.splits)
  then show "moduleRejecttype ms w typ uri ca au =
      (case List.find (\<lambda>m. trigger m = [] \<or> (\<exists>t. canonType typ = Some t \<and> mtmatch t (trigger m))) ms of
         None \<Rightarrow> (w, Some uri)
       | Some m \<Rightarrow> filt m w \<lparr>tp_uri = uri, tp_typ = canonType typ, tp_client_addr = ca, tp_auth_user = au\<rparr>)"
    by (simp add: moduleRejecttype_def)
  have "header_loop (hs @ [h]) hp w hdr =
      (case header_loop hs hp w hdr of (w, None) \<Rightarrow> (w, None) | (w, Some hdr) \<Rightarrow> filt h w (hp, hdr))" for hp
    by (induction hs arbitrary: w hdr) (auto split: prod.splits option.splits)
  then show "moduleReqHeader (hs @ [h]) w uri hdr ca au =
      (case moduleReqHeader hs w uri hdr ca au of
         (w, None) \<Rightarrow> (w, None)
       | (w, Some hdr) \<Rightarrow> filt h w (\<lparr>hp_uri = uri, hp_client_addr = ca, hp_auth_user = au\<rparr>, hdr))"
    by (simp add: moduleReqHeader_def)
qed

text \<open>
  C20. Running a chain of content filters on a block is the composition of the filters: the two temporary
  buffers used in turn never overwrite the block a filter is reading, a negative result of any filter
  aborts the block, and otherwise exactly the last filter's output reaches the target. In particular the
  end-of-reply mark \<open>-1\<close> is seen by the first filter only: the others get the size of the output
  before them.
\<close>

theorem content_filter_pipeline:
  assumes "fs \<noteq> []" and "moduleCFilter run w fs target b n = (w', fs', r, target')"
  shows "\<exists>res. pipe run w fs b n = (w', fs', res) \<and> r = (if res = None then - 1 else 0)
           \<and> (\<forall>out. res = Some out \<longrightarrow> target' = target @ out)"
proof -
  obtain v gs res where p: "pipe run w fs b n = (v, gs, res)" by (metis prod_cases3)
  from mcf_loop_pipe [OF assms(1) _ p, of "Given b" False "\<lambda>_. []" target] assms(2) p
  show ?thesis by (auto simp: moduleCFilter_def)
qed

theorem content_filter_pipeline_witness:
  "\<exists>res. pipe (\<lambda>w f b n. (w, f, 0, f # b)) () [CHR ''a'', CHR ''b''] ''x'' 1 = ((), [CHR ''a'', CHR ''b''], res)
     \<and> res = Some ''bax''"
  using content_filter_pipeline [of "[CHR ''a'', CHR ''b'']" "\<lambda>w f b n. (w, f, 0, f # b)" "()" "[]" "''x''" 1]
  by (auto simp: moduleCFilter_def)

theorem url_clean_correct_witness:
  "\<exists>b r. moduleUrlClean True 0 (''http://a/b?c=d'' @ [CHR 0x0A]) = (b, Some r) \<and> \<not> stringHasCntl r"
  using url_clean_correct [of 0 True "''http://a/b?c=d'' @ [CHR 0x0A]"] by blast

end
