(* ===== verification/CfMods.thy ===== *)
theory CfMods
  imports ModuleHost PatFile FileSys CfContent
begin

text \<open>
  The small filter modules: the cookie blocker (\<^verbatim>\<open>cfmod_cookies.c\<close>), the two content type filters
  (\<^verbatim>\<open>cfmod_allowtype.c\<close>, \<^verbatim>\<open>cfmod_rejecttype.c\<close>), the redirector (\<^verbatim>\<open>cfmod_redirect.c\<close>) and the constructor and
  registration of the HTML filter (\<^verbatim>\<open>cfmod_htmlfilter.c\<close>). Each is a filter function over the module's
  pattern file, an optional object that is reloaded before each question, and a \<open>moduleInit\<close>, which
  yields the module objects it registers.
\<close>

section \<open>Asking the pattern file\<close>

record 're pat_lib =
  pl_env :: file_env
  pl_rcomp :: "'re regcomp"
  pl_rexec :: "'re regexec"

definition reload :: "'re pat_lib \<Rightarrow> 're patFileObject \<Rightarrow> 're patFileObject" where
  "reload pl p = patfileCheckReload (pl_env pl) (pl_rcomp pl) p"

definition pmatch :: "'re pat_lib \<Rightarrow> 're patFileObject \<Rightarrow> string \<Rightarrow> crash + 're patFileObject \<times> cptr" where
  "pmatch pl p s = patfileMatch (pl_rexec pl) p s"

text \<open>
  The guard \<open>this->patFile && s && (patfileCheckReload(this->patFile), patfileMatch(this->patFile, s))\<close>
  of the filters.
\<close>

definition pf_ask :: "'re pat_lib \<Rightarrow> 're patFileObject option \<Rightarrow> cptr \<Rightarrow> crash + 're patFileObject option \<times> bool" where
  "pf_ask pl pf s =
     (case (pf, s) of
        (Some p, Some s) \<Rightarrow>
          (case pmatch pl (reload pl p) s of
             Inl c \<Rightarrow> Inl c
           | Inr (p, r) \<Rightarrow> Inr (Some p, r \<noteq> None))
      | _ \<Rightarrow> Inr (pf, False))"

fun sbind :: "'e + 'a \<Rightarrow> ('a \<Rightarrow> 'e + 'b) \<Rightarrow> 'e + 'b" where
  "sbind (Inl e) f = Inl e"
| "sbind (Inr a) f = f a"

lemma sbind_Inr: "sbind x f = Inr b \<Longrightarrow> (\<And>a. x = Inr a \<Longrightarrow> f a = Inr b \<Longrightarrow> thesis) \<Longrightarrow> thesis"
  by (cases x) auto

definition is_mybox :: "string \<Rightarrow> bool" where
  "is_mybox uri \<longleftrightarrow> strstr uri myboxuri \<noteq> None"

section \<open>Cookies\<close>

text \<open>
  The filters of requests and replies, which differ in the field they delete. The second component of
  the result is the header, \<open>None\<close> for a failed assertion.
\<close>

definition del_header :: "http_header \<Rightarrow> http_hdr_type \<Rightarrow> http_header option" where
  "del_header hdr i = map_option fst (httpHeaderDelById hdr i)"

definition cookieReqFilter :: "'re pat_lib \<Rightarrow> 're patFileObject option \<Rightarrow> hdrParam \<Rightarrow> http_header
    \<Rightarrow> crash + 're patFileObject option \<times> http_header option" where
  "cookieReqFilter pl pf hp hdr =
     (if is_mybox (hp_uri hp) then Inr (pf, Some hdr)
      else
        sbind (pf_ask pl pf (hp_client_addr hp)) (\<lambda>(pf, r). if r then Inr (pf, Some hdr) else
        sbind (pf_ask pl pf (hp_auth_user hp)) (\<lambda>(pf, r). if r then Inr (pf, Some hdr) else
        (case pf of
           None \<Rightarrow> Inr (pf, del_header hdr HDR_COOKIE)
         | Some p \<Rightarrow>
             sbind (pmatch pl (reload pl p) (hp_uri hp)) (\<lambda>(p, r).
               Inr (Some p, if r = None then del_header hdr HDR_COOKIE else Some hdr))))))"

definition cookieRepFilter :: "'re pat_lib \<Rightarrow> 're patFileObject option \<Rightarrow> hdrParam \<Rightarrow> http_header
    \<Rightarrow> crash + 're patFileObject option \<times> http_header option" where
  "cookieRepFilter pl pf hp hdr =
     (if is_mybox (hp_uri hp) then Inr (pf, Some hdr)
      else
        sbind (pf_ask pl pf (hp_client_addr hp)) (\<lambda>(pf, r). if r then Inr (pf, Some hdr) else
        sbind (pf_ask pl pf (hp_auth_user hp)) (\<lambda>(pf, r). if r then Inr (pf, Some hdr) else
        (case pf of
           None \<Rightarrow> Inr (pf, del_header hdr HDR_SET_COOKIE)
         | Some p \<Rightarrow>
             sbind (pmatch pl (reload pl p) (hp_uri hp)) (\<lambda>(p, r).
               Inr (Some p, if r = None then del_header hdr HDR_SET_COOKIE else Some hdr))))))"

section \<open>Content types\<close>

definition rejectFilter :: "'re pat_lib \<Rightarrow> 're patFileObject option \<Rightarrow> typParam \<Rightarrow> crash + 're patFileObject option \<times> cptr" where
  "rejectFilter pl pf tp =
     (if is_mybox (tp_uri tp) then Inr (pf, Some (tp_uri tp))
      else
        sbind (pf_ask pl pf (tp_client_addr tp)) (\<lambda>(pf, r). if r then Inr (pf, Some (tp_uri tp)) else
        sbind (pf_ask pl pf (tp_auth_user tp)) (\<lambda>(pf, r). if r then Inr (pf, Some (tp_uri tp)) else
        (case pf of
           None \<Rightarrow> Inr (pf, None)
         | Some p \<Rightarrow> sbind (pmatch pl (reload pl p) (tp_uri tp)) (\<lambda>(p, r). Inr (Some p, r))))))"

fun allowed_type :: "string \<Rightarrow> string list \<Rightarrow> bool" where
  "allowed_type x [] = False"
| "allowed_type x (w # ws) = (if mtmatch x w then True else allowed_type x ws)"

definition allowFilter :: "'re pat_lib \<Rightarrow> string list \<Rightarrow> 're patFileObject option \<Rightarrow> typParam
    \<Rightarrow> crash + 're patFileObject option \<times> cptr" where
  "allowFilter pl types pf tp =
     (if is_mybox (tp_uri tp) then Inr (pf, Some (tp_uri tp))
      else
        sbind (pf_ask pl pf (tp_client_addr tp)) (\<lambda>(pf, r). if r then Inr (pf, Some (tp_uri tp)) else
        sbind (pf_ask pl pf (tp_auth_user tp)) (\<lambda>(pf, r). if r then Inr (pf, Some (tp_uri tp)) else
        (if (case canonType (tp_typ tp) of None \<Rightarrow> False | Some x \<Rightarrow> allowed_type x types)
         then Inr (pf, Some (tp_uri tp))
         else
           (case pf of
              None \<Rightarrow> Inr (pf, None)
            | Some p \<Rightarrow> sbind (pmatch pl (reload pl p) (tp_uri tp)) (\<lambda>(p, r). Inr (Some p, r)))))))"

section \<open>Redirection\<close>

text \<open>The pattern file is always there: \<open>moduleInit\<close> registers the module only with one.\<close>

definition redirFilter :: "'re pat_lib \<Rightarrow> 're patFileObject \<Rightarrow> redParam \<Rightarrow> crash + 're patFileObject \<times> cptr" where
  "redirFilter pl p rd =
     (if is_mybox (rd_uri rd) then Inr (p, None)
      else
        sbind (if rd_client_addr rd \<noteq> None then pf_ask pl (Some p) (Some (rd_uri rd)) else Inr (Some p, False))
          (\<lambda>(pf, r). if r then Inr (the pf, None) else
        sbind (pf_ask pl pf (rd_client_addr rd)) (\<lambda>(pf, r). if r then Inr (the pf, None) else
        sbind (pf_ask pl pf (rd_auth_user rd)) (\<lambda>(pf, r). if r then Inr (the pf, None) else
        pmatch pl (reload pl (the pf)) (rd_uri rd)))))"

section \<open>Registration\<close>

definition MODULE_API_VERSION :: int where "MODULE_API_VERSION = 0xa040"

record 're registration =
  reg_typ :: squidFilterType
  reg_version :: int
  reg_description :: string
  reg_trigger :: cptr
  reg_patFile :: "'re patFileObject option"

definition cookies_init :: "string list \<Rightarrow> 're registration list" where
  "cookies_init args =
     (let pf = (case args of [] \<Rightarrow> None | a # as \<Rightarrow> Some (patfileNew a False)) in
      [\<lparr>reg_typ = FIL_REQHEADER, reg_version = MODULE_API_VERSION, reg_description = ''Cookie blocker'',
        reg_trigger = None, reg_patFile = pf\<rparr>,
       \<lparr>reg_typ = FIL_REPHEADER, reg_version = MODULE_API_VERSION, reg_description = ''Set-Cookie blocker'',
        reg_trigger = None, reg_patFile = pf\<rparr>])"

definition rejecttype_init :: "string list \<Rightarrow> 're registration list" where
  "rejecttype_init args =
     (case args of
        [] \<Rightarrow> []
      | t # args \<Rightarrow>
          [\<lparr>reg_typ = FIL_REJECTTYPE, reg_version = MODULE_API_VERSION, reg_description = ''Rejection by MIME type'',
            reg_trigger = Some t,
            reg_patFile = (case args of [] \<Rightarrow> None | a # as \<Rightarrow> Some (patfileNew a False))\<rparr>])"

text \<open>The loop over the arguments of \<open>cfmod_allowtype\<close>: the types, in reverse, and the pattern file.\<close>

fun allowtype_args :: "string list \<Rightarrow> string list \<Rightarrow> string list \<times> 're patFileObject option" where
  "allowtype_args [] types = (types, None)"
| "allowtype_args (a # args) types =
     (if a \<noteq> [] \<and> hd a = CHR ''/'' then (types, Some (patfileNew a False))
      else allowtype_args args (a # types))"

definition allowtype_init :: "string list \<Rightarrow> (string list \<times> 're registration) list" where
  "allowtype_init args =
     (if args = [] then []
      else
        (case allowtype_args args [] of
           (types, pf) \<Rightarrow>
             [(types, \<lparr>reg_typ = FIL_REJECTTYPE, reg_version = MODULE_API_VERSION,
                       reg_description = ''Rejection by MIME type'', reg_trigger = Some [], reg_patFile = pf\<rparr>)]))"

definition REDIRECTFILE :: string where "REDIRECTFILE = ''/etc/cf/redirect''"

definition redirect_init :: "fsys \<Rightarrow> 're registration list" where
  "redirect_init fs =
     (if cf_file_exists fs REDIRECTFILE then
        [\<lparr>reg_typ = FIL_REDIRECT, reg_version = MODULE_API_VERSION, reg_description = ''URI Redirector'',
          reg_trigger = None, reg_patFile = Some (patfileNew REDIRECTFILE True)\<rparr>]
      else [])"

section \<open>The HTML filter as a module\<close>

definition htmlContFilter :: "'re pat_lib \<Rightarrow> 're patFileObject option \<Rightarrow> repParam
    \<Rightarrow> crash + 're patFileObject option \<times> htmlFilterObject option" where
  "htmlContFilter pl pf rp =
     (if is_mybox (rp_uri rp) then Inr (pf, None)
      else
        sbind (pf_ask pl pf (Some (rp_uri rp))) (\<lambda>(pf, r). if r then Inr (pf, None) else
        sbind (pf_ask pl pf (rp_client_addr rp)) (\<lambda>(pf, r). if r then Inr (pf, None) else
        sbind (pf_ask pl pf (rp_auth_user rp)) (\<lambda>(pf, r). if r then Inr (pf, None) else
        Inr (pf, Some (html_new (rp_uri rp) (rp_content_length rp)))))))"

definition htmlfilterRegister :: "'re patFileObject option \<Rightarrow> string \<Rightarrow> 're registration" where
  "htmlfilterRegister pf description =
     \<lparr>reg_typ = FIL_CONTFILTER, reg_version = MODULE_API_VERSION, reg_description = description,
      reg_trigger = Some ''text/html'', reg_patFile = pf\<rparr>"

definition htmlfilter_init :: "'re registration list" where
  "htmlfilter_init =
     [\<lparr>reg_typ = FIL_DUMMY, reg_version = MODULE_API_VERSION, reg_description = ''HTML Filter Library'',
       reg_trigger = None, reg_patFile = None\<rparr>]"

text \<open>The \<open>moduleInit\<close> of the two filters built on the library; their expressions are part of the tag processing.\<close>

definition script_init :: "string list \<Rightarrow> 're registration list" where
  "script_init args =
     [htmlfilterRegister (case args of [] \<Rightarrow> None | a # as \<Rightarrow> Some (patfileNew a False)) ''Javascript filter'']"

definition ALLOWFILE :: string where "ALLOWFILE = ''/etc/cf/content.allow''"

definition content_init :: "fsys \<Rightarrow> string list \<Rightarrow> (scriptModuleObject \<times> 're registration) list" where
  "content_init fs args =
     (case content_options args of
        None \<Rightarrow> []
      | Some m \<Rightarrow>
          [(m, htmlfilterRegister (if cf_file_exists fs ALLOWFILE then Some (patfileNew ALLOWFILE False) else None)
                 ''Content removal filter'')])"

section \<open>What an allow list says\<close>

text \<open>
  The contract of the pattern files gives the filters their questions: \<open>allowed\<close> is the answer for one
  string, \<open>spared\<close> the decision a module bases on it for a request.
\<close>

definition allowed :: "'re pat_lib \<Rightarrow> 're patFileObject \<Rightarrow> string \<Rightarrow> bool" where
  "allowed pl p s \<longleftrightarrow> patfile.answer (pl_env pl) (pl_rcomp pl) (pl_rexec pl) p s \<noteq> None"

definition spared :: "'re pat_lib \<Rightarrow> 're patFileObject option \<Rightarrow> string \<Rightarrow> cptr \<Rightarrow> cptr \<Rightarrow> bool" where
  "spared pl pf uri addr user \<longleftrightarrow> is_mybox uri
     \<or> (\<exists>p s. pf = Some p \<and> allowed pl p s \<and> (s = uri \<or> addr = Some s \<or> user = Some s))"

definition allow_list :: "'re patFileObject option \<Rightarrow> bool" where
  "allow_list pf \<longleftrightarrow> (\<forall>p. pf = Some p \<longrightarrow> \<not> replace p)"

lemma reload_simps [simp]: "reload pl (reload pl p) = reload pl p" "replace (reload pl p) = replace p"
  by (simp_all add: reload_def)

lemma allowed_reload [simp]: "allowed pl (reload pl p) s = allowed pl p s"
  by (simp add: allowed_def reload_def)

lemma allow_list_simps [simp]: "allow_list None" "allow_list (Some p) = (\<not> replace p)"
  by (simp_all add: allow_list_def)

lemma pmatch_allow:
  "\<not> replace p \<Longrightarrow> pmatch pl (reload pl p) s = Inr (reload pl p, if allowed pl p s then Some s else None)"
proof -
  assume p: "\<not> replace p"
  then have "pmatch pl (reload pl p) s = Inr (reload pl p, patfile.answer (pl_env pl) (pl_rcomp pl) (pl_rexec pl) p s)"
    unfolding pmatch_def reload_def by (rule patfile.query_answer)
  moreover have "patfile.answer (pl_env pl) (pl_rcomp pl) (pl_rexec pl) p s \<in> {None, Some s}"
    using p by (auto simp: patfile.answer_def patfileMatch_def patMatch_allow split: option.splits)
  ultimately show ?thesis by (auto simp: allowed_def)
qed

lemma pf_ask_allow:
  "allow_list pf \<Longrightarrow> pf_ask pl pf s =
     Inr (if s = None then pf else map_option (reload pl) pf, \<exists>p t. pf = Some p \<and> s = Some t \<and> allowed pl p t)"
  by (auto simp: pf_ask_def pmatch_allow split: option.splits)

lemma pmatch_None: "pmatch pl p s = Inr (q, None) \<Longrightarrow> q = p"
proof -
  assume a: "pmatch pl p s = Inr (q, None)"
  have "patfileSubst p s r subs = Inr (q, None) \<Longrightarrow> q = p" for r subs
    by (auto simp: patfileSubst_def Let_def split: pat_action.splits option.splits if_splits)
  with a show ?thesis
    by (cases "replace p") (auto simp: pmatch_def patfileMatch_def patMatch_replace patMatch_allow split: option.splits)
qed

lemmas filter_cases = pf_ask_allow pmatch_allow spared_def

section \<open>Properties\<close>

text \<open>
  C19. The cookie blocker. On a consistent header, with no pattern file or an allow list, the filters
  neither crash nor fail an assertion; unless the URL is the box's own, or the URL, the client address
  or the user name is on the allow list, exactly the \<open>Cookie\<close> fields of a request and the \<open>Set-Cookie\<close>
  fields of a reply are removed, and otherwise the header is untouched.
\<close>

theorem cookies_removed:
  assumes "hdr_ok hdr" and "allow_list pf"
  shows "(\<exists>pf' h. cookieReqFilter pl pf hp hdr = Inr (pf', Some h) \<and> hdr_ok h
            \<and> HttpHeader.fields h = (if spared pl pf (hp_uri hp) (hp_client_addr hp) (hp_auth_user hp) then HttpHeader.fields hdr
                          else filter (\<lambda>e. eid e \<noteq> HDR_COOKIE) (HttpHeader.fields hdr)))
       \<and> (\<exists>pf' h. cookieRepFilter pl pf hp hdr = Inr (pf', Some h) \<and> hdr_ok h
            \<and> HttpHeader.fields h = (if spared pl pf (hp_uri hp) (hp_client_addr hp) (hp_auth_user hp) then HttpHeader.fields hdr
                          else filter (\<lambda>e. eid e \<noteq> HDR_SET_COOKIE) (HttpHeader.fields hdr)))"
proof -
  have d: "\<exists>h. del_header hdr i = Some h \<and> hdr_ok h \<and> HttpHeader.fields h = filter (\<lambda>e. eid e \<noteq> i) (HttpHeader.fields hdr)"
    if "i \<noteq> HDR_OTHER" for i
    using DelById_ok [OF assms(1) that] by (auto simp: del_header_def)
  show ?thesis
    using d [of HDR_COOKIE] d [of HDR_SET_COOKIE] assms
    by (cases pf; cases "hp_client_addr hp"; cases "hp_auth_user hp")
      (auto simp: cookieReqFilter_def cookieRepFilter_def filter_cases)
qed

text \<open>
  The content type filters. With an allow list or no pattern file neither crashes; a reply of a
  rejected type passes exactly when it is spared; a reply passes the other filter exactly when it is
  spared or its type matches one of those configured. Passing is never altered into a redirection: the
  answer is the URL itself.
\<close>

theorem type_filters_decide:
  assumes "allow_list pf"
  shows "(\<exists>pf'. rejectFilter pl pf tp =
             Inr (pf', if spared pl pf (tp_uri tp) (tp_client_addr tp) (tp_auth_user tp) then Some (tp_uri tp) else None))
       \<and> (\<exists>pf'. allowFilter pl types pf tp =
             Inr (pf', if spared pl pf (tp_uri tp) (tp_client_addr tp) (tp_auth_user tp)
                          \<or> (\<exists>t w. canonType (tp_typ tp) = Some t \<and> w \<in> set types \<and> mtmatch t w)
                       then Some (tp_uri tp) else None))"
proof -
  have a: "allowed_type t types \<longleftrightarrow> (\<exists>w \<in> set types. mtmatch t w)" for t by (induction types) auto
  show ?thesis
    using assms
    by (cases pf; cases "tp_client_addr tp"; cases "tp_auth_user tp")
      (auto simp: rejectFilter_def allowFilter_def filter_cases a split: option.splits)
qed

text \<open>
  The redirector never redirects a request whose client address is known: it first asks the
  rewrite list itself, as if it were a list of exemptions, and gives up when the URL matches; after that
  the question for the replacement can only fail.
\<close>

theorem redirect_needs_unknown_client:
  assumes "rd_client_addr rd = Some a" and "redirFilter pl p rd = Inr (p', r)"
  shows "r = None"
proof -
  have none: "x = Some (reload pl p)" if "pf_ask pl (Some (reload pl p)) s = Inr (x, False)" for s x
    using that
    by (auto simp: pf_ask_def dest: pmatch_None split: option.splits sum.splits prod.splits)
  show ?thesis
  proof (cases "is_mybox (rd_uri rd)")
    case True
    with assms show ?thesis by (simp add: redirFilter_def)
  next
    case nm: False
    consider (crash) c where "pmatch pl (reload pl p) (rd_uri rd) = Inl c"
      | (hit) q t where "pmatch pl (reload pl p) (rd_uri rd) = Inr (q, Some t)"
      | (miss) q where "pmatch pl (reload pl p) (rd_uri rd) = Inr (q, None)"
      by (metis old.sum.exhaust surj_pair option.exhaust)
    then show ?thesis
    proof cases
      case miss
      then have "pmatch pl (reload pl p) (rd_uri rd) = Inr (reload pl p, None)" using pmatch_None by blast
      moreover from this have "pf_ask pl (Some p) (Some (rd_uri rd)) = Inr (Some (reload pl p), False)"
        by (simp add: pf_ask_def)
      ultimately show ?thesis
        using assms nm by (auto simp: redirFilter_def split: if_splits elim!: sbind_Inr dest!: none)
    qed (use assms nm in \<open>auto simp: redirFilter_def pf_ask_def\<close>)
  qed
qed

definition demo_lib :: "string pat_lib" where
  \<comment> \<open>a regular expression library for the examples: prefixes, all registers unset\<close>
  "demo_lib = \<lparr>pl_env = \<lparr>f_mtime = \<lambda>_. None, f_data = \<lambda>_. None\<rparr>, pl_rcomp = \<lambda>p _ _. Some p,
     pl_rexec = \<lambda>re s. if starts_with re s then Some (replicate 10 (- 1, - 1)) else None\<rparr>"

definition demo_file :: "bool \<Rightarrow> string patFileObject" where
  "demo_file repl = (patfileNew ''f'' repl)\<lparr>pchain := [\<lparr>patbuf = ''http://good'',
     action = (if repl then Replace (Some ''http://better'') else Negate False)\<rparr>]\<rparr>"

lemma demo_answer: "allowed demo_lib (demo_file False) s = starts_with ''http://good'' s"
  by (simp add: allowed_def patfile.answer_def patfileMatch_def patMatch_allow first_match_def demo_lib_def demo_file_def
      patfileCheckReload_def patfileNew_def)

theorem cookies_removed_witness:
  "\<exists>pf' h. cookieReqFilter demo_lib (Some (demo_file False))
      \<lparr>hp_uri = ''http://bad/'', hp_client_addr = Some ''10.0.0.1'', hp_auth_user = None\<rparr>
      (httpHeaderAddEntry httpHeaderInit (httpHeaderEntryCreate HDR_COOKIE [] ''a=b'')) = Inr (pf', Some h)
    \<and> HttpHeader.fields h = []"
proof -
  let ?hdr = "httpHeaderAddEntry httpHeaderInit (httpHeaderEntryCreate HDR_COOKIE [] ''a=b'')"
  have h: "hdr_ok ?hdr" using AddEntry_ok hdr_ok_Init by blast
  have f: "HttpHeader.fields ?hdr = [httpHeaderEntryCreate HDR_COOKIE [] ''a=b'']"
    by (simp add: AddEntry_ok)
  have e: "eid (httpHeaderEntryCreate HDR_COOKIE [] ''a=b'') = HDR_COOKIE" by (simp add: httpHeaderEntryCreate_def)
  have p: "allow_list (Some (demo_file False))" by (simp add: demo_file_def patfileNew_def)
  have s: "\<not> spared demo_lib (Some (demo_file False)) ''http://bad/'' (Some ''10.0.0.1'') None"
  proof -
    have "\<not> is_mybox ''http://bad/''" by code_simp
    then show ?thesis by (auto simp: spared_def demo_answer starts_with_def)
  qed
  from cookies_removed [OF h p, of demo_lib "\<lparr>hp_uri = ''http://bad/'', hp_client_addr = Some ''10.0.0.1'', hp_auth_user = None\<rparr>"]
  show ?thesis using f e s by auto
qed

theorem type_filters_decide_witness:
  "\<exists>pf'. allowFilter demo_lib [''text/*''] (Some (demo_file False))
      \<lparr>tp_uri = ''http://bad/'', tp_typ = Some ''TEXT/html;x'', tp_client_addr = None, tp_auth_user = None\<rparr>
    = Inr (pf', Some ''http://bad/'')"
proof -
  have p: "allow_list (Some (demo_file False))" by (simp add: demo_file_def patfileNew_def)
  have t: "canonType (Some ''TEXT/html;x'') = Some ''text/html'' \<and> mtmatch ''text/html'' ''text/*''" by code_simp
  from type_filters_decide [OF p, of demo_lib
      "\<lparr>tp_uri = ''http://bad/'', tp_typ = Some ''TEXT/html;x'', tp_client_addr = None, tp_auth_user = None\<rparr>" "[''text/*'']"]
  show ?thesis using t by simp
qed

theorem redirect_needs_unknown_client_witness:
  "redirFilter demo_lib (demo_file True)
     \<lparr>rd_uri = ''http://good/'', rd_client_addr = Some ''10.0.0.1'', rd_auth_user = None\<rparr>
     = Inr ((demo_file True)\<lparr>pbuf := ''http://better'', buflen := 1024\<rparr>, None)
   \<and> redirFilter demo_lib (demo_file True) \<lparr>rd_uri = ''http://good/'', rd_client_addr = None, rd_auth_user = None\<rparr>
     = Inr ((demo_file True)\<lparr>pbuf := ''http://better'', buflen := 1024\<rparr>, Some ''http://better'')"
proof -
  let ?rd = "\<lparr>rd_uri = ''http://good/'', rd_client_addr = Some ''10.0.0.1'', rd_auth_user = None\<rparr>"
  have "\<exists>r. redirFilter demo_lib (demo_file True) ?rd = Inr ((demo_file True)\<lparr>pbuf := ''http://better'', buflen := 1024\<rparr>, r)"
    by (rule exI [of _ None]) code_simp
  then obtain r where r: "redirFilter demo_lib (demo_file True) ?rd
      = Inr ((demo_file True)\<lparr>pbuf := ''http://better'', buflen := 1024\<rparr>, r)" by blast
  moreover from redirect_needs_unknown_client [OF _ r] have "r = None" by simp
  moreover have "redirFilter demo_lib (demo_file True) \<lparr>rd_uri = ''http://good/'', rd_client_addr = None, rd_auth_user = None\<rparr>
     = Inr ((demo_file True)\<lparr>pbuf := ''http://better'', buflen := 1024\<rparr>, Some ''http://better'')" by code_simp
  ultimately show ?thesis by simp
qed

end
