(* ===== verification/CfClamav.thy ===== *)
theory CfClamav
  imports CfTemp CfMods
begin

text \<open>
  The virus filter (\<^verbatim>\<open>filters/cfmod_clamav.c\<close>): each block of a reply is written to a temporary file and
  scanned, and replaced by a message of the same length when the scanner finds a virus. The scanner
  (libclamav) is a parameter; what the module object and its filter objects share, the database, its
  state and the table of temporary files, is the world the filters run on.
\<close>

section \<open>The scanner library\<close>

record cl_limits =
  maxfiles :: int
  maxfilesize :: int
  maxreclevel :: int
  maxratio :: int
  archivememlim :: int

datatype scan_result = CL_CLEAN | CL_VIRUS string | CL_ERROR int

text \<open>
  \<open>cl_scandesc\<close> gets the contents of the file, the position of the descriptor, the database and the
  limits; a result of 0 of the functions that return a code is success.
\<close>

record ('db, 'st) clamlib =
  cl_statchkdir :: "'st \<Rightarrow> fsys \<Rightarrow> int"
  cl_loaddbdir :: "fsys \<Rightarrow> string \<Rightarrow> 'db option \<times> int"
  cl_build :: "'db option \<Rightarrow> 'db option \<times> int"
  cl_statinidir :: "fsys \<Rightarrow> string \<Rightarrow> 'st"
  cl_scandesc :: "bytes \<Rightarrow> nat \<Rightarrow> 'db option \<Rightarrow> cl_limits option \<Rightarrow> scan_result"
  cl_retdbdir :: string

section \<open>Objects\<close>

definition ALLOWFILE :: string where "ALLOWFILE = ''/etc/cf/av.allow''"
definition DBDIR :: string where "DBDIR = ''/strg/mybox/patterns/av''"
definition TEMPDIR :: string where "TEMPDIR = ''/tmp/scan/''"
definition MIN_FILE_SIZE :: int where "MIN_FILE_SIZE = 67"
definition MAX_FILE_SIZE :: int where "MAX_FILE_SIZE = 1024"
definition MSG_BUFFER_LENGTH :: nat where "MSG_BUFFER_LENGTH = 1024"

record clamavscanObject =
  databasePath :: string
  actionPath :: cptr
  limits :: cl_limits
  min_file_size :: int
  max_file_size :: int

record clamavscanFilterObject =
  cf_url :: string
  cf_databasePath :: string
  cf_actionPath :: cptr
  cf_limits :: "cl_limits option"
  cf_min :: int
  cf_max :: int

text \<open>
  The world: the temporary files, the database and its state (\<open>this->root\<close> and \<open>this->dbstat\<close>, to which
  the filter objects hold pointers), the size of the static buffer of the URL cleaner, and the commands
  started so far.
\<close>

record ('db, 'st) av_world =
  av_tmp :: tmpstate
  av_root :: "'db option"
  av_dbstat :: 'st
  av_esc :: nat
  av_cmds :: "string list list"

text \<open>What a call depends on: the library, \<open>tempnam\<close>, a configuration flag and the reply's parameters.\<close>

record ('db, 'st) av_env =
  ae_lib :: "('db, 'st) clamlib"
  ae_tempnam :: tempnam
  ae_strip :: bool
  ae_content_type :: cptr
  ae_client_addr :: string
  ae_auth_user :: cptr

section \<open>Filtering a block\<close>

definition clean_url :: "('db, 'st) av_env \<Rightarrow> ('db, 'st) av_world \<Rightarrow> string \<Rightarrow> (('db, 'st) av_world \<times> string) option" where
  "clean_url e w uri =
     (case moduleUrlClean (ae_strip e) (av_esc w) uri of
        (b, None) \<Rightarrow> None
      | (b, Some u) \<Rightarrow> Some (w\<lparr>av_esc := b\<rparr>, u))"

text \<open>Reloading a database that has changed; the flag is false where the code returns \<open>-1\<close>.\<close>

definition av_reload :: "('db, 'st) clamlib \<Rightarrow> ('db, 'st) av_world \<Rightarrow> string \<Rightarrow> ('db, 'st) av_world \<times> bool" where
  "av_reload lib w db =
     (let fs = t_fs (av_tmp w) in
      if cl_statchkdir lib (av_dbstat w) fs = 1 then
        (case cl_loaddbdir lib fs db of
           (root, ret) \<Rightarrow>
             if ret \<noteq> 0 then (w\<lparr>av_root := root\<rparr>, False)
             else
               (case cl_build lib root of
                  (root, ret) \<Rightarrow>
                    if ret \<noteq> 0 then (w\<lparr>av_root := root\<rparr>, False)
                    else (w\<lparr>av_root := root, av_dbstat := cl_statinidir lib fs db\<rparr>, True)))
      else (w, True))"

text \<open>Opening and scanning the temporary file; \<open>None\<close> where the code returns \<open>-1\<close>.\<close>

definition av_scan :: "('db, 'st) clamlib \<Rightarrow> ('db, 'st) av_world \<Rightarrow> clamavscanFilterObject \<Rightarrow> string \<Rightarrow> scan_result option" where
  "av_scan lib w cf tmpfile =
     (case fs_node (t_fs (av_tmp w)) tmpfile of
        None \<Rightarrow> None
      | Some n \<Rightarrow>
          (if deny (t_fs (av_tmp w)) (comps tmpfile) then None
           else
             (let size = length (idata n);
                  pos = (if int size > cf_max cf then nat (int size - cf_max cf) else 0) in
              Some (if size = 0 then CL_CLEAN else cl_scandesc lib (idata n) pos (av_root w) (cf_limits cf)))))"

definition virus_msg :: "string \<Rightarrow> string" where
  "virus_msg virname = take (MSG_BUFFER_LENGTH - 1) (''VIRUS '' @ [CHR 0x27] @ virname @ [CHR 0x27] @ '' REMOVED BY MYBOX FIREWALL SYSTEM'')"

definition virus_block :: "string \<Rightarrow> nat \<Rightarrow> bytes" where
  "virus_block virname len =
     (let msg = virus_msg virname; msglen = min (length msg) len in
      take msglen msg @ replicate (len - msglen) (CHR '' ''))"

definition av_remove :: "('db, 'st) av_env \<Rightarrow> ('db, 'st) av_world \<Rightarrow> string \<Rightarrow> ('db, 'st) av_world option" where
  "av_remove e w uri =
     (case clean_url e w uri of
        None \<Rightarrow> None
      | Some (w, url) \<Rightarrow>
          (case remove_file (av_tmp w) url (ae_client_addr e) of
             None \<Rightarrow> None
           | Some t \<Rightarrow> Some (w\<lparr>av_tmp := t\<rparr>)))"

text \<open>What is done with a scan result: the return value and the bytes delivered.\<close>

definition av_deliver :: "('db, 'st) av_env \<Rightarrow> ('db, 'st) av_world \<Rightarrow> clamavscanFilterObject \<Rightarrow> bytes \<Rightarrow> nat \<Rightarrow> scan_result
    \<Rightarrow> (('db, 'st) av_world \<times> int \<times> bytes) option" where
  "av_deliver e w cf buf len ret =
     (case ret of
        CL_CLEAN \<Rightarrow>
          (case av_remove e w (cf_url cf) of
             None \<Rightarrow> None
           | Some w \<Rightarrow> Some (w, int len, take len buf))
      | CL_VIRUS virname \<Rightarrow>
          (case av_remove e w (cf_url cf) of
             None \<Rightarrow> None
           | Some w \<Rightarrow>
               (case cf_actionPath cf of
                  None \<Rightarrow> Some (w, int len, virus_block virname len)
                | Some act \<Rightarrow>
                    (case clean_url e w (cf_url cf) of
                       None \<Rightarrow> None
                     | Some (w, url) \<Rightarrow>
                         Some (w\<lparr>av_cmds := av_cmds w @ [action_args
                                   [Some act, Some url, Some virname, ae_content_type e, Some (ae_client_addr e), ae_auth_user e]]\<rparr>,
                               int len, virus_block virname len))))
      | CL_ERROR _ \<Rightarrow> Some (w, int len, take len buf))"

definition cfFilter :: "('db, 'st) av_env \<Rightarrow> ('db, 'st) av_world \<Rightarrow> clamavscanFilterObject \<Rightarrow> bytes \<Rightarrow> int
    \<Rightarrow> (('db, 'st) av_world \<times> int \<times> bytes) option" where
  "cfFilter e w cf buf len =
     (if len > 0 then
        (case av_reload (ae_lib e) w (cf_databasePath cf) of
           (w, False) \<Rightarrow> Some (w, - 1, [])
         | (w, True) \<Rightarrow>
             (if cf_min cf \<le> len \<and> len \<le> cf_max cf then
                (case clean_url e w (cf_url cf) of
                   None \<Rightarrow> None
                 | Some (w, url) \<Rightarrow>
                     (case update_file (ae_tempnam e) (av_tmp w) TEMPDIR url (ae_client_addr e) buf (nat len) of
                        None \<Rightarrow> None
                      | Some (t, None) \<Rightarrow> Some (w\<lparr>av_tmp := t\<rparr>, - 1, [])
                      | Some (t, Some tmpfile) \<Rightarrow>
                          (let w = w\<lparr>av_tmp := t\<rparr> in
                           case av_scan (ae_lib e) w cf tmpfile of
                             None \<Rightarrow> Some (w, - 1, [])
                           | Some ret \<Rightarrow> av_deliver e w cf buf (nat len) ret)))
              else
                (case av_remove e w (cf_url cf) of
                   None \<Rightarrow> None
                 | Some w \<Rightarrow> av_deliver e w cf buf (nat len) CL_CLEAN)))
      else if len = - 1 then
        (case av_remove e w (cf_url cf) of None \<Rightarrow> None | Some w \<Rightarrow> Some (w, 0, []))
      else Some (w, 0, []))"

section \<open>The filter constructor and the module\<close>

text \<open>
  The constructor does not set the limits of the new object, which therefore are NULL: objects are
  allocated cleared.
\<close>

definition clamavscanFilter :: "'re pat_lib \<Rightarrow> 're patFileObject option \<Rightarrow> clamavscanObject \<Rightarrow> repParam
    \<Rightarrow> crash + 're patFileObject option \<times> clamavscanFilterObject option" where
  "clamavscanFilter pl pf this rp =
     (if is_mybox (rp_uri rp) then Inr (pf, None)
      else
        sbind (pf_ask pl pf (Some (rp_uri rp))) (\<lambda>(pf, r). if r then Inr (pf, None) else
        sbind (pf_ask pl pf (rp_client_addr rp)) (\<lambda>(pf, r). if r then Inr (pf, None) else
        sbind (pf_ask pl pf (rp_auth_user rp)) (\<lambda>(pf, r). if r then Inr (pf, None) else
        Inr (pf, Some \<lparr>cf_url = rp_uri rp, cf_databasePath = databasePath this, cf_actionPath = actionPath this,
          cf_limits = None, cf_min = min_file_size this, cf_max = max_file_size this\<rparr>)))))"

text \<open>\<open>sscanf(s, "%d", ...)\<close> when it converts.\<close>

definition scan_d :: "string \<Rightarrow> int option" where
  "scan_d s =
     (let t = dropWhile isspace s; d = (if t \<noteq> [] \<and> hd t \<in> {CHR ''-'', CHR ''+''} then tl t else t) in
      if d \<noteq> [] \<and> isdigit (hd d) then Some (atoi s) else None)"

definition size_arg :: "string list \<Rightarrow> int \<Rightarrow> int \<times> string list" where
  \<comment> \<open>one of the two size arguments, and the arguments left\<close>
  "size_arg args dflt =
     (case args of [] \<Rightarrow> (dflt, []) | a # args \<Rightarrow> ((case scan_d a of None \<Rightarrow> dflt | Some i \<Rightarrow> i), args))"

definition clamav_init :: "('db, 'st) clamlib \<Rightarrow> fsys \<Rightarrow> string list
    \<Rightarrow> ('re registration \<times> clamavscanObject \<times> 'db option \<times> 'st \<times> (string, tmpfile) hash_table) option" where
  "clamav_init lib fs args =
     (let pf = (if cf_file_exists fs ALLOWFILE then Some (patfileNew ALLOWFILE False) else None);
          db = (if cf_is_dir fs DBDIR then DBDIR else cl_retdbdir lib);
          (mn, args) = size_arg args MIN_FILE_SIZE;
          (mx, args) = size_arg args MAX_FILE_SIZE;
          act = (case args of [] \<Rightarrow> None | a # _ \<Rightarrow> Some a) in
      case cl_loaddbdir lib fs db of
        (root, ret) \<Rightarrow>
          if ret \<noteq> 0 then None
          else
            (case cl_build lib root of
               (root, ret) \<Rightarrow>
                 if ret \<noteq> 0 then None
                 else
                   (let dbstat = cl_statinidir lib fs db;
                        lim = \<lparr>maxfiles = 1000, maxfilesize = 1048576, maxreclevel = 5, maxratio = 200, archivememlim = 1\<rparr>;
                        (h, ok) = init_hash in
                    if ok = 0 then None
                    else
                      Some (\<lparr>reg_typ = FIL_CONTFILTER, reg_version = MODULE_API_VERSION,
                              reg_description = ''clamav virus scanner'', reg_trigger = Some ''*/*'', reg_patFile = pf\<rparr>,
                            \<lparr>databasePath = db, actionPath = act, limits = lim, min_file_size = mn, max_file_size = mx\<rparr>,
                            root, dbstat, h))))"

section \<open>The invariant of the world\<close>

definition esc_ok :: "nat \<Rightarrow> bool" where
  "esc_ok b \<longleftrightarrow> b = 0 \<or> b mod 3 = 1"

definition av_key :: "('db, 'st) av_env \<Rightarrow> string \<Rightarrow> string option" where
  "av_key e uri =
     (case snd (moduleUrlClean (ae_strip e) 0 uri) of None \<Rightarrow> None | Some u \<Rightarrow> hash_key u (ae_client_addr e))"

definition av_world_ok :: "('db, 'st) av_world \<Rightarrow> bool" where
  "av_world_ok w \<longleftrightarrow> tmp_ok (av_tmp w) \<and> esc_ok (av_esc w)"

lemma moduleUrlClean_buf:
  assumes "esc_ok b"
  obtains b' u where "moduleUrlClean strip b uri = (b', Some u)" "esc_ok b'" "snd (moduleUrlClean strip 0 uri) = Some u"
proof -
  have a: "b = 0 \<or> b mod 3 = 1" "(0::nat) = 0 \<or> (0::nat) mod 3 = 1" using assms by (simp_all add: esc_ok_def)
  obtain v where v: "\<And>b. moduleUrlClean strip b uri = (if stringHasCntl v then rfc1738_do_escape b (- 1) v else (b, Some v))"
    unfolding moduleUrlClean_def Let_def rfc1738_escape_unescaped_def by blast
  show ?thesis
  proof (cases "stringHasCntl v")
    case True
    then show ?thesis
      using v rfc1738_do_escape_eq(1) [OF a(1), of "- 1" v] rfc1738_do_escape_eq(1) [OF a(2), of "- 1" v]
        rfc1738_do_escape_eq(2) [OF a(1), of v]
      by (intro that [of "escape_bufsize b v" "esc (- 1) v"]) (simp_all add: esc_ok_def)
  next
    case False
    with v assms show ?thesis by (intro that [of b v]) simp_all
  qed
qed

lemma clean_url_ok:
  assumes "av_world_ok w" and "av_key e uri = Some k"
  obtains b u where "clean_url e w uri = Some (w\<lparr>av_esc := b\<rparr>, u)" "esc_ok b" "hash_key u (ae_client_addr e) = Some k"
proof -
  have "esc_ok (av_esc w)" using assms(1) by (simp add: av_world_ok_def)
  then obtain b u where "moduleUrlClean (ae_strip e) (av_esc w) uri = (b, Some u)" "esc_ok b"
    "snd (moduleUrlClean (ae_strip e) 0 uri) = Some u" by (rule moduleUrlClean_buf)
  with that [of b u] assms(2) show ?thesis by (simp add: clean_url_def av_key_def)
qed

lemma av_remove_ok:
  assumes "av_world_ok w" and "av_key e uri = Some k"
  obtains w' where "av_remove e w uri = Some w'" "av_world_ok w'" "files (av_tmp w') = (files (av_tmp w))(k := None)"
    "av_root w' = av_root w"
proof -
  from clean_url_ok [OF assms] obtain b u where
    u: "clean_url e w uri = Some (w\<lparr>av_esc := b\<rparr>, u)" "esc_ok b" "hash_key u (ae_client_addr e) = Some k" by blast
  have "tmp_ok (av_tmp w)" using assms(1) by (simp add: av_world_ok_def)
  then obtain t where "remove_file (av_tmp w) u (ae_client_addr e) = Some t" "tmp_ok t"
    "files t = (files (av_tmp w))(k := None)" using remove_file_ok u(3) by metis
  with u that [of "w\<lparr>av_esc := b, av_tmp := t\<rparr>"] show ?thesis by (simp add: av_remove_def av_world_ok_def)
qed

lemma virus_block_length [simp]: "length (virus_block v n) = n"
  by (simp add: virus_block_def Let_def)

lemma av_deliver_ok:
  assumes "av_world_ok w" and "av_key e (cf_url cf) = Some k"
  obtains w' where "av_deliver e w cf buf len ret
        = Some (w', int len, case ret of CL_VIRUS v \<Rightarrow> virus_block v len | _ \<Rightarrow> take len buf)"
    "av_world_ok w'" "(\<forall>c. ret \<noteq> CL_ERROR c) \<longrightarrow> files (av_tmp w') k = None" "av_root w' = av_root w"
proof -
  from av_remove_ok [OF assms] obtain w1 where
    w1: "av_remove e w (cf_url cf) = Some w1" "av_world_ok w1" "files (av_tmp w1) = (files (av_tmp w))(k := None)"
      "av_root w1 = av_root w" by blast
  from clean_url_ok [OF w1(2) assms(2)] obtain b u where
    u: "clean_url e w1 (cf_url cf) = Some (w1\<lparr>av_esc := b\<rparr>, u)" "esc_ok b" by blast
  show ?thesis
  proof (cases ret)
    case CL_CLEAN
    with w1 that [of w1] show ?thesis by (simp add: av_deliver_def)
  next
    case (CL_VIRUS v)
    with w1 u show ?thesis
      by (cases "cf_actionPath cf") (auto simp: av_deliver_def av_world_ok_def intro!: that)
  next
    case (CL_ERROR c)
    with assms that [of w] show ?thesis by (simp add: av_deliver_def)
  qed
qed

lemma av_reload_ok:
  "av_world_ok w \<Longrightarrow> av_world_ok (fst (av_reload lib w db)) \<and> av_tmp (fst (av_reload lib w db)) = av_tmp w"
  by (auto simp: av_reload_def av_world_ok_def Let_def split: prod.splits)

lemma cfFilter_scan:
  assumes "n > 0" and "av_reload (ae_lib e) w (cf_databasePath cf) = (w1, True)" and "cf_min cf \<le> n \<and> n \<le> cf_max cf"
    and "clean_url e w1 (cf_url cf) = Some (w1\<lparr>av_esc := x\<rparr>, u)" and "nat n = m"
  shows "cfFilter e w cf b n =
    (case update_file (ae_tempnam e) (av_tmp w1) TEMPDIR u (ae_client_addr e) b m of
       None \<Rightarrow> None
     | Some (t, None) \<Rightarrow> Some (w1\<lparr>av_esc := x, av_tmp := t\<rparr>, - 1, [])
     | Some (t, Some tmpfile) \<Rightarrow>
         (case av_scan (ae_lib e) (w1\<lparr>av_esc := x, av_tmp := t\<rparr>) cf tmpfile of
            None \<Rightarrow> Some (w1\<lparr>av_esc := x, av_tmp := t\<rparr>, - 1, [])
          | Some ret \<Rightarrow> av_deliver e (w1\<lparr>av_esc := x, av_tmp := t\<rparr>) cf b m ret))"
  unfolding cfFilter_def Let_def assms(5) using assms by simp

lemma cfFilter_total:
  assumes w: "av_world_ok w" and k: "av_key e (cf_url cf) = Some k" and b: "n > 0 \<longrightarrow> b \<noteq> []"
  obtains w' r out where "cfFilter e w cf b n = Some (w', r, out)" "av_world_ok w'"
    "0 \<le> r \<and> n = int (length b) \<longrightarrow> length out = length b"
proof (cases "n > 0")
  case False
  from av_remove_ok [OF w k] obtain w1 where "av_remove e w (cf_url cf) = Some w1" "av_world_ok w1" by blast
  with False w show ?thesis
    by (cases "n = - 1") (auto simp: cfFilter_def intro!: that)
next
  case n: True
  obtain w1 ok where r: "av_reload (ae_lib e) w (cf_databasePath cf) = (w1, ok)" by (cases "av_reload (ae_lib e) w (cf_databasePath cf)")
  with av_reload_ok [OF w, of "ae_lib e" "cf_databasePath cf"] have w1: "av_world_ok w1" by simp
  have len: "n = int (length b) \<Longrightarrow> length (case ret of CL_VIRUS v \<Rightarrow> virus_block v (nat n) | _ \<Rightarrow> take (nat n) b) = length b" for ret
    by (cases ret) auto
  show ?thesis
  proof (cases ok)
    case False
    with r n w1 that [of w1 "- 1" "[]"] show ?thesis by (simp add: cfFilter_def)
  next
    case True
    show ?thesis
    proof (cases "cf_min cf \<le> n \<and> n \<le> cf_max cf")
      case False
      from av_remove_ok [OF w1 k] obtain w2 where w2: "av_remove e w1 (cf_url cf) = Some w2" "av_world_ok w2" by blast
      from av_deliver_ok [OF w2(2) k, of b "nat n" CL_CLEAN] obtain w3 where
        "av_deliver e w2 cf b (nat n) CL_CLEAN = Some (w3, int (nat n), take (nat n) b)" "av_world_ok w3" by auto
      with False True r n w2 len [of CL_CLEAN] show ?thesis by (intro that [of w3 n "take (nat n) b"]) (auto simp: cfFilter_def)
    next
      case inr: True
      from clean_url_ok [OF w1 k] obtain x u where
        u: "clean_url e w1 (cf_url cf) = Some (w1\<lparr>av_esc := x\<rparr>, u)" "esc_ok x" "hash_key u (ae_client_addr e) = Some k" by blast
      have t: "tmp_ok (av_tmp w1)" using w1 by (simp add: av_world_ok_def)
      note e = cfFilter_scan [OF n r [unfolded True [THEN eqTrueI]] inr u(1) refl, of b]
      from update_file_ok [OF t u(3), of b "ae_tempnam e" TEMPDIR "nat n"] b n obtain t1 f where
        t1: "update_file (ae_tempnam e) (av_tmp w1) TEMPDIR u (ae_client_addr e) b (nat n) = Some (t1, f)" "tmp_ok t1" by metis
      let ?w = "w1\<lparr>av_esc := x, av_tmp := t1\<rparr>"
      have w2: "av_world_ok ?w" using t1(2) u(2) by (simp add: av_world_ok_def)
      show ?thesis
      proof (cases "f = None \<or> av_scan (ae_lib e) ?w cf (the f) = None")
        case True
        with e t1 w2 show ?thesis by (intro that [of ?w "- 1" "[]"]) (auto split: option.splits)
      next
        case False
        then obtain ret where "f = Some (the f)" "av_scan (ae_lib e) ?w cf (the f) = Some ret" by auto
        moreover from av_deliver_ok [OF w2 k, of b "nat n" ret] obtain w3 where
          "av_deliver e ?w cf b (nat n) ret = Some (w3, int (nat n), case ret of CL_VIRUS v \<Rightarrow> virus_block v (nat n) | _ \<Rightarrow> take (nat n) b)"
          "av_world_ok w3" by blast
        ultimately show ?thesis
          using e t1 len by (intro that [of w3 "int (nat n)" "case ret of CL_VIRUS v \<Rightarrow> virus_block v (nat n) | _ \<Rightarrow> take (nat n) b"])
            (auto split: option.splits)
      qed
    qed
  qed
qed

section \<open>The filter in a chain\<close>

definition av_run :: "('db, 'st) av_env \<Rightarrow> (('db, 'st) av_world, clamavscanFilterObject) run" where
  \<comment> \<open>the filter as the module host calls it\<close>
  "av_run e w cf b n = (case cfFilter e w cf b n of None \<Rightarrow> (w, cf, - 1, []) | Some (w, r, out) \<Rightarrow> (w, cf, r, out))"

definition av_inv :: "('db, 'st) av_env \<Rightarrow> ('db, 'st) av_world \<Rightarrow> clamavscanFilterObject \<Rightarrow> bool" where
  "av_inv e w cf \<longleftrightarrow> av_world_ok w \<and> av_key e (cf_url cf) \<noteq> None"



interpretation av: length_keeping "av_run e" "av_inv e" for e
proof
  fix w f n b w' f' r out
  assume inv: "av_inv e w f" and n: "n = int (length b)" and run: "av_run e w f b n = (w', f', r, out)"
  then obtain k where k: "av_world_ok w" "av_key e (cf_url f) = Some k" by (auto simp: av_inv_def)
  have "n > 0 \<longrightarrow> b \<noteq> []" using n by auto
  with k obtain w1 r1 out1 where "cfFilter e w f b n = Some (w1, r1, out1)" "av_world_ok w1"
    "0 \<le> r1 \<and> n = int (length b) \<longrightarrow> length out1 = length b" by (rule cfFilter_total)
  with run n k show "0 \<le> r \<Longrightarrow> length out = length b" "av_inv e w' f' \<and> (\<forall>g. av_inv e w g \<longrightarrow> av_inv e w' g)"
    by (auto simp: av_run_def av_inv_def)
qed

section \<open>Properties\<close>

text \<open>What the scanner says of one block, taken for itself.\<close>

definition av_verdict :: "('db, 'st) clamlib \<Rightarrow> 'db option \<Rightarrow> clamavscanFilterObject \<Rightarrow> bytes \<Rightarrow> scan_result" where
  "av_verdict lib root cf b =
     (if int (length b) < cf_min cf \<or> cf_max cf < int (length b) \<or> hd b = CHR '' '' then CL_CLEAN
      else cl_scandesc lib b 0 root (cf_limits cf))"

definition av_block :: "scan_result \<Rightarrow> bytes \<Rightarrow> bytes" where
  "av_block ret b = (case ret of CL_VIRUS v \<Rightarrow> virus_block v (length b) | _ \<Rightarrow> b)"

lemma av_deliver_block:
  assumes "av_world_ok w" and "av_key e (cf_url cf) = Some k"
  obtains w' where "av_deliver e w cf b (length b) ret = Some (w', int (length b), av_block ret b)" "av_world_ok w'"
    "(\<forall>c. ret \<noteq> CL_ERROR c) \<longrightarrow> files (av_tmp w') k = None" "av_root w' = av_root w"
proof -
  have "(case ret of CL_VIRUS v \<Rightarrow> virus_block v (length b) | _ \<Rightarrow> take (length b) b) = av_block ret b"
    by (simp add: av_block_def split: scan_result.split)
  with that av_deliver_ok [OF assms, of b "length b" ret] show ?thesis by metis
qed

lemma av_scan_block:
  assumes "fs_node (t_fs (av_tmp w)) name = Some n" and "\<not> deny (t_fs (av_tmp w)) (comps name)"
    and "idata n = (if hd b = CHR '' '' then [] else b)" and "b \<noteq> []"
    and "cf_min cf \<le> int (length b)" "int (length b) \<le> cf_max cf"
  shows "av_scan lib w cf name = Some (av_verdict lib (av_root w) cf b)"
  using assms by (auto simp: av_scan_def av_verdict_def Let_def)

text \<open>
  C21. What the virus filter does with a block. When no temporary file is left from before (as after every
  block scanned without an error), the block is scanned by itself: it is delivered unchanged when the
  scanner finds it clean or fails, and replaced by a message of the same length when it finds a virus.
  But the scanner is not asked at all about a block outside the configured sizes, or one that starts with
  a blank; and since the temporary file goes with every clean block, no two blocks are ever scanned
  together. A block is dropped only when the changed database cannot be loaded or the file not written.
\<close>

theorem clamav_scans_single_blocks:
  assumes "av_world_ok w" and "av_key e (cf_url cf) = Some k" and "files (av_tmp w) k = None" and "b \<noteq> []"
    and "\<And>fs d p x. ae_tempnam e fs d p = Some x \<Longrightarrow> fs_node fs x = None"
  shows "\<exists>w' r out. cfFilter e w cf b (int (length b)) = Some (w', r, out) \<and> av_world_ok w'
    \<and> (if r < 0
       then out = [] \<and> (snd (av_reload (ae_lib e) w (cf_databasePath cf)) \<longrightarrow>
              (\<exists>t u. hash_key u (ae_client_addr e) = Some k
                 \<and> update_file (ae_tempnam e) (av_tmp w) TEMPDIR u (ae_client_addr e) b (length b) = Some (t, None)))
       else r = int (length b) \<and> out = av_block (av_verdict (ae_lib e) (av_root w') cf b) b
              \<and> ((\<forall>c. av_verdict (ae_lib e) (av_root w') cf b \<noteq> CL_ERROR c) \<longrightarrow> files (av_tmp w') k = None))"
proof -
  let ?n = "int (length b)" and ?lib = "ae_lib e"
  have n: "?n > 0" using assms(4) by simp
  obtain w1 ok where r: "av_reload ?lib w (cf_databasePath cf) = (w1, ok)" by (cases "av_reload ?lib w (cf_databasePath cf)")
  with av_reload_ok [OF assms(1), of ?lib "cf_databasePath cf"] have w1: "av_world_ok w1" "av_tmp w1 = av_tmp w" by simp_all
  show ?thesis
  proof (cases ok)
    case False
    with r n w1 show ?thesis by (simp add: cfFilter_def)
  next
    case True
    show ?thesis
    proof (cases "cf_min cf \<le> ?n \<and> ?n \<le> cf_max cf")
      case False
      then have v: "av_verdict ?lib root cf b = CL_CLEAN" for root by (auto simp: av_verdict_def)
      from av_remove_ok [OF w1(1) assms(2)] obtain w2 where w2: "av_remove e w1 (cf_url cf) = Some w2" "av_world_ok w2" by blast
      from av_deliver_block [OF w2(2) assms(2), of b CL_CLEAN] obtain w3 where
        "av_deliver e w2 cf b (length b) CL_CLEAN = Some (w3, ?n, av_block CL_CLEAN b)" "av_world_ok w3" "files (av_tmp w3) k = None"
        by auto
      with False True r n w2 v show ?thesis by (auto simp: cfFilter_def)
    next
      case inr: True
      from clean_url_ok [OF w1(1) assms(2)] obtain x u where
        u: "clean_url e w1 (cf_url cf) = Some (w1\<lparr>av_esc := x\<rparr>, u)" "esc_ok x" "hash_key u (ae_client_addr e) = Some k" by blast
      let ?w = "\<lambda>t. w1\<lparr>av_esc := x, av_tmp := t\<rparr>"
      note e = cfFilter_scan [OF n r [unfolded True [THEN eqTrueI]] inr u(1) nat_int, of b, unfolded w1(2)]
      have "tmp_ok (av_tmp w)" using assms(1) by (simp add: av_world_ok_def)
      from this u(3) assms(4) show ?thesis
      proof (cases rule: update_file_ok [of "av_tmp w" u "ae_client_addr e" k b "ae_tempnam e" TEMPDIR "length b"])
        case (failed t)
        with e u w1 r True show ?thesis by (auto simp: av_world_ok_def)
      next
        case (written t f nd)
        have w2: "av_world_ok (?w t)" using written(2) u(2) by (simp add: av_world_ok_def)
        have "idata nd = (if hd b = CHR '' '' then [] else b)" using written(8) assms(3,5) by simp
        with written(5,6) inr assms(4) have s: "av_scan ?lib (?w t) cf (filename f) = Some (av_verdict ?lib (av_root w1) cf b)"
          by (subst av_scan_block) auto
        from av_deliver_block [OF w2 assms(2), of b "av_verdict ?lib (av_root w1) cf b"] obtain w3 where
          "av_deliver e (?w t) cf b (length b) (av_verdict ?lib (av_root w1) cf b)
             = Some (w3, ?n, av_block (av_verdict ?lib (av_root w1) cf b) b)" "av_world_ok w3"
          "(\<forall>c. av_verdict ?lib (av_root w1) cf b \<noteq> CL_ERROR c) \<longrightarrow> files (av_tmp w3) k = None" "av_root w3 = av_root w1" by auto
        with e written(1) s show ?thesis by auto
      qed
    qed
  qed
qed


section \<open>Where the key buffer fails\<close>

lemma long_url_overflows: "1024 < length url \<Longrightarrow> hash_key url client_addr = None"
  by (auto simp: hash_key_def strnlen_def Let_def)

lemma keys_are_ambiguous: "hash_key ''http://x/'' ''110.0.0.1'' = hash_key ''http://x/1'' ''10.0.0.1''"
  by (simp add: hash_key_def strnlen_def)

definition demo_av :: "(unit, unit) av_env" where
  "demo_av =
     \<lparr>ae_lib = \<lparr>cl_statchkdir = \<lambda>_ _. 0, cl_loaddbdir = \<lambda>_ _. (Some (), 0), cl_build = \<lambda>r. (r, 0), cl_statinidir = \<lambda>_ _. (),
        cl_scandesc = \<lambda>d _ _ _. if hd d = CHR ''X'' then CL_VIRUS ''Eicar'' else CL_CLEAN, cl_retdbdir = ''/db''\<rparr>,
      ae_tempnam = \<lambda>fs d p. if fs_node fs ''/tmp/scan/f'' = None then Some ''/tmp/scan/f'' else None,
      ae_strip = False, ae_content_type = None, ae_client_addr = ''10.0.0.1'', ae_auth_user = None\<rparr>"

definition demo_world :: "(unit, unit) av_world" where
  "demo_world = \<lparr>av_tmp = \<lparr>t_fs = fs_empty, t_hash = fst init_hash, t_next = 1\<rparr>, av_root = Some (), av_dbstat = (), av_esc = 0, av_cmds = []\<rparr>"

definition demo_cf :: clamavscanFilterObject where
  "demo_cf = \<lparr>cf_url = ''http://x/'', cf_databasePath = ''/db'', cf_actionPath = None, cf_limits = None, cf_min = 2, cf_max = 1024\<rparr>"

lemma demo_av_ok: "av_world_ok demo_world \<and> files (av_tmp demo_world) = Map.empty
    \<and> av_key demo_av (cf_url demo_cf) = Some ''http://x/10.0.0.1''"
proof -
  have "av_key demo_av (cf_url demo_cf) = Some ''http://x/10.0.0.1''" by code_simp
  then show ?thesis using tmp_ok_init by (simp add: av_world_ok_def esc_ok_def demo_world_def)
qed

theorem clamav_scans_single_blocks_witness:
  "\<exists>w'. cfFilter demo_av demo_world demo_cf ''X1234'' 5 = Some (w', 5, virus_block ''Eicar'' 5)
      \<and> files (av_tmp w') ''http://x/10.0.0.1'' = None"
proof -
  have "map_option (\<lambda>(w, r, out). (r, out)) (cfFilter demo_av demo_world demo_cf ''X1234'' 5) = Some (5, ''VIRUS'')"
    by code_simp
  moreover have "\<exists>w' r out. cfFilter demo_av demo_world demo_cf ''X1234'' 5 = Some (w', r, out)
    \<and> (r < 0 \<or> out = av_block (av_verdict (ae_lib demo_av) (av_root w') demo_cf ''X1234'') ''X1234''
       \<and> ((\<forall>c. av_verdict (ae_lib demo_av) (av_root w') demo_cf ''X1234'' \<noteq> CL_ERROR c)
            \<longrightarrow> files (av_tmp w') ''http://x/10.0.0.1'' = None))"
  proof -
    have fresh: "ae_tempnam demo_av fs d p = Some x \<Longrightarrow> fs_node fs x = None" for fs d p x
      by (auto simp: demo_av_def split: if_splits)
    have ok: "av_world_ok demo_world" "av_key demo_av (cf_url demo_cf) = Some ''http://x/10.0.0.1''"
      "files (av_tmp demo_world) ''http://x/10.0.0.1'' = None" using demo_av_ok by simp_all
    have ne: "''X1234'' \<noteq> []" and len: "int (length ''X1234'') = 5" by simp_all
    have pick: "\<exists>w' r out. P w' r out \<and> (r < 0 \<or> R w' out \<and> S w')"
      if "\<exists>w' r out. P w' r out \<and> Q w' \<and> (if r < (0::int) then T out else U r \<and> R w' out \<and> S w')" for P Q R S T U
      using that by metis
    show ?thesis by (rule pick [OF clamav_scans_single_blocks [OF ok ne fresh, unfolded len]])
  qed
  moreover have "av_verdict (ae_lib demo_av) root demo_cf ''X1234'' = CL_VIRUS ''Eicar''" for root
    by (simp add: av_verdict_def demo_av_def demo_cf_def)
  moreover have "virus_block ''Eicar'' 5 = ''VIRUS''" by code_simp
  ultimately show ?thesis by (auto simp: av_block_def eval_nat_numeral)
qed


end
