(* ===== verification/ModuleLoader.thy ===== *)
theory ModuleLoader
  imports CfMods "HOL-Library.Multiset"
begin

text \<open>
  The life cycle of filter modules (\<^verbatim>\<open>squid-mybox/src/module.c\<close>): reference counted module objects,
  shared libraries and filter objects, with the unloading of a library put off to a timer event.

  The state keeps the objects by address. A chain of modules and the registry of libraries, linked lists
  in the code, are lists of addresses; the filter objects of one reply, linked by \<open>next\<close>, are the list of
  their owners. \<open>dlopens\<close> is the system's count of how often a library is open: its code is in memory
  while the count is positive. \<open>None\<close> as a result is a failed assertion, the use of an object that has
  been freed, or a call into code that is not in memory.
\<close>

section \<open>Objects\<close>

type_synonym oid = nat

record modobj =
  m_ref :: int
  m_owner :: oid

record shlib =
  s_ref :: int
  s_name :: string
  s_hndl :: nat

record loader =
  mods :: "oid \<Rightarrow> modobj option"
  fchain :: "squidFilterType \<Rightarrow> oid list"
  shlibs :: "oid \<Rightarrow> shlib option"
  registry :: "oid list"
  loading :: "oid option"
  unloads :: "oid list"
  dlopens :: "nat \<Rightarrow> nat"
  filters :: "oid list list"
  fresh :: oid

text \<open>
  What the libraries are: the handle \<open>dlopen\<close> returns for a path, whether \<open>moduleInit\<close> is found in it,
  and the module objects that function registers.
\<close>

record libs =
  dl_open :: "string \<Rightarrow> nat option"
  dl_sym :: "nat \<Rightarrow> bool"
  dl_init :: "nat \<Rightarrow> string list \<Rightarrow> (squidFilterType \<times> int) list"

definition all_types :: "squidFilterType list" where
  "all_types = [FIL_DUMMY, FIL_AUTH, FIL_REDIRECT, FIL_REQHEADER, FIL_REPHEADER, FIL_REJECTTYPE, FIL_CONTFILTER]"

definition loader_init :: loader where
  "loader_init = \<lparr>mods = Map.empty, fchain = (\<lambda>_. []), shlibs = Map.empty, registry = [], loading = None, unloads = [],
     dlopens = (\<lambda>_. 0), filters = [], fresh = 0\<rparr>"

fun foldM :: "('s \<Rightarrow> 'a \<Rightarrow> 's option) \<Rightarrow> 's \<Rightarrow> 'a list \<Rightarrow> 's option" where
  "foldM f s [] = Some s"
| "foldM f s (x # xs) = (case f s x of None \<Rightarrow> None | Some s \<Rightarrow> foldM f s xs)"

section \<open>Reference counts and destructors\<close>

definition mapped :: "loader \<Rightarrow> oid \<Rightarrow> bool" where
  \<comment> \<open>the code of library object \<open>s\<close> is in memory\<close>
  "mapped st s \<longleftrightarrow> (case shlibs st s of None \<Rightarrow> False | Some sh \<Rightarrow> 0 < dlopens st (s_hndl sh))"

definition dlclose :: "loader \<Rightarrow> nat \<Rightarrow> loader" where
  "dlclose st h = st\<lparr>dlopens := (dlopens st)(h := dlopens st h - 1)\<rparr>"

definition ref_module :: "loader \<Rightarrow> oid \<Rightarrow> loader option" where
  "ref_module st a =
     (case mods st a of
        None \<Rightarrow> None
      | Some m \<Rightarrow> Some (st\<lparr>mods := (mods st)(a \<mapsto> m\<lparr>m_ref := m_ref m + 1\<rparr>)\<rparr>))"

text \<open>
  \<open>moduleDestroyProxy\<close>: the real destructor, which is code of the module's library, frees the object; the
  library is not released now but by an event.
\<close>

definition moduleDestroyProxy :: "loader \<Rightarrow> oid \<Rightarrow> loader option" where
  "moduleDestroyProxy st a =
     (case mods st a of
        None \<Rightarrow> None
      | Some m \<Rightarrow>
          (if \<not> mapped st (m_owner m) then None
           else Some (st\<lparr>mods := (mods st)(a := None), unloads := unloads st @ [m_owner m]\<rparr>)))"

definition unref_module :: "loader \<Rightarrow> oid \<Rightarrow> loader option" where
  "unref_module st a =
     (case mods st a of
        None \<Rightarrow> None
      | Some m \<Rightarrow>
          (let st = st\<lparr>mods := (mods st)(a \<mapsto> m\<lparr>m_ref := m_ref m - 1\<rparr>)\<rparr> in
           if m_ref m - 1 \<le> 0 then moduleDestroyProxy st a else Some st))"

definition shlib_dtor :: "loader \<Rightarrow> oid \<Rightarrow> loader option" where
  "shlib_dtor st s =
     (case shlibs st s of
        None \<Rightarrow> None
      | Some sh \<Rightarrow>
          Some (dlclose (st\<lparr>registry := remove1 s (registry st), shlibs := (shlibs st)(s := None)\<rparr>) (s_hndl sh)))"

definition unref_shlib :: "loader \<Rightarrow> oid \<Rightarrow> loader option" where
  "unref_shlib st s =
     (case shlibs st s of
        None \<Rightarrow> None
      | Some sh \<Rightarrow>
          (let st = st\<lparr>shlibs := (shlibs st)(s \<mapsto> sh\<lparr>s_ref := s_ref sh - 1\<rparr>)\<rparr> in
           if s_ref sh - 1 \<le> 0 then shlib_dtor st s else Some st))"

definition ref_shlib :: "loader \<Rightarrow> oid \<Rightarrow> loader option" where
  "ref_shlib st s =
     (case shlibs st s of
        None \<Rightarrow> None
      | Some sh \<Rightarrow> Some (st\<lparr>shlibs := (shlibs st)(s \<mapsto> sh\<lparr>s_ref := s_ref sh + 1\<rparr>)\<rparr>))"

text \<open>The timer event that \<open>moduleDestroyProxy\<close> has put into the queue, at position \<open>i\<close>.\<close>

definition shlibUnloadCB :: "loader \<Rightarrow> nat \<Rightarrow> loader option" where
  "shlibUnloadCB st i =
     unref_shlib (st\<lparr>unloads := take i (unloads st) @ drop (i + 1) (unloads st)\<rparr>) (unloads st ! i)"

section \<open>Loading and unloading\<close>

definition moduleRegister :: "loader \<Rightarrow> squidFilterType \<times> int \<Rightarrow> loader option" where
  "moduleRegister st = (\<lambda>(typ, version).
     (if version \<noteq> MODULE_API_VERSION then Some st
      else
        (case loading st of
           None \<Rightarrow> None
         | Some s \<Rightarrow>
             ref_shlib (st\<lparr>mods := (mods st)(fresh st \<mapsto> \<lparr>m_ref = 1, m_owner = s\<rparr>),
                          fchain := (fchain st)(typ := fchain st typ @ [fresh st]),
                          fresh := fresh st + 1\<rparr>) s)))"

definition name_of :: "string \<Rightarrow> string" where
  \<comment> \<open>what follows the last slash\<close>
  "name_of module = rev (takeWhile (\<lambda>c. c \<noteq> CHR ''/'') (rev module))"

text \<open>
  \<open>UNREF\<close> clears the variable \<open>currentlyLoading\<close> only when the object goes; otherwise it keeps its value.
\<close>

definition moduleLoad :: "libs \<Rightarrow> loader \<Rightarrow> string \<Rightarrow> string list \<Rightarrow> loader option" where
  "moduleLoad L st module args =
     (case dl_open L module of
        None \<Rightarrow> Some st
      | Some h \<Rightarrow>
          (let st = st\<lparr>dlopens := (dlopens st)(h := dlopens st h + 1)\<rparr> in
           if \<not> dl_sym L h then Some (dlclose st h)
           else
             (let (st, sc) =
                (case List.find (\<lambda>s. map_option s_hndl (shlibs st s) = Some h) (registry st) of
                   Some s \<Rightarrow> (dlclose st h, s)
                 | None \<Rightarrow>
                     (st\<lparr>shlibs := (shlibs st)(fresh st \<mapsto> \<lparr>s_ref = 0, s_name = name_of module, s_hndl = h\<rparr>),
                        registry := fresh st # registry st, fresh := fresh st + 1\<rparr>, fresh st))
              in case ref_shlib (st\<lparr>loading := Some sc\<rparr>) sc of
                   None \<Rightarrow> None
                 | Some st \<Rightarrow>
                     (case foldM moduleRegister st (dl_init L h args) of
                        None \<Rightarrow> None
                      | Some st \<Rightarrow>
                          map_option (\<lambda>st. if shlibs st sc = None then st\<lparr>loading := None\<rparr> else st) (unref_shlib st sc)))))"

definition moduleLoadAll :: "libs \<Rightarrow> loader \<Rightarrow> (string \<times> string list) list \<Rightarrow> loader option" where
  "moduleLoadAll L st config = foldM (\<lambda>st (module, args). moduleLoad L st module args) st config"

definition unload_chain :: "loader \<Rightarrow> squidFilterType \<Rightarrow> loader option" where
  "unload_chain st t =
     (case foldM unref_module st (fchain st t) of
        None \<Rightarrow> None
      | Some st \<Rightarrow> Some (st\<lparr>fchain := (fchain st)(t := [])\<rparr>))"

definition moduleUnloadAll :: "loader \<Rightarrow> loader option" where
  "moduleUnloadAll st = foldM unload_chain st all_types"

section \<open>Filter objects\<close>

text \<open>
  \<open>moduleCFilterNew\<close> for a reply on which the modules \<open>accept\<close> of the chain make a filter object, each of
  which holds a reference to its module; and the destructor of filter objects, which releases the next
  object first. Nothing is made when no module accepts.
\<close>

definition filters_new :: "loader \<Rightarrow> (oid \<Rightarrow> bool) \<Rightarrow> loader option" where
  "filters_new st accept =
     (let fs = filter accept (fchain st FIL_CONTFILTER) in
      case foldM ref_module st fs of
        None \<Rightarrow> None
      | Some st \<Rightarrow> Some (if fs = [] then st else st\<lparr>filters := filters st @ [fs]\<rparr>))"

definition filters_destroy :: "loader \<Rightarrow> nat \<Rightarrow> loader option" where
  "filters_destroy st i =
     foldM unref_module (st\<lparr>filters := take i (filters st) @ drop (i + 1) (filters st)\<rparr>) (rev (filters st ! i))"

section \<open>Runs\<close>

datatype event = Load string "string list" | UnloadAll | NewFilters "oid list" | EndFilters nat | Timer nat

fun enabled :: "loader \<Rightarrow> event \<Rightarrow> bool" where
  "enabled st (EndFilters i) \<longleftrightarrow> i < length (filters st)"
| "enabled st (Timer i) \<longleftrightarrow> i < length (unloads st)"
| "enabled st _ \<longleftrightarrow> True"

fun perform :: "libs \<Rightarrow> loader \<Rightarrow> event \<Rightarrow> loader option" where
  "perform L st (Load module args) = moduleLoad L st module args"
| "perform L st UnloadAll = moduleUnloadAll st"
| "perform L st (NewFilters accepted) = filters_new st (\<lambda>a. a \<in> set accepted)"
| "perform L st (EndFilters i) = filters_destroy st i"
| "perform L st (Timer i) = shlibUnloadCB st i"

inductive reachable :: "libs \<Rightarrow> loader \<Rightarrow> bool" for L where
  reach_init: "reachable L loader_init"
| reach_step: "reachable L st \<Longrightarrow> enabled st ev \<Longrightarrow> perform L st ev = Some st' \<Longrightarrow> reachable L st'"

inductive_cases reachable_stepE: "reachable L st"

section \<open>The invariant\<close>

text \<open>
  \<open>holds\<close> counts the references to module objects, \<open>owned\<close> those to libraries. Both are multisets, of
  which the invariant says that every count agrees with its object.
\<close>

definition owners :: "loader \<Rightarrow> oid multiset" where
  "owners st = image_mset (\<lambda>a. m_owner (the (mods st a))) (mset_set (dom (mods st)))"

definition counts_ok :: "loader \<Rightarrow> oid multiset \<Rightarrow> oid multiset \<Rightarrow> bool" where
  "counts_ok st H G \<longleftrightarrow>
     finite (dom (mods st))
     \<and> (\<forall>a m. mods st a = Some m \<longrightarrow> m_ref m = int (count H a) \<and> 0 < count H a)
     \<and> (\<forall>a. a \<in># H \<longrightarrow> mods st a \<noteq> None)
     \<and> (\<forall>s sh. shlibs st s = Some sh \<longrightarrow> s_ref sh = int (count G s) \<and> 0 < count G s)
     \<and> (\<forall>s. s \<in># G \<longrightarrow> shlibs st s \<noteq> None)
     \<and> (\<forall>a \<ge> fresh st. mods st a = None \<and> shlibs st a = None)"

definition dl_ok :: "loader \<Rightarrow> bool" where
  "dl_ok st \<longleftrightarrow>
     distinct (registry st) \<and> set (registry st) = dom (shlibs st)
     \<and> distinct (map (\<lambda>s. s_hndl (the (shlibs st s))) (registry st))
     \<and> (\<forall>h. dlopens st h = (if \<exists>s sh. shlibs st s = Some sh \<and> s_hndl sh = h then 1 else 0))"

definition holds :: "loader \<Rightarrow> oid multiset" where
  "holds st = mset (concat (map (fchain st) all_types)) + mset (concat (filters st))"

definition owned :: "loader \<Rightarrow> oid multiset" where
  "owned st = owners st + mset (unloads st)"

definition loader_inv :: "loader \<Rightarrow> bool" where
  "loader_inv st \<longleftrightarrow> counts_ok st (holds st) (owned st) \<and> dl_ok st"

section \<open>Counting\<close>

lemma counts_okD:
  assumes "counts_ok st H G"
  shows "finite (dom (mods st))" "mods st a = Some m \<Longrightarrow> m_ref m = int (count H a) \<and> 0 < count H a"
    "a \<in># H \<Longrightarrow> mods st a \<noteq> None" "shlibs st s = Some sh \<Longrightarrow> s_ref sh = int (count G s) \<and> 0 < count G s"
    "s \<in># G \<Longrightarrow> shlibs st s \<noteq> None" "mods st (fresh st) = None" "shlibs st (fresh st) = None"
  using assms unfolding counts_ok_def by blast+

lemma counts_okI:
  assumes "finite (dom M)" and "\<forall>a m. M a = Some m \<longrightarrow> m_ref m = int (count H a) \<and> 0 < count H a"
    and "\<forall>a. a \<in># H \<longrightarrow> M a \<noteq> None" and "\<forall>s sh. S s = Some sh \<longrightarrow> s_ref sh = int (count G s) \<and> 0 < count G s"
    and "\<forall>s. s \<in># G \<longrightarrow> S s \<noteq> None" and "\<forall>a \<ge> n. M a = None \<and> S a = None"
    and "mods st = M" "shlibs st = S" "fresh st = n"
  shows "counts_ok st H G"
  using assms unfolding counts_ok_def by blast

lemma counts_ok_fresh: "counts_ok st H G \<Longrightarrow> \<forall>a \<ge> fresh st. mods st a = None \<and> shlibs st a = None"
  unfolding counts_ok_def by blast

lemma owners_upd:
  assumes "finite (dom (mods st))" and "mods st a = Some m" and "m_owner m' = m_owner m"
  shows "owners (st\<lparr>mods := (mods st)(a \<mapsto> m')\<rparr>) = owners st"
proof -
  have "dom ((mods st)(a \<mapsto> m')) = dom (mods st)" using assms(2) by auto
  moreover have "image_mset (\<lambda>b. m_owner (the (((mods st)(a \<mapsto> m')) b))) (mset_set (dom (mods st)))
      = image_mset (\<lambda>b. m_owner (the (mods st b))) (mset_set (dom (mods st)))"
    using assms by (intro image_mset_cong) auto
  ultimately show ?thesis by (simp add: owners_def)
qed

lemma owners_new:
  assumes "finite (dom (mods st))" and "mods st a = None"
  shows "owners (st\<lparr>mods := (mods st)(a \<mapsto> m)\<rparr>) = owners st + {#m_owner m#}"
proof -
  have a: "a \<notin> dom (mods st)" using assms(2) by auto
  have "image_mset (\<lambda>b. m_owner (the (((mods st)(a \<mapsto> m)) b))) (mset_set (dom (mods st)))
      = image_mset (\<lambda>b. m_owner (the (mods st b))) (mset_set (dom (mods st)))"
    using a assms(1) by (intro image_mset_cong) auto
  then show ?thesis using a assms(1) by (simp add: owners_def)
qed

lemma owners_del:
  assumes "finite (dom (mods st))" and "mods st a = Some m"
  shows "owners st = owners (st\<lparr>mods := (mods st)(a := None)\<rparr>) + {#m_owner m#}"
proof -
  let ?st = "st\<lparr>mods := (mods st)(a := None)\<rparr>"
  have "?st\<lparr>mods := (mods ?st)(a \<mapsto> m)\<rparr> = st" using assms(2) by (simp add: fun_upd_idem)
  then show ?thesis using owners_new [of ?st a m] assms(1) by simp
qed

lemma owners_cong: "mods st = mods st' \<Longrightarrow> owners st = owners st'"
  by (simp add: owners_def)

definition same_rest :: "loader \<Rightarrow> loader \<Rightarrow> bool" where
  \<comment> \<open>nothing but modules and pending events has changed; in particular no library is opened or closed\<close>
  "same_rest st st' \<longleftrightarrow> fchain st' = fchain st \<and> filters st' = filters st \<and> shlibs st' = shlibs st
     \<and> registry st' = registry st \<and> dlopens st' = dlopens st \<and> fresh st' = fresh st \<and> loading st' = loading st"

lemma same_rest_refl [simp]: "same_rest st st"
  by (simp add: same_rest_def)

lemma same_rest_trans: "same_rest a b \<Longrightarrow> same_rest b c \<Longrightarrow> same_rest a c"
  by (simp add: same_rest_def)

lemma dl_ok_same: "same_rest st st' \<Longrightarrow> dl_ok st' = dl_ok st"
  by (simp add: same_rest_def dl_ok_def)

lemma owner_mapped:
  assumes "counts_ok st H (owned st)" and "dl_ok st" and "mods st a = Some m"
  shows "mapped st (m_owner m)"
proof -
  have "m_owner m \<in># owners st"
    unfolding owners_del [OF counts_okD(1) [OF assms(1)] assms(3)] by simp
  then have "m_owner m \<in># owned st" by (simp add: owned_def)
  then obtain sh where "shlibs st (m_owner m) = Some sh" using counts_okD(5) [OF assms(1)] by blast
  moreover from this assms(2) have "dlopens st (s_hndl sh) = 1" by (auto simp: dl_ok_def)
  ultimately show ?thesis by (simp add: mapped_def)
qed

lemma ref_module_ok:
  assumes "counts_ok st H (owned st)" and "mods st a \<noteq> None"
  obtains st' where "ref_module st a = Some st'" "counts_ok st' (H + {#a#}) (owned st')" "same_rest st st'"
    "dom (mods st') = dom (mods st)" "unloads st' = unloads st"
proof -
  from assms(2) obtain m where m: "mods st a = Some m" by blast
  let ?st = "st\<lparr>mods := (mods st)(a \<mapsto> m\<lparr>m_ref := m_ref m + 1\<rparr>)\<rparr>"
  have "owned ?st = owned st"
    using owners_upd [OF counts_okD(1) [OF assms(1)] m, of "m\<lparr>m_ref := m_ref m + 1\<rparr>"] by (simp add: owned_def)
  with assms(1) m have "counts_ok ?st (H + {#a#}) (owned ?st)" unfolding counts_ok_def by auto
  moreover have "dom (mods ?st) = dom (mods st)" using m by auto
  ultimately show ?thesis using m by (intro that [of ?st]) (simp_all add: ref_module_def same_rest_def)
qed

lemma unref_module_ok:
  assumes c: "counts_ok st H (owned st)" and d: "dl_ok st" and a: "a \<in># H"
  obtains st' where "unref_module st a = Some st'" "counts_ok st' (H - {#a#}) (owned st')" "same_rest st st'"
    "dom (mods st') \<subseteq> dom (mods st)"
proof -
  from counts_okD(3) [OF c a] obtain m where m: "mods st a = Some m" by blast
  from counts_okD(2) [OF c m] have r: "m_ref m = int (count H a)" "0 < count H a" by auto
  let ?m = "m\<lparr>m_ref := m_ref m - 1\<rparr>"
  let ?s1 = "st\<lparr>mods := (mods st)(a \<mapsto> ?m)\<rparr>"
  have o1: "owned ?s1 = owned st" using owners_upd [OF counts_okD(1) [OF c] m, of ?m] by (simp add: owned_def)
  show ?thesis
  proof (cases "count H a = 1")
    case False
    with r have "Suc 0 < count H a" by linarith
    with c m r o1 False have "counts_ok ?s1 (H - {#a#}) (owned ?s1)" unfolding counts_ok_def by (auto simp: in_diff_count)
    moreover have "unref_module st a = Some ?s1" using m r \<open>Suc 0 < count H a\<close> by (simp add: unref_module_def Let_def)
    moreover have "dom (mods ?s1) \<subseteq> dom (mods st)" using m by auto
    ultimately show ?thesis by (intro that [of ?s1]) (simp_all add: same_rest_def)
  next
    case True
    let ?s2 = "st\<lparr>mods := (mods st)(a := None), unloads := unloads st @ [m_owner m]\<rparr>"
    have "mapped ?s1 (m_owner m)" using owner_mapped [OF c d m] by (simp add: mapped_def split: option.splits)
    then have u: "unref_module st a = Some ?s2" using m r True by (simp add: unref_module_def moduleDestroyProxy_def Let_def)
    have "owners ?s2 = owners (st\<lparr>mods := (mods st)(a := None)\<rparr>)" by (rule owners_cong) simp
    then have o2: "owned ?s2 = owned st"
      using owners_del [OF counts_okD(1) [OF c] m] by (simp add: owned_def)
    have h: "b \<in># H - {#a#} \<longleftrightarrow> b \<in># H \<and> b \<noteq> a" for b using True by (auto simp: in_diff_count)
    have "counts_ok ?s2 (H - {#a#}) (owned ?s2)" unfolding o2 using c h unfolding counts_ok_def by auto
    then show ?thesis using u by (intro that [of ?s2]) (auto simp: same_rest_def)
  qed
qed

lemma foldM_ref:
  "counts_ok st H (owned st) \<Longrightarrow> set xs \<subseteq> dom (mods st) \<Longrightarrow>
   \<exists>st'. foldM ref_module st xs = Some st' \<and> counts_ok st' (H + mset xs) (owned st') \<and> same_rest st st' \<and> unloads st' = unloads st"
proof (induction xs arbitrary: st H)
  case (Cons x xs)
  from Cons.prems(2) have "mods st x \<noteq> None" by auto
  with Cons.prems(1) obtain s1 where s1: "ref_module st x = Some s1" "counts_ok s1 (H + {#x#}) (owned s1)" "same_rest st s1"
    "dom (mods s1) = dom (mods st)" "unloads s1 = unloads st" by (rule ref_module_ok)
  from Cons.IH [OF s1(2)] Cons.prems(2) s1(4) obtain st' where
    "foldM ref_module s1 xs = Some st'" "counts_ok st' (H + {#x#} + mset xs) (owned st')" "same_rest s1 st'" "unloads st' = unloads s1"
    by auto
  with s1 same_rest_trans show ?case by (auto simp: ac_simps)
qed simp

lemma foldM_unref:
  "counts_ok st H (owned st) \<Longrightarrow> dl_ok st \<Longrightarrow> mset xs \<subseteq># H \<Longrightarrow>
   \<exists>st'. foldM unref_module st xs = Some st' \<and> counts_ok st' (H - mset xs) (owned st') \<and> same_rest st st' \<and> dom (mods st') \<subseteq> dom (mods st)"
proof (induction xs arbitrary: st H)
  case (Cons x xs)
  from Cons.prems(3) have x: "x \<in># H" by (auto dest: mset_subset_eqD)
  obtain s1 where s1: "unref_module st x = Some s1" "counts_ok s1 (H - {#x#}) (owned s1)" "same_rest st s1"
    "dom (mods s1) \<subseteq> dom (mods st)" by (rule unref_module_ok [OF Cons.prems(1,2) x])
  from Cons.prems(3) have "mset xs \<subseteq># H - {#x#}" by (simp add: insert_subset_eq_iff)
  from Cons.IH [OF s1(2) _ this] dl_ok_same [OF s1(3)] Cons.prems(2) obtain st' where
    "foldM unref_module s1 xs = Some st'" "counts_ok st' (H - {#x#} - mset xs) (owned st')" "same_rest s1 st'"
    "dom (mods st') \<subseteq> dom (mods s1)" by auto
  with s1 same_rest_trans show ?case by (auto simp: add_mset_commute)
qed simp

section \<open>Every operation keeps the invariant\<close>

lemma holds_clear: "holds st = holds (st\<lparr>fchain := (fchain st)(t := [])\<rparr>) + mset (fchain st t)"
  by (cases t) (simp_all add: holds_def all_types_def)

lemma holds_append: "holds (st\<lparr>fchain := (fchain st)(t := fchain st t @ [a])\<rparr>) = holds st + {#a#}"
  by (cases t) (simp_all add: holds_def all_types_def)

lemma holds_cong: "fchain st' = fchain st \<Longrightarrow> filters st' = filters st \<Longrightarrow> holds st' = holds st"
  by (simp add: holds_def)

lemma inv_counts_cong:
  assumes "counts_ok st H G" and "mods st' = mods st" and "shlibs st' = shlibs st" and "fresh st' = fresh st"
  shows "counts_ok st' H G"
  using assms unfolding counts_ok_def by simp

lemma inv_init [simp]: "loader_inv loader_init"
  by (simp add: loader_inv_def counts_ok_def dl_ok_def loader_init_def holds_def owned_def owners_def all_types_def)

lemma take_drop_mset: "i < length xs \<Longrightarrow> mset xs = mset (take i xs @ drop (i + 1) xs) + {#xs ! i#}"
proof -
  assume "i < length xs"
  then have "xs = take i xs @ xs ! i # drop (i + 1) xs" by (simp add: id_take_nth_drop)
  then have "mset xs = mset (take i xs @ xs ! i # drop (i + 1) xs)" by (rule arg_cong)
  then show ?thesis by simp
qed

lemma take_drop_concat: "i < length xs \<Longrightarrow> mset (concat xs) = mset (concat (take i xs @ drop (i + 1) xs)) + mset (xs ! i)"
proof -
  assume "i < length xs"
  then have "xs = take i xs @ xs ! i # drop (i + 1) xs" by (simp add: id_take_nth_drop)
  then have "mset (concat xs) = mset (concat (take i xs @ xs ! i # drop (i + 1) xs))" by (rule arg_cong)
  then show ?thesis by (simp add: ac_simps)
qed

lemma unload_all_inv:
  "loader_inv st \<Longrightarrow> \<exists>st'. foldM unload_chain st ts = Some st'
     \<and> loader_inv st' \<and> filters st' = filters st \<and> dlopens st' = dlopens st \<and> shlibs st' = shlibs st
     \<and> (\<forall>t. fchain st' t = (if t \<in> set ts then [] else fchain st t)) \<and> dom (mods st') \<subseteq> dom (mods st)"
proof (induction ts arbitrary: st)
  case (Cons t ts)
  from Cons.prems have i: "counts_ok st (holds st) (owned st)" "dl_ok st" by (auto simp: loader_inv_def)
  have "mset (fchain st t) \<subseteq># holds st" by (subst holds_clear [of st t]) simp
  from foldM_unref [OF i this] obtain s1 where s1: "foldM unref_module st (fchain st t) = Some s1"
    "counts_ok s1 (holds st - mset (fchain st t)) (owned s1)" "same_rest st s1" "dom (mods s1) \<subseteq> dom (mods st)" by blast
  let ?s2 = "s1\<lparr>fchain := (fchain s1)(t := [])\<rparr>"
  have "holds ?s2 = holds st - mset (fchain st t)"
    using s1(3) holds_clear [of st t] holds_cong [of ?s2 "st\<lparr>fchain := (fchain st)(t := [])\<rparr>"] by (simp add: same_rest_def)
  moreover have "owned ?s2 = owned s1" by (simp add: owned_def owners_def)
  ultimately have "counts_ok ?s2 (holds ?s2) (owned ?s2)" using inv_counts_cong [OF s1(2)] by simp
  moreover have "dl_ok ?s2" using dl_ok_same [OF s1(3)] i(2) by (simp add: dl_ok_def)
  ultimately have "loader_inv ?s2" by (simp add: loader_inv_def)
  from Cons.IH [OF this] obtain st' where st': "foldM unload_chain ?s2 ts = Some st'" "loader_inv st'"
    "filters st' = filters s1" "dlopens st' = dlopens s1"
    "shlibs st' = shlibs s1" "\<forall>u. fchain st' u = (if u \<in> set ts then [] else fchain ?s2 u)" "dom (mods st') \<subseteq> dom (mods s1)" by auto
  moreover have "fchain s1 = fchain st" "filters s1 = filters st" "dlopens s1 = dlopens st" "shlibs s1 = shlibs st"
    using s1(3) by (simp_all add: same_rest_def)
  moreover have "foldM unload_chain st (t # ts) = foldM unload_chain ?s2 ts" using s1(1) by (simp add: unload_chain_def)
  ultimately show ?case using s1(4) by (intro exI [of _ st']) auto
qed simp

lemma moduleUnloadAll_inv:
  assumes "loader_inv st"
  obtains st' where "moduleUnloadAll st = Some st'" "loader_inv st'" "filters st' = filters st" "dlopens st' = dlopens st"
    "shlibs st' = shlibs st" "fchain st' = (\<lambda>_. [])" "dom (mods st') \<subseteq> dom (mods st)"
proof -
  have "t \<in> set all_types" for t by (cases t) (simp_all add: all_types_def)
  with unload_all_inv [OF assms, of all_types] that show ?thesis by (fastforce simp: moduleUnloadAll_def fun_eq_iff)
qed

lemma filters_destroy_inv:
  assumes "loader_inv st" and "i < length (filters st)"
  obtains st' where "filters_destroy st i = Some st'" "loader_inv st'" "dlopens st' = dlopens st" "shlibs st' = shlibs st"
    "fchain st' = fchain st" "length (filters st') < length (filters st)"
proof -
  from assms(1) have i: "counts_ok st (holds st) (owned st)" "dl_ok st" by (auto simp: loader_inv_def)
  let ?s = "st\<lparr>filters := take i (filters st) @ drop (i + 1) (filters st)\<rparr>"
  have h: "holds st = holds ?s + mset (filters st ! i)"
    using take_drop_concat [OF assms(2)] by (simp add: holds_def)
  have "owned ?s = owned st" by (simp add: owned_def owners_def)
  then have "counts_ok ?s (holds st) (owned ?s)" using inv_counts_cong [OF i(1)] by simp
  moreover have "dl_ok ?s" using i(2) by (simp add: dl_ok_def)
  moreover have "mset (rev (filters st ! i)) \<subseteq># holds st" unfolding h by simp
  ultimately obtain st' where st': "foldM unref_module ?s (rev (filters st ! i)) = Some st'"
    "counts_ok st' (holds st - mset (rev (filters st ! i))) (owned st')" "same_rest ?s st'" using foldM_unref by blast
  have "holds st' = holds ?s" using st'(3) by (intro holds_cong) (simp_all add: same_rest_def)
  then have "loader_inv st'"
    using st'(2) h dl_ok_same [OF st'(3)] \<open>dl_ok ?s\<close> by (simp add: loader_inv_def)
  with st' assms(2) show ?thesis by (intro that [of st']) (auto simp: filters_destroy_def same_rest_def)
qed

lemma filters_new_inv:
  assumes "loader_inv st"
  obtains st' where "filters_new st accept = Some st'" "loader_inv st'" "dlopens st' = dlopens st" "shlibs st' = shlibs st"
proof -
  from assms have i: "counts_ok st (holds st) (owned st)" "dl_ok st" by (auto simp: loader_inv_def)
  let ?fs = "filter accept (fchain st FIL_CONTFILTER)"
  have "set ?fs \<subseteq> dom (mods st)"
    using counts_okD(3) [OF i(1)] by (fastforce simp: holds_def all_types_def)
  from foldM_ref [OF i(1) this] obtain s1 where s1: "foldM ref_module st ?fs = Some s1"
    "counts_ok s1 (holds st + mset ?fs) (owned s1)" "same_rest st s1" by blast
  let ?s2 = "if ?fs = [] then s1 else s1\<lparr>filters := filters s1 @ [?fs]\<rparr>"
  have "holds (if fs = [] then s1 else s1\<lparr>filters := filters s1 @ [fs]\<rparr>) = holds st + mset fs" for fs
    using s1(3) by (simp add: holds_def same_rest_def)
  then have "holds ?s2 = holds st + mset ?fs" .
  moreover have "owned ?s2 = owned s1" by (simp add: owned_def owners_def)
  ultimately have "counts_ok ?s2 (holds ?s2) (owned ?s2)" using inv_counts_cong [OF s1(2), of ?s2] by simp
  moreover have "dl_ok ?s2" using dl_ok_same [OF s1(3)] i(2) by (simp add: dl_ok_def)
  moreover have "filters_new st accept = Some ?s2" using s1(1) by (simp only: filters_new_def Let_def option.case)
  moreover have "dlopens ?s2 = dlopens st" "shlibs ?s2 = shlibs st" using s1(3) by (simp_all add: same_rest_def)
  ultimately show ?thesis by (intro that [of ?s2]) (simp_all only: loader_inv_def)
qed

lemma dl_ok_inj: "dl_ok st \<Longrightarrow> shlibs st s = Some x \<Longrightarrow> shlibs st t = Some y \<Longrightarrow> s_hndl x = s_hndl y \<Longrightarrow> s = t"
proof -
  assume d: "dl_ok st" and s: "shlibs st s = Some x" "shlibs st t = Some y" "s_hndl x = s_hndl y"
  from d have "inj_on (\<lambda>s. s_hndl (the (shlibs st s))) (set (registry st))" and r: "set (registry st) = dom (shlibs st)"
    unfolding dl_ok_def distinct_map by blast+
  with s show "s = t" unfolding r inj_on_def by (metis domI option.sel)
qed

lemma dl_ok_upd:
  assumes "dl_ok st" and "shlibs st s = Some sh" and "s_hndl sh' = s_hndl sh"
  shows "dl_ok (st\<lparr>shlibs := (shlibs st)(s \<mapsto> sh')\<rparr>)"
proof -
  have "map (\<lambda>t. s_hndl (the (((shlibs st)(s \<mapsto> sh')) t))) (registry st) = map (\<lambda>t. s_hndl (the (shlibs st t))) (registry st)"
    using assms(2,3) by (intro map_cong) auto
  then have "distinct (map (\<lambda>t. s_hndl (the (((shlibs st)(s \<mapsto> sh')) t))) (registry st))"
    using assms(1) unfolding dl_ok_def by (simp only:)
  moreover have "dom ((shlibs st)(s \<mapsto> sh')) = dom (shlibs st)" using assms(2) by auto
  moreover have "(\<exists>t x. ((shlibs st)(s \<mapsto> sh')) t = Some x \<and> s_hndl x = h) \<longleftrightarrow> (\<exists>t x. shlibs st t = Some x \<and> s_hndl x = h)" for h
    using assms(2,3) by (metis fun_upd_apply option.inject)
  ultimately show ?thesis using assms(1) by (simp add: dl_ok_def)
qed

lemma dl_ok_close:
  assumes d: "dl_ok st" and s: "shlibs st s = Some sh"
  shows "dl_ok (dlclose (st\<lparr>registry := remove1 s (registry st), shlibs := (shlibs st)(s := None)\<rparr>) (s_hndl sh))"
proof -
  have "map (\<lambda>t. s_hndl (the (((shlibs st)(s := None)) t))) (remove1 s (registry st))
      = map (\<lambda>t. s_hndl (the (shlibs st t))) (remove1 s (registry st))"
    using d by (intro map_cong) (auto simp: dl_ok_def)
  moreover have "distinct (map (\<lambda>t. s_hndl (the (shlibs st t))) (remove1 s (registry st)))"
    using d by (auto simp: dl_ok_def distinct_map intro: inj_on_subset)
  ultimately have "distinct (map (\<lambda>t. s_hndl (the (((shlibs st)(s := None)) t))) (remove1 s (registry st)))" by (simp only:)
  moreover have "distinct (remove1 s (registry st))" using d by (simp add: dl_ok_def)
  moreover have "set (remove1 s (registry st)) = dom ((shlibs st)(s := None))" using d by (simp add: dl_ok_def)
  moreover have "((dlopens st)(s_hndl sh := dlopens st (s_hndl sh) - 1)) h
      = (if \<exists>t x. ((shlibs st)(s := None)) t = Some x \<and> s_hndl x = h then 1 else 0)" for h
  proof (cases "h = s_hndl sh")
    case True
    have "shlibs st t = Some x \<Longrightarrow> s_hndl x = s_hndl sh \<Longrightarrow> t = s" for t x using dl_ok_inj [OF d _ s] by blast
    then have "\<not> (\<exists>t x. ((shlibs st)(s := None)) t = Some x \<and> s_hndl x = h)"
      using True by (auto split: if_splits)
    moreover have "dlopens st (s_hndl sh) = 1" using d s by (auto simp: dl_ok_def)
    ultimately show ?thesis using True by simp
  next
    case False
    then have "(\<exists>t x. ((shlibs st)(s := None)) t = Some x \<and> s_hndl x = h) \<longleftrightarrow> (\<exists>t x. shlibs st t = Some x \<and> s_hndl x = h)"
      using s by (metis fun_upd_apply option.inject option.distinct(1))
    with False d show ?thesis by (simp add: dl_ok_def)
  qed
  ultimately show ?thesis by (simp add: dl_ok_def dlclose_def)
qed

lemma dl_okI:
  assumes "distinct R" and "set R = dom S" and "distinct (map (\<lambda>s. s_hndl (the (S s))) R)"
    and "\<And>h. D h = (if \<exists>s sh. S s = Some sh \<and> s_hndl sh = h then 1 else 0)"
    and "registry st = R" "shlibs st = S" "dlopens st = D"
  shows "dl_ok st"
  using assms unfolding dl_ok_def by simp

lemma dl_ok_cong: "dl_ok st \<Longrightarrow> registry st' = registry st \<Longrightarrow> shlibs st' = shlibs st \<Longrightarrow> dlopens st' = dlopens st \<Longrightarrow> dl_ok st'"
  by (simp add: dl_ok_def)

lemma dl_ok_open:
  assumes d: "dl_ok st" and n: "shlibs st f = None" and u: "\<not> (\<exists>s x. shlibs st s = Some x \<and> s_hndl x = s_hndl sh)"
  shows "dl_ok (st\<lparr>shlibs := (shlibs st)(f \<mapsto> sh), registry := f # registry st,
           dlopens := (dlopens st)(s_hndl sh := dlopens st (s_hndl sh) + 1)\<rparr>)"
proof (rule dl_okI [of "f # registry st" "(shlibs st)(f \<mapsto> sh)" "(dlopens st)(s_hndl sh := dlopens st (s_hndl sh) + 1)"])
  have r: "set (registry st) = dom (shlibs st)" "distinct (registry st)" "distinct (map (\<lambda>s. s_hndl (the (shlibs st s))) (registry st))"
    using d unfolding dl_ok_def by blast+
  then have nf: "f \<notin> set (registry st)" using n by auto
  then show "distinct (f # registry st)" "set (f # registry st) = dom ((shlibs st)(f \<mapsto> sh))" using r by auto
  have "s_hndl (the (shlibs st t)) \<noteq> s_hndl sh" if "t \<in> set (registry st)" for t
    using that r(1) u by auto
  moreover have "map (\<lambda>s. s_hndl (the (((shlibs st)(f \<mapsto> sh)) s))) (registry st) = map (\<lambda>s. s_hndl (the (shlibs st s))) (registry st)"
    using nf by (intro map_cong) auto
  ultimately have "distinct (map (\<lambda>s. s_hndl (the (((shlibs st)(f \<mapsto> sh)) s))) (registry st))"
    "s_hndl sh \<notin> set (map (\<lambda>s. s_hndl (the (((shlibs st)(f \<mapsto> sh)) s))) (registry st))"
    using r(3) by (simp_all only:) fastforce
  then show "distinct (map (\<lambda>s. s_hndl (the (((shlibs st)(f \<mapsto> sh)) s))) (f # registry st))" by simp
  show "((dlopens st)(s_hndl sh := dlopens st (s_hndl sh) + 1)) g
      = (if \<exists>s x. ((shlibs st)(f \<mapsto> sh)) s = Some x \<and> s_hndl x = g then 1 else 0)" for g
  proof (cases "g = s_hndl sh")
    case True
    have "dlopens st (s_hndl sh) = 0" using d u unfolding dl_ok_def by simp
    moreover have "\<exists>s x. ((shlibs st)(f \<mapsto> sh)) s = Some x \<and> s_hndl x = g" using True by (intro exI [of _ f]) simp
    ultimately show ?thesis using True by simp
  next
    case False
    then have "(\<exists>s x. ((shlibs st)(f \<mapsto> sh)) s = Some x \<and> s_hndl x = g) \<longleftrightarrow> (\<exists>s x. shlibs st s = Some x \<and> s_hndl x = g)"
      using n by (metis fun_upd_other fun_upd_same option.inject option.distinct(1))
    moreover have "dlopens st g = (if \<exists>s x. shlibs st s = Some x \<and> s_hndl x = g then 1 else 0)" using d unfolding dl_ok_def by blast
    ultimately show ?thesis using False by (simp del: fun_upd_apply add: fun_upd_other)
  qed
qed simp_all

lemma counts_upd_shlib:
  assumes c: "counts_ok st H G" and s: "shlibs st s = Some sh" and r: "s_ref sh' = int (count G' s)" "0 < count G' s"
    and o: "\<And>t. t \<noteq> s \<Longrightarrow> count G' t = count G t"
  shows "counts_ok (st\<lparr>shlibs := (shlibs st)(s \<mapsto> sh')\<rparr>) H G'"
proof -
  have 1: "\<forall>t x. ((shlibs st)(s \<mapsto> sh')) t = Some x \<longrightarrow> s_ref x = int (count G' t) \<and> 0 < count G' t"
    using counts_okD(4) [OF c] r o by (simp del: count_greater_zero_iff)
  have "t \<in># G' \<Longrightarrow> t \<noteq> s \<Longrightarrow> t \<in># G" for t using o [of t] by (simp flip: count_greater_zero_iff)
  then have 2: "\<forall>t. t \<in># G' \<longrightarrow> ((shlibs st)(s \<mapsto> sh')) t \<noteq> None" using counts_okD(5) [OF c] by simp
  have "s < fresh st" using c s unfolding counts_ok_def by (metis linorder_not_less option.distinct(1))
  then have 3: "\<forall>a \<ge> fresh st. mods st a = None \<and> ((shlibs st)(s \<mapsto> sh')) a = None"
    using c unfolding counts_ok_def by simp
  from c have "finite (dom (mods st))" "\<forall>a m. mods st a = Some m \<longrightarrow> m_ref m = int (count H a) \<and> 0 < count H a"
    "\<forall>a. a \<in># H \<longrightarrow> mods st a \<noteq> None" unfolding counts_ok_def by blast+
  from this 1 2 3 show ?thesis by (rule counts_okI) (simp_all del: fun_upd_apply)
qed

lemma unref_shlib_ok:
  assumes c: "counts_ok st H (G + {#s#})" and d: "dl_ok st"
  obtains st' where "unref_shlib st s = Some st'" "counts_ok st' H G" "dl_ok st'" "mods st' = mods st" "fchain st' = fchain st"
    "filters st' = filters st" "unloads st' = unloads st" "\<And>t. t \<noteq> s \<or> s \<in># G \<Longrightarrow> shlibs st' t = None \<longleftrightarrow> shlibs st t = None"
proof -
  have "s \<in># G + {#s#}" by simp
  with counts_okD(5) [OF c] obtain sh where sh: "shlibs st s = Some sh" by blast
  from counts_okD(4) [OF c sh] have r: "s_ref sh = int (count G s) + 1" by simp
  show ?thesis
  proof (cases "s \<in># G")
    case True
    let ?sh = "sh\<lparr>s_ref := s_ref sh - 1\<rparr>"
    let ?st = "st\<lparr>shlibs := (shlibs st)(s \<mapsto> ?sh)\<rparr>"
    have "0 < count G s" using True by simp
    have "counts_ok ?st H G" by (rule counts_upd_shlib [OF c sh]) (use r \<open>0 < count G s\<close> in simp_all)
    moreover have "dl_ok ?st" by (rule dl_ok_upd [OF d sh]) simp
    moreover have "unref_shlib st s = Some ?st" using sh r True by (simp add: unref_shlib_def Let_def count_eq_zero_iff)
    moreover have "shlibs ?st t = None \<longleftrightarrow> shlibs st t = None" for t using sh by simp
    ultimately show ?thesis by (intro that [of ?st]) simp_all
  next
    case False
    let ?st = "dlclose (st\<lparr>registry := remove1 s (registry st), shlibs := (shlibs st)(s := None)\<rparr>) (s_hndl sh)"
    have n: "count G s = 0" using False by (simp add: count_eq_zero_iff)
    have 1: "\<forall>t x. ((shlibs st)(s := None)) t = Some x \<longrightarrow> s_ref x = int (count G t) \<and> 0 < count G t"
      using counts_okD(4) [OF c] by (fastforce split: if_splits)
    have 2: "\<forall>t. t \<in># G \<longrightarrow> ((shlibs st)(s := None)) t \<noteq> None" using counts_okD(5) [OF c] False by auto
    have 3: "\<forall>a \<ge> fresh st. mods st a = None \<and> ((shlibs st)(s := None)) a = None" using counts_ok_fresh [OF c] by simp
    have "\<forall>a m. mods st a = Some m \<longrightarrow> m_ref m = int (count H a) \<and> 0 < count H a" "\<forall>a. a \<in># H \<longrightarrow> mods st a \<noteq> None"
      using counts_okD(2,3) [OF c] by blast+
    from counts_okD(1) [OF c] this 1 2 3 have "counts_ok ?st H G" by (rule counts_okI) (simp_all add: dlclose_def del: fun_upd_apply)
    moreover have "unref_shlib st s = Some ?st" using sh r n by (simp add: unref_shlib_def shlib_dtor_def Let_def)
    moreover have "t \<noteq> s \<or> s \<in># G \<Longrightarrow> shlibs ?st t = None \<longleftrightarrow> shlibs st t = None" for t using False by (auto simp: dlclose_def)
    ultimately show ?thesis using dl_ok_close [OF d sh] by (intro that [of ?st]) (simp_all add: dlclose_def)
  qed
qed

lemma shlibUnloadCB_inv:
  assumes "loader_inv st" and "i < length (unloads st)"
  obtains st' where "shlibUnloadCB st i = Some st'" "loader_inv st'" "mods st' = mods st" "fchain st' = fchain st"
    "filters st' = filters st" "length (unloads st') < length (unloads st)"
proof -
  let ?s = "st\<lparr>unloads := take i (unloads st) @ drop (i + 1) (unloads st)\<rparr>"
  have o: "owned st = owned ?s + {#unloads st ! i#}"
    using take_drop_mset [OF assms(2)] by (simp add: owned_def owners_def)
  have "holds ?s = holds st" by (simp add: holds_def)
  then have c: "counts_ok ?s (holds ?s) (owned ?s + {#unloads st ! i#})" "dl_ok ?s"
    using assms(1) inv_counts_cong [of st "holds st" "owned st" ?s] o by (simp_all add: loader_inv_def dl_ok_def)
  obtain st' where st': "unref_shlib ?s (unloads st ! i) = Some st'" "counts_ok st' (holds ?s) (owned ?s)" "dl_ok st'"
    "mods st' = mods ?s" "fchain st' = fchain ?s" "filters st' = filters ?s" "unloads st' = unloads ?s"
    by (rule unref_shlib_ok [OF c]) blast
  have "holds st' = holds ?s" "owned st' = owned ?s"
    using st' by (simp_all add: holds_def owned_def owners_def)
  with st' assms(2) show ?thesis by (intro that [of st']) (simp_all add: shlibUnloadCB_def loader_inv_def)
qed

lemma ref_shlib_ok:
  assumes "counts_ok st H G" and "shlibs st s \<noteq> None" and "dl_ok st"
  obtains sh where "shlibs st s = Some sh" "ref_shlib st s = Some (st\<lparr>shlibs := (shlibs st)(s \<mapsto> sh\<lparr>s_ref := s_ref sh + 1\<rparr>)\<rparr>)"
    "counts_ok (st\<lparr>shlibs := (shlibs st)(s \<mapsto> sh\<lparr>s_ref := s_ref sh + 1\<rparr>)\<rparr>) H (G + {#s#})"
    "dl_ok (st\<lparr>shlibs := (shlibs st)(s \<mapsto> sh\<lparr>s_ref := s_ref sh + 1\<rparr>)\<rparr>)"
proof -
  from assms(2) obtain sh where sh: "shlibs st s = Some sh" by blast
  let ?sh = "sh\<lparr>s_ref := s_ref sh + 1\<rparr>"
  have "counts_ok (st\<lparr>shlibs := (shlibs st)(s \<mapsto> ?sh)\<rparr>) H (G + {#s#})"
    by (rule counts_upd_shlib [OF assms(1) sh]) (use counts_okD(4) [OF assms(1) sh] in simp_all)
  moreover have "dl_ok (st\<lparr>shlibs := (shlibs st)(s \<mapsto> ?sh)\<rparr>)" by (rule dl_ok_upd [OF assms(3) sh]) simp
  moreover have "ref_shlib st s = Some (st\<lparr>shlibs := (shlibs st)(s \<mapsto> ?sh)\<rparr>)" using sh by (simp add: ref_shlib_def)
  ultimately show ?thesis using sh by (intro that [of sh])
qed

definition loading_inv :: "loader \<Rightarrow> oid \<Rightarrow> bool" where
  "loading_inv st s \<longleftrightarrow> counts_ok st (holds st) (owned st + {#s#}) \<and> dl_ok st \<and> loading st = Some s"

lemma moduleRegister_inv:
  assumes "loading_inv st s"
  obtains st' where "moduleRegister st x = Some st'" "loading_inv st' s"
proof (cases "snd x = MODULE_API_VERSION")
  case False
  then show ?thesis using assms that [of st] by (simp add: moduleRegister_def split_beta)
next
  case True
  from assms have c: "counts_ok st (holds st) (owned st + {#s#})" and d: "dl_ok st" and l: "loading st = Some s"
    by (auto simp: loading_inv_def)
  let ?f = "fresh st" and ?t = "fst x"
  let ?m = "\<lparr>m_ref = 1, m_owner = s\<rparr>"
  let ?s1 = "st\<lparr>mods := (mods st)(?f \<mapsto> ?m), fchain := (fchain st)(?t := fchain st ?t @ [?f]), fresh := ?f + 1\<rparr>"
  have n: "mods st ?f = None" "shlibs st ?f = None" using counts_okD(6,7) [OF c] by auto
  then have nh: "?f \<notin># holds st" using counts_okD(3) [OF c] by blast
  have c1: "counts_ok ?s1 (holds st + {#?f#}) (owned st + {#s#})"
  proof (rule counts_okI [of "(mods st)(?f \<mapsto> ?m)" _ "shlibs st" _ "?f + 1"])
    show "\<forall>a m. ((mods st)(?f \<mapsto> ?m)) a = Some m \<longrightarrow> m_ref m = int (count (holds st + {#?f#}) a) \<and> 0 < count (holds st + {#?f#}) a"
      using counts_okD(2) [OF c] nh by (auto simp: count_eq_zero_iff simp del: count_greater_zero_iff)
    show "finite (dom ((mods st)(?f \<mapsto> ?m)))" using counts_okD(1) [OF c] by simp
    show "\<forall>a. a \<in># holds st + {#?f#} \<longrightarrow> ((mods st)(?f \<mapsto> ?m)) a \<noteq> None" using counts_okD(3) [OF c] by auto
    show "\<forall>t x. shlibs st t = Some x \<longrightarrow> s_ref x = int (count (owned st + {#s#}) t) \<and> 0 < count (owned st + {#s#}) t"
      using counts_okD(4) [OF c] by blast
    show "\<forall>t. t \<in># owned st + {#s#} \<longrightarrow> shlibs st t \<noteq> None" using counts_okD(5) [OF c] by blast
    show "\<forall>a \<ge> ?f + 1. ((mods st)(?f \<mapsto> ?m)) a = None \<and> shlibs st a = None" using counts_ok_fresh [OF c] by simp
  qed simp_all
  have ow: "owned ?s1 = owned st + {#s#}"
    using owners_new [OF counts_okD(1) [OF c] n(1), of ?m] owners_cong [of ?s1 "st\<lparr>mods := (mods st)(?f \<mapsto> ?m)\<rparr>"]
    by (simp add: owned_def)
  have ho: "holds ?s1 = holds st + {#?f#}"
    using holds_append [of st ?t ?f] holds_cong [of ?s1 "st\<lparr>fchain := (fchain st)(?t := fchain st ?t @ [?f])\<rparr>"] by simp
  have d1: "dl_ok ?s1" using d by (simp add: dl_ok_def)
  have s1: "shlibs ?s1 s \<noteq> None" using counts_okD(5) [OF c] by simp
  obtain st' where st': "ref_shlib ?s1 s = Some st'"
    "counts_ok st' (holds st + {#?f#}) (owned st + {#s#} + {#s#})" "dl_ok st'"
    "mods st' = mods ?s1" "fchain st' = fchain ?s1" "filters st' = filters st" "unloads st' = unloads st" "loading st' = loading st"
    by (rule ref_shlib_ok [OF c1 s1 d1]) simp
  have "holds st' = holds ?s1" using st' by (intro holds_cong) simp_all
  moreover have "owned st' = owned ?s1" using st' by (simp add: owned_def owners_def)
  ultimately have "loading_inv st' s" using st' l ho ow by (simp add: loading_inv_def)
  moreover have "moduleRegister st x = Some st'" using True l st'(1) by (simp add: moduleRegister_def split_beta)
  ultimately show ?thesis using that by blast
qed

lemma foldM_register: "loading_inv st s \<Longrightarrow> \<exists>st'. foldM moduleRegister st xs = Some st' \<and> loading_inv st' s"
proof (induction xs arbitrary: st)
  case (Cons x xs)
  from Cons.prems obtain s1 where "moduleRegister st x = Some s1" "loading_inv s1 s" by (rule moduleRegister_inv)
  with Cons.IH [of s1] show ?case by simp
qed simp

lemma init_module_inv:
  assumes "loading_inv st s"
  shows "\<exists>st'. (case foldM moduleRegister st xs of None \<Rightarrow> None
      | Some st \<Rightarrow> map_option (\<lambda>st. if shlibs st s = None then st\<lparr>loading := None\<rparr> else st) (unref_shlib st s)) = Some st' \<and> loader_inv st'"
proof -
  from foldM_register [OF assms] obtain s1 where s1: "foldM moduleRegister st xs = Some s1" "loading_inv s1 s" by blast
  then have "counts_ok s1 (holds s1) (owned s1 + {#s#})" "dl_ok s1" by (auto simp: loading_inv_def)
  then obtain s2 where s2: "unref_shlib s1 s = Some s2" "counts_ok s2 (holds s1) (owned s1)" "dl_ok s2" "mods s2 = mods s1"
    "fchain s2 = fchain s1" "filters s2 = filters s1" "unloads s2 = unloads s1" by (rule unref_shlib_ok) blast
  let ?s3 = "if shlibs s2 s = None then s2\<lparr>loading := None\<rparr> else s2"
  have "holds ?s3 = holds s1" "owned ?s3 = owned s1" using s2 by (simp_all add: holds_def owned_def owners_def)
  moreover have "counts_ok ?s3 (holds s1) (owned s1)" using inv_counts_cong [OF s2(2), of ?s3] by simp
  moreover have "dl_ok ?s3" using s2(3) by (simp add: dl_ok_def)
  ultimately show ?thesis using s1(1) s2(1) by (simp add: loader_inv_def)
qed

lemma moduleLoad_inv:
  assumes inv: "loader_inv st"
  shows "\<exists>st'. moduleLoad L st module args = Some st' \<and> loader_inv st'"
proof (cases "dl_open L module")
  case None
  with inv show ?thesis by (simp add: moduleLoad_def)
next
  case (Some h)
  from inv have c: "counts_ok st (holds st) (owned st)" and d: "dl_ok st" by (auto simp: loader_inv_def)
  have close: "dlclose (st\<lparr>dlopens := (dlopens st)(h := dlopens st h + 1)\<rparr>) h = st"
    by (simp add: dlclose_def fun_upd_idem)
  show ?thesis
  proof (cases "dl_sym L h")
    case False
    with Some close inv show ?thesis by (simp add: moduleLoad_def)
  next
    case sym: True
    let ?P = "\<lambda>s. map_option s_hndl (shlibs st s) = Some h"
    show ?thesis
    proof (cases "List.find ?P (registry st)")
      case f: (Some s)
      then have s: "shlibs st s \<noteq> None" by (auto simp: find_Some_iff)
      let ?s0 = "st\<lparr>loading := Some s\<rparr>"
      have c0: "counts_ok ?s0 (holds st) (owned st)" using inv_counts_cong [OF c] by simp
      have d0: "dl_ok ?s0" using d by (simp add: dl_ok_def)
      have s0: "shlibs ?s0 s \<noteq> None" using s by simp
      obtain s1 where s1: "ref_shlib ?s0 s = Some s1" "counts_ok s1 (holds st) (owned st + {#s#})"
        "dl_ok s1" "mods s1 = mods st" "fchain s1 = fchain st" "filters s1 = filters st" "unloads s1 = unloads st" "loading s1 = Some s"
        by (rule ref_shlib_ok [OF c0 s0 d0]) simp
      then have "loading_inv s1 s" by (simp add: loading_inv_def holds_def owned_def owners_def)
      from init_module_inv [OF this, of "dl_init L h args"] show ?thesis
        using Some sym f close s1(1) by (simp add: moduleLoad_def)
    next
      case None
      let ?f = "fresh st"
      let ?sh = "\<lparr>s_ref = 1, s_name = name_of module, s_hndl = h\<rparr>"
      let ?s1 = "st\<lparr>dlopens := (dlopens st)(h := dlopens st h + 1), registry := ?f # registry st, fresh := ?f + 1,
        loading := Some ?f, shlibs := (shlibs st)(?f \<mapsto> ?sh)\<rparr>"
      have n: "mods st ?f = None" "shlibs st ?f = None" using counts_okD(6,7) [OF c] by auto
      then have nf: "?f \<notin># owned st" using counts_okD(5) [OF c] by blast
      have unused: "\<not> (\<exists>s x. shlibs st s = Some x \<and> s_hndl x = h)"
        using None d by (auto simp: find_None_iff dl_ok_def dom_def)
      have c1: "counts_ok ?s1 (holds st) (owned st + {#?f#})"
      proof (rule counts_okI [of "mods st" _ "(shlibs st)(?f \<mapsto> ?sh)" _ "?f + 1"])
        show "\<forall>t x. ((shlibs st)(?f \<mapsto> ?sh)) t = Some x \<longrightarrow> s_ref x = int (count (owned st + {#?f#}) t) \<and> 0 < count (owned st + {#?f#}) t"
          using counts_okD(4) [OF c] nf by (auto simp: count_eq_zero_iff simp del: count_greater_zero_iff)
        show "\<forall>a m. mods st a = Some m \<longrightarrow> m_ref m = int (count (holds st) a) \<and> 0 < count (holds st) a"
          using counts_okD(2) [OF c] by blast
        show "\<forall>a. a \<in># holds st \<longrightarrow> mods st a \<noteq> None" using counts_okD(3) [OF c] by blast
        show "\<forall>t. t \<in># owned st + {#?f#} \<longrightarrow> ((shlibs st)(?f \<mapsto> ?sh)) t \<noteq> None" using counts_okD(5) [OF c] by auto
        show "\<forall>a \<ge> ?f + 1. mods st a = None \<and> ((shlibs st)(?f \<mapsto> ?sh)) a = None" using counts_ok_fresh [OF c] by simp
      qed (use counts_okD(1) [OF c] in simp_all)
      have d0: "dl_ok (st\<lparr>shlibs := (shlibs st)(?f \<mapsto> ?sh), registry := ?f # registry st,
          dlopens := (dlopens st)(s_hndl ?sh := dlopens st (s_hndl ?sh) + 1)\<rparr>)"
        by (rule dl_ok_open [OF d n(2)]) (use unused in simp)
      have d1: "dl_ok ?s1" by (rule dl_ok_cong [OF d0]) simp_all
      have "loading_inv ?s1 ?f" using c1 d1 by (simp add: loading_inv_def holds_def owned_def owners_def)
      from init_module_inv [OF this, of "dl_init L h args"] show ?thesis
        using Some sym None n by (simp add: moduleLoad_def ref_shlib_def)
    qed
  qed
qed

lemma perform_inv:
  assumes "loader_inv st" and "enabled st ev"
  shows "\<exists>st'. perform L st ev = Some st' \<and> loader_inv st'"
proof (cases ev)
  case (Load module args)
  with moduleLoad_inv [OF assms(1)] show ?thesis by simp
next
  case UnloadAll
  with assms show ?thesis by (auto elim: moduleUnloadAll_inv)
next
  case (NewFilters as)
  with assms show ?thesis by (auto elim: filters_new_inv)
next
  case (EndFilters i)
  with assms show ?thesis by (auto elim: filters_destroy_inv)
next
  case (Timer i)
  with assms show ?thesis by (auto elim: shlibUnloadCB_inv)
qed

lemma reachable_inv: "reachable L st \<Longrightarrow> loader_inv st"
proof (induction rule: reachable.induct)
  case (reach_step st ev st')
  with perform_inv [of st ev L] show ?case by auto
qed simp

section \<open>What is left when all is over\<close>

fun quiet :: "event \<Rightarrow> bool" where
  "quiet (EndFilters i) = True"
| "quiet (Timer i) = True"
| "quiet _ = False"

fun run_events :: "libs \<Rightarrow> loader \<Rightarrow> event list \<Rightarrow> loader option" where
  "run_events L st [] = Some st"
| "run_events L st (ev # evs) =
     (if enabled st ev then (case perform L st ev of None \<Rightarrow> None | Some st \<Rightarrow> run_events L st evs) else None)"

lemma reachable_run: "reachable L st \<Longrightarrow> run_events L st evs = Some st' \<Longrightarrow> reachable L st'"
  by (induction evs arbitrary: st) (auto split: if_splits option.splits intro: reach_step)

lemma drained:
  assumes "loader_inv st" and "fchain st = (\<lambda>_. [])" and "filters st = []" and "unloads st = []"
  shows "mods st = Map.empty" "shlibs st = Map.empty" "dlopens st = (\<lambda>_. 0)" "registry st = []"
proof -
  from assms(1) have c: "counts_ok st (holds st) (owned st)" and d: "dl_ok st" by (auto simp: loader_inv_def)
  have "holds st = {#}" using assms(2,3) by (simp add: holds_def all_types_def)
  then have "mods st a = None" for a using counts_okD(2) [OF c, of a] by (cases "mods st a") auto
  then show m: "mods st = Map.empty" by blast
  then have "owned st = {#}" using assms(4) by (simp add: owned_def owners_def)
  then have "shlibs st a = None" for a using counts_okD(4) [OF c, of a] by (cases "shlibs st a") auto
  then show s: "shlibs st = Map.empty" by blast
  then show "dlopens st = (\<lambda>_. 0)" "registry st = []" using d by (auto simp: dl_ok_def)
qed

lemma quiet_step:
  assumes "loader_inv st" and "quiet ev" and "enabled st ev" and "perform L st ev = Some st'"
  shows "loader_inv st'" "fchain st' = fchain st"
    "((length (filters st'), length (unloads st')), (length (filters st), length (unloads st))) \<in> less_than <*lex*> less_than"
proof -
  have "loader_inv st' \<and> fchain st' = fchain st
      \<and> (length (filters st') < length (filters st) \<or> filters st' = filters st \<and> length (unloads st') < length (unloads st))"
  proof (cases ev)
    case (EndFilters i)
    with assms(3) obtain s1 where "filters_destroy st i = Some s1" "loader_inv s1" "fchain s1 = fchain st"
      "length (filters s1) < length (filters st)" using filters_destroy_inv [OF assms(1), of i] by (metis enabled.simps(1))
    with assms(4) EndFilters show ?thesis by simp
  next
    case (Timer i)
    with assms(3) obtain s1 where "shlibUnloadCB st i = Some s1" "loader_inv s1" "fchain s1 = fchain st"
      "filters s1 = filters st" "length (unloads s1) < length (unloads st)"
      using shlibUnloadCB_inv [OF assms(1), of i] by (metis enabled.simps(2))
    with assms(4) Timer show ?thesis by simp
  qed (use assms(2) in simp_all)
  then show "loader_inv st'" "fchain st' = fchain st"
    "((length (filters st'), length (unloads st')), (length (filters st), length (unloads st))) \<in> less_than <*lex*> less_than" by auto
qed

lemma run_quiet:
  "loader_inv st \<Longrightarrow> list_all quiet evs \<Longrightarrow> run_events L st evs = Some st' \<Longrightarrow> loader_inv st' \<and> fchain st' = fchain st"
proof (induction evs arbitrary: st)
  case (Cons ev evs)
  then obtain s1 where s1: "enabled st ev" "perform L st ev = Some s1" "run_events L s1 evs = Some st'" "quiet ev" "list_all quiet evs"
    by (auto split: if_splits option.splits)
  from quiet_step [OF Cons.prems(1) s1(4,1,2)] Cons.IH [OF _ s1(5,3)] show ?case by simp
qed simp

section \<open>Properties\<close>

text \<open>
  C23. No module is unloaded while something of it is alive. In every state the loader can reach, every
  operation that can be asked for next, loading, unloading all modules on a reconfiguration, starting and
  ending filters, and the timer events, succeeds without a failed assertion or the use of a freed object;
  the code of every module object, of the modules behind every filter object, and of every library whose
  release is still pending is in memory; and neither unloading all modules nor ending a filter closes a
  library: that is left to the timer.
\<close>

theorem modules_stay_mapped:
  assumes "reachable L st" and "enabled st ev"
  shows "(\<exists>st'. perform L st ev = Some st' \<and> reachable L st'
            \<and> (ev = UnloadAll \<or> (\<exists>i. ev = EndFilters i) \<longrightarrow> dlopens st' = dlopens st))
       \<and> (\<forall>a m. mods st a = Some m \<longrightarrow> mapped st (m_owner m))
       \<and> (\<forall>fs \<in> set (filters st). \<forall>a \<in> set fs. \<exists>m. mods st a = Some m \<and> mapped st (m_owner m))
       \<and> (\<forall>s \<in> set (unloads st). mapped st s)"
proof (intro conjI ballI allI impI)
  from assms(1) have inv: "loader_inv st" by (rule reachable_inv)
  then have c: "counts_ok st (holds st) (owned st)" and d: "dl_ok st" by (auto simp: loader_inv_def)
  show m: "mods st a = Some m \<Longrightarrow> mapped st (m_owner m)" for a m by (rule owner_mapped [OF c d])
  show "\<exists>m. mods st a = Some m \<and> mapped st (m_owner m)" if "fs \<in> set (filters st)" "a \<in> set fs" for fs a
    using that m counts_okD(3) [OF c, of a] by (fastforce simp: holds_def)
  show "mapped st s" if "s \<in> set (unloads st)" for s
  proof -
    from that counts_okD(5) [OF c, of s] obtain sh where "shlibs st s = Some sh" by (auto simp: owned_def)
    moreover from this d have "dlopens st (s_hndl sh) = 1" by (auto simp: dl_ok_def)
    ultimately show ?thesis by (simp add: mapped_def)
  qed
  from perform_inv [OF inv assms(2), of L] obtain st' where st': "perform L st ev = Some st'" by blast
  moreover have "dlopens st' = dlopens st" if "ev = UnloadAll \<or> (\<exists>i. ev = EndFilters i)"
    using that
  proof
    obtain s1 where "moduleUnloadAll st = Some s1" "dlopens s1 = dlopens st" by (rule moduleUnloadAll_inv [OF inv])
    moreover assume "ev = UnloadAll"
    ultimately show ?thesis using st' by simp
  next
    assume "\<exists>i. ev = EndFilters i"
    then obtain i where i: "ev = EndFilters i" by blast
    with assms(2) have "i < length (filters st)" by simp
    then obtain s1 where "filters_destroy st i = Some s1" "dlopens s1 = dlopens st" by (rule filters_destroy_inv [OF inv])
    with i show ?thesis using st' by simp
  qed
  ultimately show "\<exists>st'. perform L st ev = Some st' \<and> reachable L st'
      \<and> (ev = UnloadAll \<or> (\<exists>i. ev = EndFilters i) \<longrightarrow> dlopens st' = dlopens st)"
    using reach_step [OF assms] by blast
qed


definition demo_libs :: libs where
  "demo_libs = \<lparr>dl_open = \<lambda>p. if p = ''/m.so'' then Some 7 else None, dl_sym = \<lambda>_. True,
     dl_init = \<lambda>_ _. [(FIL_CONTFILTER, MODULE_API_VERSION), (FIL_REDIRECT, 1)]\<rparr>"

lemma demo_run:
  obtains st where "reachable demo_libs st" "filters st = [[1]]" "dlopens st 7 = 1" "unloads st = []"
proof -
  have r: "map_option (\<lambda>st. (filters st, unloads st, dlopens st 7)) (run_events demo_libs loader_init [Load ''/m.so'' [], NewFilters [1]])
      = Some ([[1]], [], 1)" by code_simp
  then obtain st where "run_events demo_libs loader_init [Load ''/m.so'' [], NewFilters [1]] = Some st" by fastforce
  moreover from this r have "filters st = [[1]]" "unloads st = []" "dlopens st 7 = 1" by simp_all
  ultimately show ?thesis using that reachable_run [OF reach_init] by blast
qed

theorem modules_stay_mapped_witness:
  "\<exists>st st'. filters st = [[1]] \<and> perform demo_libs st UnloadAll = Some st' \<and> dlopens st' 7 = 1"
proof -
  obtain st where st: "reachable demo_libs st" "filters st = [[1]]" "dlopens st 7 = 1" by (rule demo_run)
  from modules_stay_mapped [OF st(1), of UnloadAll] st show ?thesis by auto
qed


end
