(* ===== verification/LibString.thy ===== *)
theory LibString
  imports Prelude
begin

text \<open>
  The string functions of the appliance's own library (\<^verbatim>\<open>v3.1/src/mybox/lib\<close>): \<open>trim\<close>, \<open>stripchar\<close>,
  \<open>stristr\<close>, \<open>substr\<close>, \<open>splitc\<close>, \<open>split_array\<close>, \<open>str_replace\<close> and the allocating copies. Each is
  modelled with the loops and the index arithmetic of the code, and shown equal to a description of its
  result. A read or write outside of an object is the result \<open>None\<close>.
\<close>

section \<open>Trimming and stripping\<close>

text \<open>\<open>while (len && isspace(s[len-1])) --len;\<close>\<close>

fun trim_len :: "string \<Rightarrow> nat \<Rightarrow> nat" where
  "trim_len s 0 = 0"
| "trim_len s (Suc len) = (if isspace (s ! len) then trim_len s len else Suc len)"

definition white :: string where
  "white = [CHR '' '', CHR 0x0A, CHR 0x0D, CHR 0x09, CHR 0x0B, CHR 0x0C]"

definition trim :: "string \<Rightarrow> string" where
  "trim s =
     (let len = trim_len s (length s) in
      if len \<noteq> 0 then (let lws = strspn s white in take (len - lws) (drop lws s)) else [])"

fun strip_loop :: "string \<Rightarrow> char \<Rightarrow> nat \<Rightarrow> nat \<Rightarrow> string \<Rightarrow> string" where
  \<comment> \<open>\<open>n\<close> rounds from index \<open>i\<close> on; \<open>t\<close> is what has been stored\<close>
  "strip_loop string r i 0 t = t"
| "strip_loop string r i (Suc n) t =
     (if string ! i = r then strip_loop string r (i + 1) n t else strip_loop string r (i + 1) n (t @ [string ! i]))"

definition stripchar :: "string \<Rightarrow> char \<Rightarrow> string" where
  "stripchar string r = strip_loop string r 0 (length string) []"

section \<open>Searching\<close>

text \<open>
  \<open>stristr\<close>: the pointers are offsets; a read one past the last byte yields the terminating NUL. The
  inner \<open>while\<close> gives whether the pattern was read to its end.
\<close>

fun nth0 :: "string \<Rightarrow> nat \<Rightarrow> char" where
  "nth0 s i = (if i < length s then s ! i else NUL)"

function stristr_cmp :: "string \<Rightarrow> string \<Rightarrow> nat \<Rightarrow> nat \<Rightarrow> bool" where
  "stristr_cmp string pattern sptr pptr =
     (if pptr < length pattern \<and> toupper (nth0 string sptr) = toupper (nth0 pattern pptr) then
        (if nth0 pattern (pptr + 1) = NUL then True else stristr_cmp string pattern (sptr + 1) (pptr + 1))
      else False)"
  by pat_completeness auto
termination by (relation "measure (\<lambda>(s, p, i, j). length p - j)") auto

function stristr_loop :: "string \<Rightarrow> string \<Rightarrow> nat \<Rightarrow> int" where
  "stristr_loop string pattern start =
     (if start < length string then
        (if toupper (string ! start) \<noteq> toupper (nth0 pattern 0) then stristr_loop string pattern (start + 1)
         else if stristr_cmp string pattern start 0 then int start
         else stristr_loop string pattern (start + 1))
      else - 1)"
  by pat_completeness auto
termination by (relation "measure (\<lambda>(s, p, i). length s - i)") auto

definition stristr :: "string \<Rightarrow> string \<Rightarrow> int" where
  "stristr string pattern = stristr_loop string pattern 0"

declare stristr_cmp.simps [simp del] stristr_loop.simps [simp del]

section \<open>Cutting\<close>

definition substr :: "string \<Rightarrow> int \<Rightarrow> nat \<Rightarrow> string" where
  "substr string start count =
     (let len = length string; start = (if start < 0 then int len + start else start) in
      if 0 \<le> start \<and> start < int len then
        (let count = (if count = 0 \<or> count > len - nat start then len - nat start else count)
         in take count (drop (nat start) string))
      else [])"

text \<open>
  \<open>splitc\<close> on its three kinds of destination: NULL, the string itself, another buffer. The result is what
  \<open>first\<close> (\<open>None\<close> for NULL) and \<open>rest\<close> hold afterwards.
\<close>

datatype first_arg = FNull | FSame | FBuf string

definition splitc :: "first_arg \<Rightarrow> string \<Rightarrow> char \<Rightarrow> cptr \<times> string" where
  "splitc first rest divider =
     (case strchr rest divider of
        None \<Rightarrow> (case first of FNull \<Rightarrow> (None, rest) | FSame \<Rightarrow> (Some rest, rest) | FBuf _ \<Rightarrow> (Some [], rest))
      | Some p \<Rightarrow>
          (case first of
             FNull \<Rightarrow> (None, drop (p + 1) rest)
           | FSame \<Rightarrow> (Some (take p rest), take p rest)
           | FBuf _ \<Rightarrow> (Some (take p rest), drop (p + 1) rest)))"

text \<open>\<open>strtok\<close>: the token, if there is one, and where the next call goes on.\<close>

definition strtok :: "string \<Rightarrow> string \<Rightarrow> (string \<times> string) option" where
  "strtok delims s =
     (let s = dropWhile (\<lambda>c. c \<in> set delims) s in
      if s = [] then None
      else Some (takeWhile (\<lambda>c. c \<notin> set delims) s, drop 1 (dropWhile (\<lambda>c. c \<notin> set delims) s)))"

lemma strtok_progress: "strtok delims s = Some (t, r) \<Longrightarrow> length r < length s"
proof -
  assume "strtok delims s = Some (t, r)"
  then have "dropWhile (\<lambda>c. c \<in> set delims) s \<noteq> []"
    and r: "r = drop 1 (dropWhile (\<lambda>c. c \<notin> set delims) (dropWhile (\<lambda>c. c \<in> set delims) s))"
    by (auto simp: strtok_def Let_def split: if_splits)
  then have "0 < length s" by auto
  moreover have "length (dropWhile (\<lambda>c. c \<notin> set delims) (dropWhile (\<lambda>c. c \<in> set delims) s)) \<le> length s"
    using length_dropWhile_le le_trans by blast
  moreover have "length (drop 1 xs) < length xs \<or> xs = []" for xs :: string by (cases xs) auto
  ultimately show ?thesis using r by (metis drop_Nil le_less_trans length_greater_0_conv less_le_trans list.size(3))
qed

function tokens :: "string \<Rightarrow> string \<Rightarrow> string list" where
  "tokens delims s = (case strtok delims s of None \<Rightarrow> [] | Some (t, r) \<Rightarrow> t # tokens delims r)"
  by pat_completeness auto
termination by (relation "measure (\<lambda>(d, s). length s)") (auto dest: strtok_progress)

declare tokens.simps [simp del]

text \<open>
  \<open>split_array\<close>: the number of tokens, which is returned as a \<open>char\<close>, and the tokens themselves, for
  which the string is copied and cut a second time. \<open>-1\<close> and \<open>None\<close> for a NULL argument.
\<close>

definition to_char :: "int \<Rightarrow> int" where
  \<comment> \<open>the conversion to a signed \<open>char\<close>\<close>
  "to_char i = (i + 128) mod 256 - 128"

definition split_array :: "cptr \<Rightarrow> cptr \<Rightarrow> int \<times> string list option" where
  "split_array s delimiters =
     (case (s, delimiters) of
        (Some s, Some delimiters) \<Rightarrow>
          (let snew = drop (strspn s delimiters) s;
               numtokens = length (tokens delimiters snew)
           in (to_char (int numtokens), Some (if numtokens = 0 then [] else tokens delimiters snew)))
      | _ \<Rightarrow> (- 1, None))"

section \<open>Replacing\<close>

text \<open>
  \<open>str_replace_add\<close> appends to a block of memory. The first call, with a count \<open>s\<close>, allocates \<open>s\<close> bytes
  and stores a NUL behind them: that is a write outside of the block unless the allocator happens to
  leave room, which is what \<open>slack\<close> says.
\<close>

definition str_replace_add :: "bool \<Rightarrow> cptr \<Rightarrow> string \<Rightarrow> nat \<Rightarrow> string option" where
  "str_replace_add slack start string_add s =
     (let ss = (if s = 0 then length string_add + 1 else s) in
      case start of
        None \<Rightarrow> if s \<noteq> 0 \<and> \<not> slack then None else Some (take ss string_add)
      | Some st \<Rightarrow> Some (st @ take ss string_add))"

text \<open>The outer option is for a memory error, the inner one for NULL.\<close>

definition str_replace :: "bool \<Rightarrow> string \<Rightarrow> string \<Rightarrow> string \<Rightarrow> cptr option" where
  "str_replace slack string search_string replace_string =
     (case strstr string search_string of
        None \<Rightarrow> Some None
      | Some 0 \<Rightarrow>
          (case str_replace_add slack None replace_string 0 of
             None \<Rightarrow> None
           | Some str \<Rightarrow>
               map_option Some (str_replace_add slack (Some str) (drop (length search_string) string) 0))
      | Some spos \<Rightarrow>
          (case str_replace_add slack None string spos of
             None \<Rightarrow> None
           | Some str \<Rightarrow>
               (case str_replace_add slack (Some str) replace_string 0 of
                  None \<Rightarrow> None
                | Some str \<Rightarrow>
                    map_option Some (str_replace_add slack (Some str) (drop (length search_string + spos) string) 0))))"

section \<open>Copies\<close>

definition xstrndup :: "string \<Rightarrow> nat \<Rightarrow> bytes" where
  \<comment> \<open>the block of \<open>n + 1\<close> bytes: \<open>strncpy\<close> fills it, without a NUL when the string is longer\<close>
  "xstrndup s n = (let n = n + 1 in take n (s @ replicate n NUL))"

definition xstrdup :: "string \<Rightarrow> bytes" where
  "xstrdup s = xstrndup s (length s)"

definition lib_xstrncpy :: "bytes \<Rightarrow> string \<Rightarrow> nat \<Rightarrow> bytes option" where
  \<comment> \<open>what \<open>dst\<close> holds afterwards\<close>
  "lib_xstrncpy dst src sz =
     (if sz = 0 \<or> sz > length dst then None
      else Some (take (sz - 1) (src @ replicate sz NUL) @ NUL # drop sz dst))"

section \<open>What they compute\<close>

lemma trim_len_eq: "n \<le> length s \<Longrightarrow> take (trim_len s n) s = rev (dropWhile isspace (rev (take n s)))"
proof (induction n)
  case (Suc n)
  then have "take (Suc n) s = take n s @ [s ! n]" by (simp add: take_Suc_conv_app_nth)
  with Suc show ?case by auto
qed simp

lemma trim_len_le: "trim_len s n \<le> n"
  by (induction n) (auto intro: le_SucI)

lemma isspace_white: "isspace c \<longleftrightarrow> c \<in> set white"
  by (auto simp: isspace_def white_def char_eq_ord) (auto simp: ord_def)

lemma trim_spec: "trim s = dropWhile isspace (rev (dropWhile isspace (rev s)))"
proof -
  let ?n = "trim_len s (length s)"
  have t: "take ?n s = rev (dropWhile isspace (rev s))" using trim_len_eq [of "length s" s] by simp
  show ?thesis
  proof (cases "?n = 0")
    case True
    with t have d: "dropWhile isspace (rev s) = []" by (simp del: dropWhile_eq_Nil_conv)
    from True show ?thesis unfolding d by (simp add: trim_def)
  next
    case False
    then obtain m where m: "?n = Suc m" by (cases ?n) auto
    have n: "?n \<le> length s" by (rule trim_len_le)
    have "length (take ?n s) \<noteq> 0" using m n by (simp only: length_take)
    then have "rev (dropWhile isspace (rev s)) \<noteq> []" unfolding t by (simp only: length_0_conv not_False_eq_True)
    then have last: "\<not> isspace (last (take ?n s))"
      unfolding t by (metis Nil_is_rev_conv hd_dropWhile last_rev)
    then have l: "\<not> isspace (s ! m)" using m n by (simp add: take_Suc_conv_app_nth)
    have sp: "strspn s white = length (takeWhile isspace s)"
    proof -
      have "(\<lambda>c. c \<in> set white) = isspace" by (simp add: fun_eq_iff isspace_white)
      then show ?thesis by (simp only: strspn_def)
    qed
    have lt: "length (takeWhile isspace s) \<le> m"
    proof (rule ccontr)
      assume "\<not> ?thesis"
      then have "s ! m = takeWhile isspace s ! m" "m < length (takeWhile isspace s)" by (simp_all add: takeWhile_nth)
      with l show False by (metis nth_mem set_takeWhileD)
    qed
    have "dropWhile isspace (take ?n s) = drop (length (takeWhile isspace s)) (take ?n s)"
    proof -
      have "s ! m \<in> set (take ?n s)" using m n by (metis in_set_conv_nth length_take lessI min.absorb2 nth_take)
      then have "takeWhile isspace (take ?n s @ drop ?n s) = takeWhile isspace (take ?n s)"
        using l by (rule takeWhile_append1)
      then have "takeWhile isspace (take ?n s) = takeWhile isspace s" by (simp only: append_take_drop_id)
      then show ?thesis by (simp add: dropWhile_eq_drop)
    qed
    then show ?thesis using t False sp m by (simp add: trim_def Let_def drop_take)
  qed
qed

lemma strip_loop_spec: "i + n \<le> length s \<Longrightarrow> strip_loop s r i n t = t @ filter (\<lambda>c. c \<noteq> r) (take n (drop i s))"
proof (induction n arbitrary: i t)
  case (Suc n)
  then have "take (Suc n) (drop i s) = s ! i # take n (drop (i + 1) s)" by (simp add: Cons_nth_drop_Suc [symmetric])
  with Suc show ?case by simp
qed simp

lemma toupper_tolower: "toupper c = toupper d \<longleftrightarrow> tolower c = tolower d"
  using ord_lt_256 [of c] ord_lt_256 [of d] by (auto simp: toupper_def tolower_def char_eq_ord mod_if split: if_splits)

lemma stristr_cmp_spec:
  "j < length p \<Longrightarrow> cstr p \<Longrightarrow> stristr_cmp s p i j \<longleftrightarrow> starts_with (map tolower (drop j p)) (map tolower (drop i s))"
proof (induction s p i j rule: stristr_cmp.induct)
  case (1 s p i j)
  have p: "drop j p = p ! j # drop (j + 1) p" using 1(2) by (simp add: Cons_nth_drop_Suc)
  have nz: "p ! k \<noteq> NUL" if "k < length p" for k using 1(3) nth_mem [OF that] by (auto simp: cstr_def)
  have last: "nth0 p (j + 1) = NUL \<longleftrightarrow> j + 1 \<ge> length p" using nz [of "j + 1"] by auto
  show ?case
  proof (cases "i < length s")
    case True
    then have s: "drop i s = s ! i # drop (i + 1) s" by (simp add: Cons_nth_drop_Suc)
    show ?thesis
    proof (cases "toupper (s ! i) = toupper (p ! j)")
      case eq: True
      show ?thesis
      proof (cases "j + 1 < length p")
        case True
        with 1 eq \<open>i < length s\<close> last show ?thesis
          by (subst stristr_cmp.simps) (simp add: p s starts_with_def toupper_tolower)
      next
        case False
        with 1(2) eq \<open>i < length s\<close> last show ?thesis
          by (subst stristr_cmp.simps) (simp add: p s starts_with_def toupper_tolower)
      qed
    next
      case False
      with True 1(2) show ?thesis
        by (subst stristr_cmp.simps) (simp add: p s starts_with_def toupper_tolower)
    qed
  next
    case False
    have "toupper NUL \<noteq> toupper (p ! j)" using nz [OF 1(2)] by (metis NUL_simps toupper_NUL_iff)
    with False 1(2) show ?thesis by (subst stristr_cmp.simps) (simp add: p starts_with_def)
  qed
qed

lemma drop_loop_unfold: "i < length s \<Longrightarrow> drop i s = s ! i # drop (i + 1) s"
  by (simp add: Cons_nth_drop_Suc)

lemma stristr_loop_spec:
  assumes "cstr s" "cstr p" "p \<noteq> []"
  shows "stristr_loop s p i =
           (case strstr (map tolower (drop i s)) (map tolower p) of None \<Rightarrow> - 1 | Some k \<Rightarrow> int (i + k))"
  using assms
proof (induction s p i rule: stristr_loop.induct)
  case (1 s p i)
  obtain c q where p: "p = c # q" using 1(5) by (cases p) auto
  show ?case
  proof (cases "i < length s")
    case True
    note d = drop_loop_unfold [OF True]
    have hit: "stristr_cmp s p i 0 \<longleftrightarrow> starts_with (map tolower p) (map tolower (drop i s))"
      using stristr_cmp_spec [of 0 p s i] 1(4) p by simp
    have next_step: "stristr_loop s p (i + 1) =
        (case strstr (map tolower (drop (i + 1) s)) (map tolower p) of None \<Rightarrow> - 1 | Some k \<Rightarrow> int (i + 1 + k))"
      if "toupper (s ! i) \<noteq> toupper (nth0 p 0) \<or> \<not> stristr_cmp s p i 0"
      using that 1 True by blast
    have mism: "\<not> starts_with (map tolower p) (map tolower (drop i s))"
      if "toupper (s ! i) \<noteq> toupper (nth0 p 0)"
      using that unfolding d p by (simp add: starts_with_def toupper_tolower)
    have cons: "map tolower (drop i s) = tolower (s ! i) # map tolower (drop (i + 1) s)" by (simp only: d list.map)
    show ?thesis
    proof (cases "toupper (s ! i) \<noteq> toupper (nth0 p 0) \<or> \<not> stristr_cmp s p i 0")
      case no: True
      then have "\<not> starts_with (map tolower p) (map tolower (drop i s))" using hit mism by blast
      then have "strstr (map tolower (drop i s)) (map tolower p) =
          map_option Suc (strstr (map tolower (drop (i + 1) s)) (map tolower p))"
        unfolding cons by simp
      then show ?thesis using no True next_step [OF no]
        by (subst stristr_loop.simps) (auto split: option.splits)
    next
      case yes: False
      then have "starts_with (map tolower p) (map tolower (drop i s))" using hit by blast
      then have "strstr (map tolower (drop i s)) (map tolower p) = Some 0" unfolding cons by simp
      then show ?thesis using yes True by (subst stristr_loop.simps) simp
    qed
  next
    case False
    then show ?thesis using p by (subst stristr_loop.simps) simp
  qed
qed

text \<open>The fields of a string, empty ones included, and the tokens as the fields that are not empty.\<close>

fun fields_of :: "string \<Rightarrow> string \<Rightarrow> string list" where
  "fields_of d [] = [[]]"
| "fields_of d (c # s) =
     (if c \<in> set d then [] # fields_of d s
      else (case fields_of d s of [] \<Rightarrow> [[c]] | f # fs \<Rightarrow> (c # f) # fs))"

lemma fields_of_split:
  "fields_of d s = takeWhile (\<lambda>c. c \<notin> set d) s #
     (case dropWhile (\<lambda>c. c \<notin> set d) s of [] \<Rightarrow> [] | _ # r \<Rightarrow> fields_of d r)"
  by (induction s) auto

lemma fields_of_leading:
  "filter (\<lambda>f. f \<noteq> []) (fields_of d (dropWhile (\<lambda>c. c \<in> set d) s)) = filter (\<lambda>f. f \<noteq> []) (fields_of d s)"
  by (induction s) auto

lemma fields_of_token:
  assumes "takeWhile (\<lambda>c. c \<notin> set d) u \<noteq> []"
  shows "filter (\<lambda>f. f \<noteq> []) (fields_of d u) =
           takeWhile (\<lambda>c. c \<notin> set d) u # filter (\<lambda>f. f \<noteq> []) (fields_of d (drop 1 (dropWhile (\<lambda>c. c \<notin> set d) u)))"
proof (cases "dropWhile (\<lambda>c. c \<notin> set d) u")
  case Nil
  have "filter (\<lambda>f. f \<noteq> []) (fields_of d u) = [takeWhile (\<lambda>c. c \<notin> set d) u]"
    by (subst fields_of_split) (simp only: Nil list.case filter.simps assms not_False_eq_True if_True)
  then show ?thesis by (simp only: Nil) simp
next
  case (Cons a r)
  have "filter (\<lambda>f. f \<noteq> []) (fields_of d u) = takeWhile (\<lambda>c. c \<notin> set d) u # filter (\<lambda>f. f \<noteq> []) (fields_of d r)"
    by (subst fields_of_split) (simp only: Cons list.case filter.simps assms not_False_eq_True if_True)
  then show ?thesis by (simp only: Cons) simp
qed

lemma tokens_spec: "tokens d s = filter (\<lambda>f. f \<noteq> []) (fields_of d s)"
proof (induction d s rule: tokens.induct)
  case (1 d s)
  let ?s = "dropWhile (\<lambda>c. c \<in> set d) s"
  let ?r = "dropWhile (\<lambda>c. c \<notin> set d) ?s"
  note IH = 1
  show ?case
  proof (cases "?s = []")
    case True
    then have "tokens d s = []" by (subst tokens.simps) (simp only: strtok_def Let_def, simp)
    moreover have "filter (\<lambda>f. f \<noteq> []) (fields_of d s) = []" using fields_of_leading [of d s] True by simp
    ultimately show ?thesis by simp
  next
    case False
    then have tk: "strtok d s = Some (takeWhile (\<lambda>c. c \<notin> set d) ?s, drop 1 ?r)" by (simp add: strtok_def Let_def)
    have "hd ?s \<notin> set d" using hd_dropWhile [OF False] by simp
    then have ne: "takeWhile (\<lambda>c. c \<notin> set d) ?s \<noteq> []" using False by (cases ?s) auto
    have "tokens d s = takeWhile (\<lambda>c. c \<notin> set d) ?s # tokens d (drop 1 ?r)"
      by (subst tokens.simps) (simp only: tk option.case prod.case)
    also have "\<dots> = filter (\<lambda>f. f \<noteq> []) (fields_of d ?s)"
      by (simp only: IH [OF tk refl] fields_of_token [OF ne])
    also have "\<dots> = filter (\<lambda>f. f \<noteq> []) (fields_of d s)" by (rule fields_of_leading)
    finally show ?thesis .
  qed
qed

lemma tokens_skip: "tokens d (drop (strspn s d) s) = tokens d s"
proof -
  have "drop (strspn s d) s = dropWhile (\<lambda>c. c \<in> set d) s" by (simp add: strspn_def dropWhile_eq_drop)
  then show ?thesis by (simp add: tokens_spec fields_of_leading)
qed

lemma str_replace_spec:
  "str_replace slack s p r =
     (case strstr s p of
        None \<Rightarrow> Some None
      | Some i \<Rightarrow> if i = 0 \<or> slack then Some (Some (take i s @ r @ drop (i + length p) s)) else None)"
  by (auto simp: str_replace_def str_replace_add_def add.commute split: option.splits nat.splits)

section \<open>The property\<close>

definition find_nocase :: "string \<Rightarrow> string \<Rightarrow> int" where
  \<comment> \<open>what \<open>stristr\<close> looks for: the first occurrence of a pattern, case ignored\<close>
  "find_nocase s p = (if p = [] then - 1 else case strcasestr s p of None \<Rightarrow> - 1 | Some i \<Rightarrow> int i)"

definition replace_first :: "string \<Rightarrow> string \<Rightarrow> string \<Rightarrow> cptr" where
  "replace_first s p r = map_option (\<lambda>i. take i s @ r @ drop (i + length p) s) (strstr s p)"

lemma stristr_empty: "stristr_loop s [] i = - 1" if "cstr s"
  using that
proof (induction "length s - i" arbitrary: i)
  case (Suc n)
  then have i: "i < length s" by simp
  have "s ! i \<noteq> NUL" using nth_mem [OF i] Suc.prems by (auto simp: cstr_def)
  then have "toupper (s ! i) \<noteq> toupper (nth0 [] 0)" by (metis NUL_simps list.size(3) less_irrefl nth0.simps toupper_NUL_iff)
  with i Suc show ?case by (subst stristr_loop.simps) simp
qed (subst stristr_loop.simps, simp)

lemma split_array_spec:
  "split_array (Some s) (Some d) =
     (let ts = filter (\<lambda>f. f \<noteq> []) (fields_of d s) in (to_char (int (length ts)), Some ts))"
  unfolding split_array_def Let_def prod.case option.case tokens_skip by (simp add: tokens_spec)

text \<open>
  C25. The string functions of the library compute what they are for, whatever the C strings they are
  given: \<open>trim\<close> removes the white space at both ends and \<open>stripchar\<close> every occurrence of a character;
  \<open>stristr\<close> returns where the pattern first occurs up to case and -1 when it does not (and for the
  empty pattern); \<open>split_array\<close> gives the non-empty fields between the delimiters, their number being
  squeezed into a signed \<open>char\<close>; \<open>str_replace\<close> returns NULL when there is no occurrence and otherwise
  the string with the first one replaced, provided the occurrence is at the start or the
  allocator left room for the NUL written one byte behind the block, and it is a write outside of the
  block otherwise.
\<close>

theorem libstring_correct:
  assumes "cstr s" "cstr p"
  shows "trim s = dropWhile isspace (rev (dropWhile isspace (rev s))) \<and>
         stripchar s c = filter (\<lambda>d. d \<noteq> c) s \<and>
         stristr s p = find_nocase s p \<and>
         split_array (Some s) (Some p) =
           (let ts = filter (\<lambda>f. f \<noteq> []) (fields_of p s) in (to_char (int (length ts)), Some ts)) \<and>
         str_replace slack s p r =
           (if slack \<or> strstr s p \<in> {None, Some 0} then Some (replace_first s p r) else None)"
proof (intro conjI)
  show "trim s = dropWhile isspace (rev (dropWhile isspace (rev s)))" by (rule trim_spec)
  show "stripchar s c = filter (\<lambda>d. d \<noteq> c) s" by (simp add: stripchar_def strip_loop_spec)
  show "stristr s p = find_nocase s p"
    using stristr_loop_spec [OF assms, of 0] stristr_empty [OF assms(1)]
    by (auto simp: stristr_def find_nocase_def strcasestr_def split: option.splits)
  show "split_array (Some s) (Some p) =
      (let ts = filter (\<lambda>f. f \<noteq> []) (fields_of p s) in (to_char (int (length ts)), Some ts))"
    by (rule split_array_spec)
  show "str_replace slack s p r = (if slack \<or> strstr s p \<in> {None, Some 0} then Some (replace_first s p r) else None)"
    by (auto simp: str_replace_spec replace_first_def split: option.splits)
qed

theorem libstring_correct_witness:
  "trim '' a b '' = ''a b'' \<and> stristr ''Content-Type'' ''type'' = 8 \<and>
   split_array (Some ''pts/1'') (Some ''/'') = (2, Some [''pts'', ''1'']) \<and>
   str_replace False ''pts/1'' ''pts/'' ''pts'' = Some (Some ''pts1'') \<and>
   str_replace False ''/var/config'' ''/config'' [] = None"
proof -
  have c: "cstr '' a b ''" "cstr []" by code_simp+
  have "trim '' a b '' = dropWhile isspace (rev (dropWhile isspace (rev '' a b '')))"
    using libstring_correct [OF c] by blast
  also have "\<dots> = ''a b''" by code_simp
  finally have t: "trim '' a b '' = ''a b''" .
  have c: "cstr ''Content-Type''" "cstr ''type''" by code_simp+
  have "stristr ''Content-Type'' ''type'' = find_nocase ''Content-Type'' ''type''"
    using libstring_correct [OF c] by blast
  also have "\<dots> = 8" by code_simp
  finally have f: "stristr ''Content-Type'' ''type'' = 8" .
  have c: "cstr ''pts/1''" "cstr ''pts/''" "cstr ''/''" by code_simp+
  have "split_array (Some ''pts/1'') (Some ''/'') =
      (let ts = filter (\<lambda>f. f \<noteq> []) (fields_of ''/'' ''pts/1'') in (to_char (int (length ts)), Some ts))"
    using libstring_correct [OF c(1,3)] by blast
  also have "\<dots> = (2, Some [''pts'', ''1''])" by code_simp
  finally have a: "split_array (Some ''pts/1'') (Some ''/'') = (2, Some [''pts'', ''1''])" .
  have "str_replace False ''pts/1'' ''pts/'' ''pts'' =
      (if False \<or> strstr ''pts/1'' ''pts/'' \<in> {None, Some 0} then Some (replace_first ''pts/1'' ''pts/'' ''pts'') else None)"
    using libstring_correct [OF c(1,2)] by blast
  also have "\<dots> = Some (Some ''pts1'')" by code_simp
  finally have r: "str_replace False ''pts/1'' ''pts/'' ''pts'' = Some (Some ''pts1'')" .
  have c: "cstr ''/var/config''" "cstr ''/config''" by code_simp+
  have "str_replace False ''/var/config'' ''/config'' [] =
      (if False \<or> strstr ''/var/config'' ''/config'' \<in> {None, Some 0} then Some (replace_first ''/var/config'' ''/config'' []) else None)"
    using libstring_correct [OF c] by blast
  also have "\<dots> = None" by code_simp
  finally have "str_replace False ''/var/config'' ''/config'' [] = None" .
  with t f a r show ?thesis by blast
qed

end
