(* ===== verification/Uplink.thy ===== *)
theory Uplink
  imports FileSys LibString
begin

text \<open>
  The uplink daemon (\<^verbatim>\<open>v3.1/src/mybox/src/uplinkd.c\<close>): it pings a list of hosts through every uplink and
  moves the default route to one that answers (mode 1, failover), or turns load balancing off while only
  one answers (mode 2, balancer).

  The daemon's static variables are the record \<open>uplinkd\<close>. What it does to the system is the list of its
  actions so far, and the exit status of a command is a function of that list, so the network may change
  between any two commands. The commands it runs are not interpreted, and do not change the two files it
  writes.
\<close>

section \<open>State\<close>

datatype action =
    RouteFlush | Route string string string | RouteDelDefault | RouteAddDefault string string
  | Arping string string | PingFrom string string | Ping string | Script string
  | Syslog bool string  \<comment> \<open>\<open>True\<close> for \<open>LOG_ERR\<close>, \<open>False\<close> for \<open>LOG_INFO\<close>\<close>
  | Sleep int | Usleep nat

record conf1 =
  dev :: string
  gw :: string
  ip :: string
  prio :: int
  status :: int
  down :: int

record uplinkd =
  counter :: "conf1 list"
  iplist :: "string list"
  mode_type :: string
  mode :: int
  interval :: int
  numcont :: nat
  listcont :: nat
  singlestate :: int
  multistate :: int
  acts :: "action list"
  upfs :: fsys

type_synonym env = "action list \<Rightarrow> int"

definition uplink_init :: "fsys \<Rightarrow> uplinkd" where
  "uplink_init fs =
     \<lparr>counter = replicate 25 \<lparr>dev = [], gw = [], ip = [], prio = 0, status = 0, down = 0\<rparr>,
      iplist = replicate 1024 [], mode_type = ''Failover (active->passive)'', mode = 1, interval = 60,
      numcont = 0, listcont = 0, singlestate = 0, multistate = 0, acts = [], upfs = fs\<rparr>"

section \<open>Commands\<close>

definition act :: "action \<Rightarrow> uplinkd \<Rightarrow> uplinkd" where
  "act a st = st\<lparr>acts := acts st @ [a]\<rparr>"

definition up_system :: "env \<Rightarrow> action \<Rightarrow> uplinkd \<Rightarrow> int \<times> uplinkd" where
  "up_system e a st = (e (acts st @ [a]), act a st)"

definition log_action :: "string \<Rightarrow> string \<Rightarrow> uplinkd \<Rightarrow> uplinkd" where
  "log_action type msg st =
     (let line = snprintf_s (length msg + 150) (''TYPE='' @ type @ '' MSG='' @ msg)
      in act (Syslog (type = ''ERROR'') line) st)"

definition ip_route_flush :: "env \<Rightarrow> uplinkd \<Rightarrow> int \<times> uplinkd" where
  "ip_route_flush e st = up_system e RouteFlush st"

definition ip_route :: "env \<Rightarrow> string \<Rightarrow> string \<Rightarrow> string \<Rightarrow> uplinkd \<Rightarrow> int \<times> uplinkd" where
  "ip_route e opt i g st = up_system e (Route opt i g) st"

definition ip_route_del_default :: "env \<Rightarrow> uplinkd \<Rightarrow> int \<times> uplinkd" where
  "ip_route_del_default e st = up_system e RouteDelDefault st"

definition ip_route_default :: "env \<Rightarrow> string \<Rightarrow> string \<Rightarrow> uplinkd \<Rightarrow> int \<times> uplinkd" where
  "ip_route_default e g d st = up_system e (RouteAddDefault g d) st"

definition update_arp :: "env \<Rightarrow> string \<Rightarrow> string \<Rightarrow> uplinkd \<Rightarrow> int \<times> uplinkd" where
  "update_arp e i d st = up_system e (Arping i d) st"

definition update_ping :: "env \<Rightarrow> string \<Rightarrow> string \<Rightarrow> uplinkd \<Rightarrow> int \<times> uplinkd" where
  "update_ping e g i st = up_system e (PingFrom g i) st"

definition exec_ping :: "env \<Rightarrow> string \<Rightarrow> uplinkd \<Rightarrow> int \<times> uplinkd" where
  "exec_ping e i st = up_system e (Ping i) st"

section \<open>Checking one uplink\<close>

fun ping_loop :: "env \<Rightarrow> string \<Rightarrow> string \<Rightarrow> string list \<Rightarrow> int \<Rightarrow> uplinkd \<Rightarrow> int \<times> uplinkd" where
  "ping_loop e g i [] x st = (x, st)"
| "ping_loop e g i (d # ds) x st =
     (if x = 0 then (x, st)
      else
        (let st = snd (ip_route e ''add'' d g st);
             (x, st) = update_ping e i d st;
             st = snd (exec_ping e d st);
             st = snd (ip_route e ''del'' d g st);
             st = act (Usleep 72500) st
         in ping_loop e g i ds x st))"

definition do_ping :: "env \<Rightarrow> string \<Rightarrow> string \<Rightarrow> string \<Rightarrow> uplinkd \<Rightarrow> int \<times> uplinkd" where
  "do_ping e g d i st =
     (let st = snd (ip_route_flush e st);
          (x, st) = ping_loop e g i (take (listcont st) (iplist st)) 1 st;
          st = snd (update_arp e i d st)
      in (x, st))"

section \<open>Moving the default route\<close>

definition switch_default :: "env \<Rightarrow> nat \<Rightarrow> uplinkd \<Rightarrow> uplinkd" where
  "switch_default e i st =
     (let st = snd (ip_route_del_default e st)
      in snd (ip_route_default e (gw (counter st ! i)) (dev (counter st ! i)) st))"

definition uplink_msg :: "string \<Rightarrow> uplinkd \<Rightarrow> string" where
  "uplink_msg s st = snprintf_s 256 (''Uplink ['' @ mode_type st @ ''] '' @ s)"

fun single_loop :: "env \<Rightarrow> nat \<Rightarrow> nat \<Rightarrow> uplinkd \<Rightarrow> uplinkd" where
  \<comment> \<open>the rounds that are left, from index \<open>i\<close> on\<close>
  "single_loop e i 0 st = st"
| "single_loop e i (Suc n) st =
     (let c = counter st ! i in
      if prio c = 1 \<and> status c = 1 then
        (if singlestate st = 1 then
           (let st = switch_default e i st; st = st\<lparr>singlestate := 0\<rparr>
            in log_action ''INFO'' (uplink_msg (''switching back to primary gateway '' @ gw c) st) st)
         else st)
      else
        (let st = st\<lparr>singlestate := 1\<rparr> in
         if status c = 1 then
           (let st = switch_default e i st
            in log_action ''INFO'' (uplink_msg (''primary gateway seems to be down, switching to '' @ gw c) st) st)
         else single_loop e (i + 1) n st))"

definition do_single_route :: "env \<Rightarrow> uplinkd \<Rightarrow> uplinkd" where
  "do_single_route e st = act (Usleep 72500) (single_loop e 0 (numcont st) st)"

fun tune_loop :: "conf1 list \<Rightarrow> nat \<Rightarrow> nat \<Rightarrow> nat option \<Rightarrow> nat \<times> nat option" where
  \<comment> \<open>\<open>x\<close> and \<open>p\<close>, which is \<open>None\<close> while it is not initialised\<close>
  "tune_loop [] i x p = (x, p)"
| "tune_loop (c # cs) i x p =
     (if status c = 1 then (if x > 1 then (x, p) else tune_loop cs (i + 1) (x + 1) (Some i))
      else tune_loop cs (i + 1) x p)"

definition do_tune_route :: "env \<Rightarrow> uplinkd \<Rightarrow> uplinkd" where
  "do_tune_route e st =
     (let (x, p) = tune_loop (take (numcont st) (counter st)) 0 0 None;
          st =
            (if x = 1 then
               (if multistate st = 0 then
                  (let st = snd (up_system e (Script ''/var/sys/uplink_stop'') st);
                       st = switch_default e (the p) st;
                       st = log_action ''INFO''
                         (uplink_msg (''only one gateway '' @ gw (counter st ! the p) @ '' is up, setting as default'') st) st;
                       st = act (Sleep 1) st
                   in st\<lparr>multistate := 1\<rparr>)
                else st)
             else if multistate st = 1 then
               (let st = snd (up_system e (Script ''/var/sys/uplink_start'') st);
                    st = log_action ''INFO''
                      (uplink_msg ''more than one gateway is up, recovering from previous error'' st) st;
                    st = act (Sleep 1) st
                in st\<lparr>multistate := 0\<rparr>)
             else st)
      in act (Usleep 72500) st)"

section \<open>One round\<close>

definition set_counter :: "nat \<Rightarrow> (conf1 \<Rightarrow> conf1) \<Rightarrow> uplinkd \<Rightarrow> uplinkd" where
  "set_counter i f st = st\<lparr>counter := (counter st)[i := f (counter st ! i)]\<rparr>"

definition chk_one :: "env \<Rightarrow> nat \<Rightarrow> uplinkd \<Rightarrow> uplinkd" where
  "chk_one e i st =
     (let st = set_counter i (\<lambda>c. c\<lparr>status := 0\<rparr>) st;
          c = counter st ! i;
          (x, st) = do_ping e (gw c) (dev c) (ip c) st
      in if x = 0 then set_counter i (\<lambda>c. c\<lparr>status := 1, down := 0\<rparr>) st
         else if down (counter st ! i) = 0 then
           (let st = set_counter i (\<lambda>c. c\<lparr>down := 1\<rparr>) st;
                st = log_action ''ERROR'' (uplink_msg (''gateway '' @ gw c @ '' seems to be down'') st) st;
                st = act (Sleep 1) st
            in set_counter i (\<lambda>c. c\<lparr>down := 3\<rparr>) st)
         else st)"

fun chk_loop :: "env \<Rightarrow> nat \<Rightarrow> nat \<Rightarrow> uplinkd \<Rightarrow> uplinkd" where
  "chk_loop e i 0 st = st"
| "chk_loop e i (Suc n) st = chk_loop e (i + 1) n (chk_one e i st)"

definition chkfailover :: "env \<Rightarrow> uplinkd \<Rightarrow> uplinkd" where
  "chkfailover e st =
     (let st = chk_loop e 0 (numcont st) st;
          st = (if mode st = 1 then do_single_route e st else st)
      in if mode st = 2 then do_tune_route e st else st)"

text \<open>\<open>fopen\<close> for writing, and \<open>rename\<close> on plain files.\<close>

definition fopen_w :: "fsys \<Rightarrow> string \<Rightarrow> fsys option" where
  "fopen_w fs p =
     (let q = comps p in
      if p = [] \<or> deny fs q \<or> fs_isdir fs q then None
      else
        (case inodes fs q of
           Some n \<Rightarrow> Some (fs\<lparr>inodes := (inodes fs)(q \<mapsto> n\<lparr>idata := []\<rparr>)\<rparr>)
         | None \<Rightarrow>
             (if q = [] \<or> \<not> fs_isdir fs (butlast q) then None
              else Some (fs\<lparr>inodes := (inodes fs)(q \<mapsto>
                \<lparr>imode = S_IFREG OR (0x1B6 AND NOT (fumask fs)), idata = []\<rparr>)\<rparr>))))"

definition fopen_r :: "fsys \<Rightarrow> string \<Rightarrow> bytes option" where
  \<comment> \<open>what the stream delivers; a directory can be opened, and delivers nothing\<close>
  "fopen_r fs p =
     (case fs_node fs p of
        None \<Rightarrow> None
      | Some n \<Rightarrow> if deny fs (comps p) then None else Some (if S_ISDIR (imode n) then [] else idata n))"

definition fs_rename :: "fsys \<Rightarrow> string \<Rightarrow> string \<Rightarrow> fsys" where
  "fs_rename fs a b =
     (let p = comps a; q = comps b in
      case inodes fs p of
        None \<Rightarrow> fs
      | Some n \<Rightarrow>
          (if deny fs p \<or> deny fs q \<or> fs_isdir fs p \<or> fs_isdir fs q \<or> \<not> fs_isdir fs (butlast q) then fs
           else fs\<lparr>inodes := (inodes fs)(p := None, q \<mapsto> n)\<rparr>))"

definition status_line :: "conf1 \<Rightarrow> string" where
  "status_line c = dev c @ ''|'' @ dec_int (status c) @ [CHR 0x0A]"

definition write_status :: "uplinkd \<Rightarrow> uplinkd" where
  "write_status st =
     (let fs =
        (case fopen_w (upfs st) ''/var/sys/uplink_status.tmp'' of
           None \<Rightarrow> upfs st
         | Some fs \<Rightarrow>
             foldl (\<lambda>fs c. fs_append fs ''/var/sys/uplink_status.tmp'' (status_line c)) fs
               (take (numcont st) (counter st)))
      in st\<lparr>upfs := fs_rename fs ''/var/sys/uplink_status.tmp'' ''/var/sys/uplink_status''\<rparr>)"

section \<open>Configuration\<close>

text \<open>The conversions \<open>%d\<close> and \<open>%s\<close> of \<open>sscanf\<close>: the value and what is left.\<close>

definition scan_int :: "string \<Rightarrow> (int \<times> string) option" where
  "scan_int s =
     (let t = dropWhile isspace s;
          neg = (t \<noteq> [] \<and> hd t = CHR ''-'');
          u = (if t \<noteq> [] \<and> (hd t = CHR ''-'' \<or> hd t = CHR ''+'') then tl t else t);
          ds = takeWhile isdigit u;
          v = int (digits_val ds)
      in if ds = [] then None else Some (clamp32 (if neg then - v else v), dropWhile isdigit u))"

definition scan_str :: "string \<Rightarrow> (string \<times> string) option" where
  "scan_str s =
     (let t = dropWhile isspace s in
      if t = [] then None else Some (takeWhile (\<lambda>c. \<not> isspace c) t, dropWhile (\<lambda>c. \<not> isspace c) t))"

definition scan_mode :: "string \<Rightarrow> uplinkd \<Rightarrow> uplinkd" where
  \<comment> \<open>\<open>sscanf(buff, "%d|%d", &mode, &interval)\<close>\<close>
  "scan_mode s st =
     (case scan_int s of
        None \<Rightarrow> st
      | Some (m, r) \<Rightarrow>
          (let st = st\<lparr>mode := m\<rparr> in
           if starts_with ''|'' r then
             (case scan_int (tl r) of None \<Rightarrow> st | Some (v, _) \<Rightarrow> st\<lparr>interval := v\<rparr>)
           else st))"

definition store_str :: "nat \<Rightarrow> string \<Rightarrow> string option" where
  \<comment> \<open>storing a string and its NUL into an array of \<open>n\<close> bytes\<close>
  "store_str n s = (if length s < n then Some s else None)"

definition scan_counter :: "string \<Rightarrow> conf1 \<Rightarrow> conf1 option" where
  \<comment> \<open>\<open>sscanf(buff, "%d %s %s %s", &c.prio, c.dev, c.ip, c.gw)\<close>\<close>
  "scan_counter s c =
     (case scan_int s of
        None \<Rightarrow> Some c
      | Some (p, s) \<Rightarrow>
          (let c = c\<lparr>prio := p\<rparr> in
           case scan_str s of
             None \<Rightarrow> Some c
           | Some (d, s) \<Rightarrow>
               (case store_str 25 d of
                  None \<Rightarrow> None
                | Some d \<Rightarrow>
                    (let c = c\<lparr>dev := d\<rparr> in
                     case scan_str s of
                       None \<Rightarrow> Some c
                     | Some (i, s) \<Rightarrow>
                         (case store_str 50 i of
                            None \<Rightarrow> None
                          | Some i \<Rightarrow>
                              (let c = c\<lparr>ip := i\<rparr> in
                               case scan_str s of
                                 None \<Rightarrow> Some c
                               | Some (g, s) \<Rightarrow>
                                   (case store_str 50 g of
                                      None \<Rightarrow> None
                                    | Some g \<Rightarrow> Some (c\<lparr>gw := g\<rparr>))))))))"

fun read_counters :: "bytes list \<Rightarrow> nat \<Rightarrow> conf1 list \<Rightarrow> (conf1 list \<times> nat) option" where
  "read_counters [] i cs = Some (cs, i)"
| "read_counters (l # ls) i cs =
     (let buff = trim (cread l) in
      if buff = [] then read_counters ls i cs
      else if i < length cs then
        (case scan_counter buff (cs ! i) of
           None \<Rightarrow> None
         | Some c \<Rightarrow> read_counters ls (i + 1) (cs[i := c\<lparr>status := 0, down := 0\<rparr>]))
      else None)"

fun read_list :: "bytes list \<Rightarrow> nat \<Rightarrow> string list \<Rightarrow> (string list \<times> nat) option" where
  "read_list [] i ds = Some (ds, i)"
| "read_list (l # ls) i ds =
     (let buff = trim (cread l) in
      if buff = [] then read_list ls i ds
      else if i < length ds then read_list ls (i + 1) (ds[i := snprintf_s 50 buff])
      else None)"

definition config_files :: "string list" where
  "config_files = [''/var/sys/uplink_config'', ''/var/sys/uplink_list'', ''/var/sys/uplink_chk'',
     ''/var/sys/uplink_start'', ''/var/sys/uplink_stop'']"

text \<open>\<open>None\<close> is a write outside of \<open>buff\<close>, \<open>counter\<close>, \<open>list\<close> or a member of \<open>counter\<close>.\<close>

definition read_config :: "uplinkd \<Rightarrow> (int \<times> uplinkd) option" where
  "read_config st =
     (let fs = upfs st in
      if \<exists>f \<in> set config_files. \<not> file_exists fs f then Some (0, st)
      else
        (case read_oneline fs ''/var/sys/uplink_config'' of
           None \<Rightarrow> Some (0, st)
         | Some (n, buff) \<Rightarrow>
             (if n \<ge> 150 then None
              else if n < 0 then Some (0, st)
              else
                (let st = scan_mode (trim buff) st in
                 case read_counters (case fopen_r fs ''/var/sys/uplink_chk'' of None \<Rightarrow> [] | Some s \<Rightarrow> fgets_all 150 s)
                     0 (counter st) of
                   None \<Rightarrow> None
                 | Some (cs, nc) \<Rightarrow>
                     (case read_list (case fopen_r fs ''/var/sys/uplink_list'' of None \<Rightarrow> [] | Some s \<Rightarrow> fgets_all 150 s)
                         0 (iplist st) of
                        None \<Rightarrow> None
                      | Some (ds, nl) \<Rightarrow>
                          Some (1, st\<lparr>counter := cs, numcont := nc, iplist := ds, listcont := nl\<rparr>))))))"

section \<open>The program\<close>

datatype outcome = Exit int uplinkd | Running uplinkd

definition uplink_start :: "env \<Rightarrow> bool \<Rightarrow> fsys \<Rightarrow> outcome option" where
  \<comment> \<open>\<open>main\<close> up to its endless loop; \<open>daemonised\<close>: \<open>daemon(1,1)\<close> returned 0\<close>
  "uplink_start e daemonised fs =
     (case read_config (uplink_init fs) of
        None \<Rightarrow> None
      | Some (_, st) \<Rightarrow>
          Some (if numcont st = 0 \<or> listcont st = 0 then
                  Exit 1 (log_action ''ERROR'' ''Failed to running Uplink daemon'' st)
                else
                  (let st = snd (up_system e (Script ''/var/sys/uplink_stop'') st);
                       st = write_status st
                   in if daemonised then
                        (let st = (if mode st = 2
                                   then snd (up_system e (Script ''/var/sys/uplink_start'')
                                          (st\<lparr>mode_type := ''Balancer (active->active)''\<rparr>))
                                   else st);
                             st = log_action ''ERROR'' (snprintf_s 256 (''Starting Uplink ['' @ mode_type st @ ''] daemon'')) st
                         in Running st)
                      else Exit 1 (log_action ''ERROR'' ''Failed to running Uplink daemon'' st))))"

definition uplink_round :: "env \<Rightarrow> uplinkd \<Rightarrow> uplinkd" where
  "uplink_round e st = (let st = write_status (chkfailover e st) in act (Sleep (interval st)) st)"

text \<open>The states at the head of the endless loop, with the number of rounds made.\<close>

inductive running :: "env \<Rightarrow> fsys \<Rightarrow> nat \<Rightarrow> uplinkd \<Rightarrow> bool" for e fs where
  run_start: "uplink_start e True fs = Some (Running st) \<Longrightarrow> running e fs 0 st"
| run_round: "running e fs n st \<Longrightarrow> running e fs (Suc n) (uplink_round e st)"

section \<open>Actions and the rest of the state\<close>

lemma act_sel [simp]:
  "counter (act a st) = counter st" "iplist (act a st) = iplist st" "mode_type (act a st) = mode_type st"
  "mode (act a st) = mode st" "interval (act a st) = interval st" "numcont (act a st) = numcont st"
  "listcont (act a st) = listcont st" "singlestate (act a st) = singlestate st"
  "multistate (act a st) = multistate st" "upfs (act a st) = upfs st" "acts (act a st) = acts st @ [a]"
  by (simp_all add: act_def)

lemma up_system_sel [simp]: "fst (up_system e a st) = e (acts st @ [a])" "snd (up_system e a st) = act a st"
  by (simp_all add: up_system_def)

lemmas command_defs = ip_route_flush_def ip_route_def ip_route_del_default_def ip_route_default_def
  update_arp_def update_ping_def exec_ping_def

text \<open>The default route that the actions have left: \<open>None\<close> if they never touched it.\<close>

fun default_step :: "(string \<times> string) option option \<Rightarrow> action \<Rightarrow> (string \<times> string) option option" where
  "default_step r RouteDelDefault = Some None"
| "default_step r (RouteAddDefault g d) = Some (Some (g, d))"
| "default_step r _ = r"

definition default_route :: "action list \<Rightarrow> (string \<times> string) option option" where
  "default_route as = foldl default_step None as"

text \<open>The script that has been run last.\<close>

fun script_step :: "string option \<Rightarrow> action \<Rightarrow> string option" where
  "script_step r (Script p) = Some p"
| "script_step r _ = r"

definition last_script :: "action list \<Rightarrow> string option" where
  "last_script as = foldl script_step None as"

lemma default_route_append [simp]: "default_route (as @ bs) = foldl default_step (default_route as) bs"
  by (simp add: default_route_def)

lemma last_script_append [simp]: "last_script (as @ bs) = foldl script_step (last_script as) bs"
  by (simp add: last_script_def)

text \<open>\<open>quiet st st'\<close>: between the two states there were only actions, none of which touched the default
  route or ran a script.\<close>

definition quiet :: "uplinkd \<Rightarrow> uplinkd \<Rightarrow> bool" where
  "quiet st st' \<longleftrightarrow>
     (\<exists>t. st' = st\<lparr>acts := acts st @ t\<rparr>) \<and> default_route (acts st') = default_route (acts st) \<and>
     last_script (acts st') = last_script (acts st)"

lemma quiet_refl [intro]: "quiet st st"
  unfolding quiet_def by (metis append_Nil2 uplinkd.surjective uplinkd.update_convs(10))

lemma quiet_trans: "quiet a b \<Longrightarrow> quiet b c \<Longrightarrow> quiet a c"
  unfolding quiet_def by (elim conjE exE) (simp, metis append_assoc)

lemma quiet_act: "default_step (default_route (acts st)) a = default_route (acts st) \<Longrightarrow>
    script_step (last_script (acts st)) a = last_script (acts st) \<Longrightarrow> quiet st (act a st)"
  unfolding quiet_def by (auto simp: act_def)

lemma quiet_act_after: "quiet st st' \<Longrightarrow> default_step (default_route (acts st')) a = default_route (acts st') \<Longrightarrow>
    script_step (last_script (acts st')) a = last_script (acts st') \<Longrightarrow> quiet st (act a st')"
  by (rule quiet_trans [OF _ quiet_act])

lemma quiet_log: "quiet st st' \<Longrightarrow> quiet st (log_action t m st')"
  unfolding log_action_def Let_def by (rule quiet_act_after) auto

lemma quiet_sel:
  assumes "quiet st st'"
  shows "counter st' = counter st" "iplist st' = iplist st" "mode_type st' = mode_type st" "mode st' = mode st"
    "interval st' = interval st" "numcont st' = numcont st" "listcont st' = listcont st"
    "singlestate st' = singlestate st" "multistate st' = multistate st" "upfs st' = upfs st"
    "default_route (acts st') = default_route (acts st)" "last_script (acts st') = last_script (acts st)"
  using assms by (auto simp: quiet_def)

section \<open>Pinging\<close>

text \<open>In the actions \<open>as\<close> after \<open>h\<close>, some ping from the address \<open>i\<close> was answered.\<close>

definition answered :: "env \<Rightarrow> action list \<Rightarrow> action list \<Rightarrow> string \<Rightarrow> bool" where
  "answered e h as i \<longleftrightarrow> (\<exists>t d r. as = h @ t @ PingFrom i d # r \<and> e (h @ t @ [PingFrom i d]) = 0)"

lemma answered_mono: "answered e (h @ h') as i \<Longrightarrow> answered e h as i"
  unfolding answered_def by (metis append_assoc)

lemma answered_append: "answered e h as i \<Longrightarrow> answered e h (as @ r) i"
  unfolding answered_def by fastforce

lemma ping_loop_quiet: "quiet st (snd (ping_loop e g i ds x st))"
proof (induction e g i ds x st rule: ping_loop.induct)
  case (2 e g i d ds x st)
  show ?case
  proof (cases "x = 0")
    case False
    let ?st = "act (Usleep 72500) (act (Route ''del'' d g) (act (Ping d) (act (PingFrom i d) (act (Route ''add'' d g) st))))"
    have "quiet st ?st" by (intro quiet_act_after quiet_refl) auto
    moreover have "quiet ?st (snd (ping_loop e g i ds (e (acts st @ [Route ''add'' d g, PingFrom i d])) ?st))"
      using 2 [OF False refl refl _ refl refl refl] by (simp add: command_defs up_system_def)
    ultimately have "quiet st (snd (ping_loop e g i ds (e (acts st @ [Route ''add'' d g, PingFrom i d])) ?st))"
      by (rule quiet_trans)
    with False show ?thesis by (simp add: command_defs up_system_def)
  qed auto
qed auto

lemma ping_loop_acts: "\<exists>t. acts (snd (ping_loop e g i ds x st)) = acts st @ t"
  using ping_loop_quiet [of st e g i ds x] by (auto simp: quiet_def)

lemma ping_loop_answered:
  "fst (ping_loop e g i ds x st) = 0 \<longleftrightarrow> x = 0 \<or> answered e (acts st) (acts (snd (ping_loop e g i ds x st))) i"
proof (induction e g i ds x st rule: ping_loop.induct)
  case (1 e g i x st)
  show ?case by (auto simp: answered_def)
next
  case (2 e g i d ds x st)
  show ?case
  proof (cases "x = 0")
    case False
    let ?st = "act (Usleep 72500) (act (Route ''del'' d g) (act (Ping d) (act (PingFrom i d) (act (Route ''add'' d g) st))))"
    let ?x = "e (acts st @ [Route ''add'' d g, PingFrom i d])"
    let ?r = "ping_loop e g i ds ?x ?st"
    let ?new = "[Route ''add'' d g, PingFrom i d, Ping d, Route ''del'' d g, Usleep 72500]"
    have eq: "ping_loop e g i (d # ds) x st = ?r" using False by (simp add: command_defs up_system_def)
    have a: "acts ?st = acts st @ ?new" by simp
    obtain t where t: "acts (snd ?r) = acts st @ ?new @ t"
      using ping_loop_acts [of e g i ds ?x ?st] a by auto
    have IH: "fst ?r = 0 \<longleftrightarrow> ?x = 0 \<or> answered e (acts ?st) (acts (snd ?r)) i"
      using 2 [OF False refl refl _ refl refl refl] by (simp add: command_defs up_system_def)
    have "answered e (acts st) (acts (snd ?r)) i \<longleftrightarrow> ?x = 0 \<or> answered e (acts ?st) (acts (snd ?r)) i"
    proof
      assume "answered e (acts st) (acts (snd ?r)) i"
      then obtain u d' r where u: "acts (snd ?r) = acts st @ u @ PingFrom i d' # r"
        and z: "e (acts st @ u @ [PingFrom i d']) = 0" unfolding answered_def by auto
      from u t have "?new @ t = u @ PingFrom i d' # r" by simp
      then consider "u = [Route ''add'' d g]" "d' = d" | u' where "u = ?new @ u'"
        by (auto simp: Cons_eq_append_conv append_eq_Cons_conv)
      then show "?x = 0 \<or> answered e (acts ?st) (acts (snd ?r)) i"
      proof cases
        case 1 with z show ?thesis by simp
      next
        case 2
        with u z show ?thesis unfolding answered_def a by (metis append_assoc)
      qed
    next
      assume "?x = 0 \<or> answered e (acts ?st) (acts (snd ?r)) i"
      then show "answered e (acts st) (acts (snd ?r)) i"
      proof
        assume "?x = 0"
        then have "e (acts st @ [Route ''add'' d g] @ [PingFrom i d]) = 0" by simp
        moreover have "acts (snd ?r) = acts st @ [Route ''add'' d g] @ PingFrom i d # drop 2 ?new @ t" using t by simp
        ultimately show ?thesis unfolding answered_def by blast
      next
        assume "answered e (acts ?st) (acts (snd ?r)) i"
        then show ?thesis unfolding a by (rule answered_mono)
      qed
    qed
    with IH False show ?thesis unfolding eq by simp
  qed simp
qed

lemma do_ping_quiet: "quiet st (snd (do_ping e g d i st))"
proof -
  let ?st = "act RouteFlush st"
  let ?r = "ping_loop e g i (take (listcont ?st) (iplist ?st)) 1 ?st"
  have "quiet st ?st" by (rule quiet_act) simp_all
  then have "quiet st (snd ?r)" by (rule quiet_trans) (rule ping_loop_quiet)
  then have "quiet st (act (Arping i d) (snd ?r))" by (rule quiet_act_after) simp_all
  then show ?thesis by (simp add: do_ping_def command_defs Let_def split_beta)
qed

lemma do_ping_answered:
  "fst (do_ping e g d i st) = 0 \<Longrightarrow> answered e (acts st) (acts (snd (do_ping e g d i st))) i"
proof -
  let ?st = "act RouteFlush st"
  let ?r = "ping_loop e g i (take (listcont ?st) (iplist ?st)) 1 ?st"
  assume "fst (do_ping e g d i st) = 0"
  then have "fst ?r = 0" by (simp add: do_ping_def command_defs Let_def split_beta)
  then have "answered e (acts ?st) (acts (snd ?r)) i" using ping_loop_answered [of e g i _ 1 ?st] by simp
  then have "answered e (acts st) (acts (snd ?r)) i" by (simp add: answered_mono)
  then show ?thesis by (simp add: do_ping_def command_defs Let_def split_beta answered_append)
qed

section \<open>Checking every uplink\<close>

definition same_conf :: "conf1 \<Rightarrow> conf1 \<Rightarrow> bool" where
  "same_conf c c' \<longleftrightarrow> dev c' = dev c \<and> gw c' = gw c \<and> ip c' = ip c \<and> prio c' = prio c"

text \<open>What checking leaves alone, and what it says about one counter.\<close>

definition checks :: "uplinkd \<Rightarrow> uplinkd \<Rightarrow> bool" where
  "checks st st' \<longleftrightarrow>
     iplist st' = iplist st \<and> mode_type st' = mode_type st \<and> mode st' = mode st \<and> interval st' = interval st \<and>
     numcont st' = numcont st \<and> listcont st' = listcont st \<and> singlestate st' = singlestate st \<and>
     multistate st' = multistate st \<and> upfs st' = upfs st \<and>
     default_route (acts st') = default_route (acts st) \<and> last_script (acts st') = last_script (acts st) \<and>
     (\<exists>t. acts st' = acts st @ t) \<and> list_all2 same_conf (counter st) (counter st')"

definition counter_ok :: "env \<Rightarrow> action list \<Rightarrow> action list \<Rightarrow> conf1 \<Rightarrow> bool" where
  "counter_ok e h as c \<longleftrightarrow>
     status c \<in> {0, 1} \<and> down c \<in> {0, 3} \<and> (status c = 1 \<longrightarrow> answered e h as (ip c))"

lemma same_conf_refl [intro, simp]: "same_conf c c"
  by (simp add: same_conf_def)

lemma same_conf_list_refl [intro, simp]: "list_all2 same_conf cs cs"
  by (simp add: list_all2_refl)

lemma same_conf_list_trans: "list_all2 same_conf a b \<Longrightarrow> list_all2 same_conf b c \<Longrightarrow> list_all2 same_conf a c"
  by (rule list_all2_trans) (auto simp: same_conf_def)

lemma checks_refl [intro, simp]: "checks st st"
  by (simp add: checks_def)

lemma checks_trans: "checks a b \<Longrightarrow> checks b c \<Longrightarrow> checks a c"
  unfolding checks_def using same_conf_list_trans by fastforce

lemma checks_acts: "checks a b \<Longrightarrow> \<exists>t. acts b = acts a @ t"
  and checks_length: "checks a b \<Longrightarrow> length (counter b) = length (counter a)"
  by (auto simp: checks_def dest: list_all2_lengthD)

lemma quiet_checks: "quiet st st' \<Longrightarrow> checks st st'"
proof -
  assume q: "quiet st st'"
  then have "\<exists>t. acts st' = acts st @ t" by (auto simp: quiet_def)
  then show ?thesis by (simp add: checks_def quiet_sel [OF q])
qed

lemma checks_set_counter: "(\<And>c. same_conf c (f c)) \<Longrightarrow> checks st (set_counter i f st)"
  unfolding checks_def set_counter_def
  by (cases "i < length (counter st)") (auto intro!: list_all2_all_nthI simp: nth_list_update)

lemma checks_log: "checks st st' \<Longrightarrow> checks st (log_action t m st')"
  by (rule checks_trans, assumption, rule quiet_checks, rule quiet_log) auto

lemma set_counter_sel [simp]:
  "acts (set_counter i f st) = acts st" "length (counter (set_counter i f st)) = length (counter st)"
  "i < length (counter st) \<Longrightarrow> counter (set_counter i f st) ! i = f (counter st ! i)"
  "j \<noteq> i \<Longrightarrow> counter (set_counter i f st) ! j = counter st ! j"
  by (simp_all add: set_counter_def)

lemma counter_log [simp]: "counter (log_action t m st) = counter st"
  by (simp add: log_action_def Let_def)

lemma acts_log: "\<exists>a. acts (log_action t m st) = acts st @ [a]"
  by (simp add: log_action_def Let_def)

lemma chk_one_checks: "checks st (chk_one e i st)"
proof -
  let ?s1 = "set_counter i (\<lambda>c. c\<lparr>status := 0\<rparr>) st"
  let ?c = "counter ?s1 ! i"
  let ?p = "do_ping e (gw ?c) (dev ?c) (ip ?c) ?s1"
  let ?m = "uplink_msg (''gateway '' @ gw ?c @ '' seems to be down'')"
  have 1: "checks st (snd ?p)"
    by (rule checks_trans [OF checks_set_counter quiet_checks [OF do_ping_quiet]]) (simp add: same_conf_def)
  have up: "checks st (set_counter i (\<lambda>c. c\<lparr>status := 1, down := 0\<rparr>) (snd ?p))"
    by (rule checks_trans [OF 1 checks_set_counter]) (simp add: same_conf_def)
  let ?s2 = "set_counter i (\<lambda>c. c\<lparr>down := 1\<rparr>) (snd ?p)"
  let ?s3 = "act (Sleep 1) (log_action ''ERROR'' (?m ?s2) ?s2)"
  have "checks st ?s2" by (rule checks_trans [OF 1 checks_set_counter]) (simp add: same_conf_def)
  then have "checks st (log_action ''ERROR'' (?m ?s2) ?s2)" by (rule checks_log)
  then have "checks st ?s3" by (rule checks_trans) (rule quiet_checks, rule quiet_act, simp_all)
  then have dn: "checks st (set_counter i (\<lambda>c. c\<lparr>down := 3\<rparr>) ?s3)"
    by (rule checks_trans [OF _ checks_set_counter]) (simp add: same_conf_def)
  show ?thesis using 1 up dn by (simp add: chk_one_def Let_def split_beta)
qed

lemma chk_one_other: "j \<noteq> i \<Longrightarrow> counter (chk_one e i st) ! j = counter st ! j"
  using quiet_sel(1) [OF do_ping_quiet] by (simp add: chk_one_def Let_def split_beta)

lemma chk_one_this:
  assumes i: "i < length (counter st)" and d: "down (counter st ! i) \<in> {0, 3}"
  shows "counter_ok e (acts st) (acts (chk_one e i st)) (counter (chk_one e i st) ! i)"
proof -
  let ?s1 = "set_counter i (\<lambda>c. c\<lparr>status := 0\<rparr>) st"
  let ?c = "counter ?s1 ! i"
  let ?p = "do_ping e (gw ?c) (dev ?c) (ip ?c) ?s1"
  have c: "counter (snd ?p) = counter ?s1" by (rule quiet_sel(1) [OF do_ping_quiet])
  have l: "i < length (counter (snd ?p))" using i c by simp
  have n: "counter (snd ?p) ! i = (counter st ! i)\<lparr>status := 0\<rparr>" using i c by simp
  show ?thesis
  proof (cases "fst ?p = 0")
    case True
    have "answered e (acts st) (acts (snd ?p)) (ip ?c)" using do_ping_answered [OF True] by simp
    with True l n i show ?thesis by (simp add: chk_one_def Let_def split_beta counter_ok_def)
  next
    case False
    with l n i d show ?thesis by (auto simp: chk_one_def Let_def split_beta counter_ok_def)
  qed
qed

lemma counter_ok_mono: "counter_ok e h as c \<Longrightarrow> counter_ok e h (as @ r) c"
  by (auto simp: counter_ok_def intro: answered_append)

lemma counter_ok_before: "counter_ok e (h @ t) as c \<Longrightarrow> counter_ok e h as c"
  by (auto simp: counter_ok_def intro: answered_mono)

lemma chk_loop_checks: "checks st (chk_loop e i n st)"
  by (induction n arbitrary: i st) (auto intro: checks_trans [OF chk_one_checks])

lemma chk_loop_other: "j < i \<or> i + n \<le> j \<Longrightarrow> counter (chk_loop e i n st) ! j = counter st ! j"
  by (induction n arbitrary: i st) (auto simp: chk_one_other)

lemma chk_loop_ok:
  assumes "i + n \<le> length (counter st)" "\<forall>c \<in> set (counter st). down c \<in> {0, 3}" "i \<le> j" "j < i + n"
  shows "counter_ok e (acts st) (acts (chk_loop e i n st)) (counter (chk_loop e i n st) ! j)"
  using assms
proof (induction n arbitrary: i st)
  case (Suc n)
  let ?s = "chk_one e i st"
  have ck: "checks st ?s" by (rule chk_one_checks)
  obtain t where t: "acts ?s = acts st @ t" using checks_acts [OF ck] ..
  have len: "length (counter ?s) = length (counter st)" by (rule checks_length [OF ck])
  obtain r where r: "acts (chk_loop e (i + 1) n ?s) = acts ?s @ r" using checks_acts [OF chk_loop_checks] ..
  have i: "i < length (counter st)" using Suc.prems(1) by simp
  then have di: "down (counter st ! i) \<in> {0, 3}" using Suc.prems(2) by simp
  note this1 = chk_one_this [OF i di, of e]
  show ?case
  proof (cases "j = i")
    case True
    have "counter (chk_loop e (i + 1) n ?s) ! i = counter ?s ! i" by (rule chk_loop_other) simp
    with this1 r True show ?thesis by (simp add: counter_ok_mono)
  next
    case False
    have "\<forall>c \<in> set (counter ?s). down c \<in> {0, 3}"
    proof
      fix c assume "c \<in> set (counter ?s)"
      then obtain k where k: "k < length (counter st)" "c = counter ?s ! k" using len by (metis in_set_conv_nth)
      show "down c \<in> {0, 3}"
      proof (cases "k = i")
        case True with this1 k show ?thesis by (simp add: counter_ok_def)
      next
        case False with chk_one_other [of k i e st] k Suc.prems(2) show ?thesis by simp
      qed
    qed
    then have "counter_ok e (acts ?s) (acts (chk_loop e (i + 1) n ?s)) (counter (chk_loop e (i + 1) n ?s) ! j)"
      using Suc.prems False len by (intro Suc.IH) auto
    then show ?thesis using t by (simp add: counter_ok_before)
  qed
qed simp

section \<open>Moving the default route\<close>

definition routes :: "uplinkd \<Rightarrow> uplinkd \<Rightarrow> bool" where
  "routes st st' \<longleftrightarrow>
     counter st' = counter st \<and> iplist st' = iplist st \<and> mode_type st' = mode_type st \<and> mode st' = mode st \<and>
     interval st' = interval st \<and> numcont st' = numcont st \<and> listcont st' = listcont st \<and> upfs st' = upfs st \<and>
     (\<exists>t. acts st' = acts st @ t)"

lemma routes_refl [intro, simp]: "routes st st"
  by (simp add: routes_def)

lemma routes_trans: "routes a b \<Longrightarrow> routes b c \<Longrightarrow> routes a c"
  unfolding routes_def by fastforce

lemma routes_act: "routes st st' \<Longrightarrow> routes st (act a st')"
  unfolding routes_def by auto

lemma routes_log: "routes st st' \<Longrightarrow> routes st (log_action t m st')"
  unfolding log_action_def Let_def by (rule routes_act)

lemma routes_state: "routes st st' \<Longrightarrow> routes st (st'\<lparr>singlestate := x\<rparr>)" "routes st st' \<Longrightarrow> routes st (st'\<lparr>multistate := x\<rparr>)"
  by (simp_all add: routes_def)

lemma switch_default_eq:
  "switch_default e i st = act (RouteAddDefault (gw (counter st ! i)) (dev (counter st ! i))) (act RouteDelDefault st)"
  by (simp add: switch_default_def command_defs Let_def)

lemma routes_switch: "routes st st' \<Longrightarrow> routes st (switch_default e i st')"
  unfolding switch_default_eq by (intro routes_act)

lemmas routes_intros = routes_refl routes_act routes_log routes_state routes_switch

lemma log_sel [simp]:
  "singlestate (log_action t m st) = singlestate st" "multistate (log_action t m st) = multistate st"
  "default_route (acts (log_action t m st)) = default_route (acts st)"
  "last_script (acts (log_action t m st)) = last_script (acts st)"
  by (simp_all add: log_action_def Let_def)

lemma switch_sel [simp]:
  "singlestate (switch_default e i st) = singlestate st" "multistate (switch_default e i st) = multistate st"
  "counter (switch_default e i st) = counter st"
  "default_route (acts (switch_default e i st)) = Some (Some (gw (counter st ! i), dev (counter st ! i)))"
  "last_script (acts (switch_default e i st)) = last_script (acts st)"
  by (simp_all add: switch_default_eq)

text \<open>The index of the first uplink that is up.\<close>

definition first_up :: "uplinkd \<Rightarrow> nat option" where
  "first_up st = List.find (\<lambda>i. status (counter st ! i) = 1) [0..<numcont st]"

lemma first_up_None: "first_up st = None \<longleftrightarrow> (\<forall>i < numcont st. status (counter st ! i) \<noteq> 1)"
  by (auto simp: first_up_def find_None_iff)

lemma first_up_Some:
  "first_up st = Some k \<longleftrightarrow> k < numcont st \<and> status (counter st ! k) = 1 \<and> (\<forall>j < k. status (counter st ! j) \<noteq> 1)"
  unfolding first_up_def find_Some_iff by (auto simp: Bex_def)

lemma single_loop_routes: "routes st (single_loop e i n st)"
proof (induction n arbitrary: i st)
  case (Suc n)
  have "routes st (single_loop e (i + 1) n (st\<lparr>singlestate := 1\<rparr>))"
    by (rule routes_trans [OF _ Suc.IH]) (intro routes_intros)
  then show ?case by (auto simp: Let_def intro!: routes_intros)
qed simp

lemma single_loop_none:
  "(\<And>j. i \<le> j \<Longrightarrow> j < i + n \<Longrightarrow> status (counter st ! j) \<noteq> 1) \<Longrightarrow>
   single_loop e i n st = (if n = 0 then st else st\<lparr>singlestate := 1\<rparr>)"
proof (induction n arbitrary: i st)
  case (Suc n)
  have "status (counter st ! i) \<noteq> 1" using Suc.prems [of i] by simp
  moreover have "single_loop e (i + 1) n (st\<lparr>singlestate := 1\<rparr>) =
      (if n = 0 then st\<lparr>singlestate := 1\<rparr> else (st\<lparr>singlestate := 1\<rparr>)\<lparr>singlestate := 1\<rparr>)"
    using Suc.prems by (intro Suc.IH) auto
  ultimately show ?case by simp
qed simp

lemma single_loop_skip:
  "(\<And>j. i \<le> j \<Longrightarrow> j < i + d \<Longrightarrow> status (counter st ! j) \<noteq> 1) \<Longrightarrow>
   single_loop e i (d + n) st = single_loop e (i + d) n (if d = 0 then st else st\<lparr>singlestate := 1\<rparr>)"
proof (induction d arbitrary: i st)
  case (Suc d)
  have "status (counter st ! i) \<noteq> 1" using Suc.prems [of i] by simp
  moreover have "single_loop e (i + 1) (d + n) (st\<lparr>singlestate := 1\<rparr>) =
      single_loop e (i + 1 + d) n (if d = 0 then st\<lparr>singlestate := 1\<rparr> else (st\<lparr>singlestate := 1\<rparr>)\<lparr>singlestate := 1\<rparr>)"
    using Suc.prems by (intro Suc.IH) auto
  ultimately show ?case by simp
qed simp

lemma do_single_route_routes: "routes st (do_single_route e st)"
  unfolding do_single_route_def by (intro routes_act single_loop_routes)

lemma do_single_route_none:
  assumes "first_up st = None"
  shows "singlestate (do_single_route e st) = (if numcont st = 0 then singlestate st else 1)"
    "default_route (acts (do_single_route e st)) = default_route (acts st)"
    "last_script (acts (do_single_route e st)) = last_script (acts st)"
proof -
  have "single_loop e 0 (numcont st) st = (if numcont st = 0 then st else st\<lparr>singlestate := 1\<rparr>)"
    using assms by (intro single_loop_none) (auto simp: first_up_None)
  then show "singlestate (do_single_route e st) = (if numcont st = 0 then singlestate st else 1)"
    "default_route (acts (do_single_route e st)) = default_route (acts st)"
    "last_script (acts (do_single_route e st)) = last_script (acts st)"
    by (simp_all add: do_single_route_def)
qed

lemma do_single_route_some:
  assumes up: "first_up st = Some k" and s: "singlestate st \<in> {0, 1}"
  defines "c \<equiv> counter st ! k"
  shows "singlestate (do_single_route e st) = (if prio c = 1 then 0 else 1)"
    "default_route (acts (do_single_route e st)) =
       (if prio c = 1 \<and> k = 0 \<and> singlestate st = 0 then default_route (acts st) else Some (Some (gw c, dev c)))"
    "multistate (do_single_route e st) = multistate st"
    "last_script (acts (do_single_route e st)) = last_script (acts st)"
proof -
  obtain n where n: "numcont st = k + Suc n" using up less_iff_Suc_add by (auto simp: first_up_Some)
  have skip: "single_loop e 0 (numcont st) st = single_loop e k (Suc n) (if k = 0 then st else st\<lparr>singlestate := 1\<rparr>)"
    unfolding n using up single_loop_skip [of 0 k st e "Suc n"] by (auto simp: first_up_Some)
  have c: "status c = 1" using up by (simp add: first_up_Some c_def)
  show "singlestate (do_single_route e st) = (if prio c = 1 then 0 else 1)"
    "default_route (acts (do_single_route e st)) =
       (if prio c = 1 \<and> k = 0 \<and> singlestate st = 0 then default_route (acts st) else Some (Some (gw c, dev c)))"
    "multistate (do_single_route e st) = multistate st"
    "last_script (acts (do_single_route e st)) = last_script (acts st)"
    using c s by (auto simp: do_single_route_def skip Let_def c_def split: if_splits)
qed

section \<open>Balancing\<close>

definition ups :: "uplinkd \<Rightarrow> nat" where
  "ups st = length (filter (\<lambda>c. status c = 1) (take (numcont st) (counter st)))"

lemma tune_loop_spec:
  "x \<le> 2 \<Longrightarrow> fst (tune_loop cs i x p) = min 2 (x + length (filter (\<lambda>c. status c = 1) cs))"
  by (induction cs arbitrary: i x p) auto

lemma tune_loop_one:
  "fst (tune_loop cs i 0 p) = 1 \<Longrightarrow>
   \<exists>k. snd (tune_loop cs i 0 p) = Some (i + k) \<and> k < length cs \<and> status (cs ! k) = 1"
proof (induction cs arbitrary: i)
  case (Cons c cs)
  show ?case
  proof (cases "status c = 1")
    case True
    with Cons.prems have "fst (tune_loop cs (i + 1) 1 (Some i)) = 1" by simp
    then have "length (filter (\<lambda>c. status c = 1) cs) = 0" by (subst (asm) tune_loop_spec) (simp, linarith)
    then have "filter (\<lambda>c. status c = 1) cs = []" by (simp only: length_0_conv)
    then have "tune_loop cs j 1 (Some i) = (1, Some i)" for j by (induction cs arbitrary: j) (auto split: if_splits)
    with True show ?thesis by force
  next
    case False
    with Cons.prems have "fst (tune_loop cs (i + 1) 0 p) = 1" by simp
    from Cons.IH [OF this] False show ?thesis by force
  qed
qed simp

lemma do_tune_route_routes: "routes st (do_tune_route e st)"
  by (auto simp: do_tune_route_def Let_def split_beta intro!: routes_intros)

lemma do_tune_route_single [simp]: "singlestate (do_tune_route e st) = singlestate st"
  by (auto simp: do_tune_route_def Let_def split_beta)

lemma tune_ups: "fst (tune_loop (take (numcont st) (counter st)) 0 0 None) = min 2 (ups st)"
  by (simp add: tune_loop_spec ups_def)

lemma do_tune_route_spec:
  assumes m: "multistate st \<in> {0, 1}" and len: "numcont st \<le> length (counter st)"
  shows "multistate (do_tune_route e st) = (if ups st = 1 then 1 else 0)"
    "last_script (acts (do_tune_route e st)) =
       (if ups st = 1 \<and> multistate st = 0 then Some ''/var/sys/uplink_stop''
        else if ups st \<noteq> 1 \<and> multistate st = 1 then Some ''/var/sys/uplink_start''
        else last_script (acts st))"
    "ups st = 1 \<Longrightarrow> multistate st = 0 \<Longrightarrow>
       \<exists>k < numcont st. status (counter st ! k) = 1 \<and>
         default_route (acts (do_tune_route e st)) = Some (Some (gw (counter st ! k), dev (counter st ! k)))"
    "ups st \<noteq> 1 \<or> multistate st = 1 \<Longrightarrow> default_route (acts (do_tune_route e st)) = default_route (acts st)"
proof -
  obtain x p where xp: "tune_loop (take (numcont st) (counter st)) 0 0 None = (x, p)" by fastforce
  then have x: "x = min 2 (ups st)" using tune_ups [of st] by simp
  have one: "x = 1 \<longleftrightarrow> ups st = 1" using x by auto
  show "multistate (do_tune_route e st) = (if ups st = 1 then 1 else 0)"
    using m one by (auto simp: do_tune_route_def xp Let_def)
  show "last_script (acts (do_tune_route e st)) =
       (if ups st = 1 \<and> multistate st = 0 then Some ''/var/sys/uplink_stop''
        else if ups st \<noteq> 1 \<and> multistate st = 1 then Some ''/var/sys/uplink_start''
        else last_script (acts st))"
    using m one by (auto simp: do_tune_route_def xp Let_def)
  show "default_route (acts (do_tune_route e st)) = default_route (acts st)" if "ups st \<noteq> 1 \<or> multistate st = 1"
    using that m one by (auto simp: do_tune_route_def xp Let_def)
  assume u: "ups st = 1" and z: "multistate st = 0"
  then have "x = 1" using one by simp
  then obtain k where k: "p = Some k" "k < numcont st" "status (counter st ! k) = 1"
    using tune_loop_one [of "take (numcont st) (counter st)" 0 None] xp len by auto
  with u z one show "\<exists>k < numcont st. status (counter st ! k) = 1 \<and>
      default_route (acts (do_tune_route e st)) = Some (Some (gw (counter st ! k), dev (counter st ! k)))"
    by (auto simp: do_tune_route_def xp Let_def)
qed

section \<open>A round\<close>

lemma write_status_sel [simp]:
  "counter (write_status st) = counter st" "iplist (write_status st) = iplist st"
  "mode_type (write_status st) = mode_type st" "mode (write_status st) = mode st"
  "interval (write_status st) = interval st" "numcont (write_status st) = numcont st"
  "listcont (write_status st) = listcont st" "singlestate (write_status st) = singlestate st"
  "multistate (write_status st) = multistate st" "acts (write_status st) = acts st"
  by (simp_all add: write_status_def Let_def)

definition conf_ok :: "conf1 \<Rightarrow> bool" where
  "conf_ok c \<longleftrightarrow> length (dev c) < 25 \<and> length (gw c) < 50 \<and> length (ip c) < 50 \<and> status c \<in> {0, 1} \<and> down c \<in> {0, 3}"

definition uplink_ok :: "uplinkd \<Rightarrow> bool" where
  "uplink_ok st \<longleftrightarrow>
     length (counter st) = 25 \<and> length (iplist st) = 1024 \<and> 0 < numcont st \<and> numcont st \<le> 25 \<and>
     0 < listcont st \<and> listcont st \<le> 1024 \<and> (\<forall>c \<in> set (counter st). conf_ok c) \<and>
     (\<forall>d \<in> set (iplist st). length d < 50) \<and> singlestate st \<in> {0, 1} \<and> multistate st \<in> {0, 1} \<and>
     length (mode_type st) < 150"

abbreviation after_check :: "env \<Rightarrow> uplinkd \<Rightarrow> uplinkd" where
  "after_check e st \<equiv> chk_loop e 0 (numcont st) st"

lemma after_check_counter:
  assumes "uplink_ok st" "j < numcont st"
  shows "counter_ok e (acts st) (acts (after_check e st)) (counter (after_check e st) ! j)"
  using assms by (intro chk_loop_ok) (auto simp: uplink_ok_def conf_ok_def)

lemma after_check_ok:
  assumes "uplink_ok st"
  shows "uplink_ok (after_check e st)"
proof -
  let ?s = "after_check e st"
  have ck: "checks st ?s" by (rule chk_loop_checks)
  then have all2: "list_all2 same_conf (counter st) (counter ?s)" by (simp add: checks_def)
  have "conf_ok (counter ?s ! j)" if j: "j < length (counter st)" for j
  proof (cases "j < numcont st")
    case True
    have "same_conf (counter st ! j) (counter ?s ! j)" using all2 j by (simp add: list_all2_nthD)
    moreover have "conf_ok (counter st ! j)" using assms j by (simp add: uplink_ok_def)
    moreover have "counter_ok e (acts st) (acts ?s) (counter ?s ! j)" by (rule after_check_counter [OF assms True])
    ultimately show ?thesis by (auto simp: conf_ok_def counter_ok_def same_conf_def)
  next
    case False
    then have "counter ?s ! j = counter st ! j" by (intro chk_loop_other) simp
    then show ?thesis using assms j by (simp add: uplink_ok_def)
  qed
  then have "\<forall>c \<in> set (counter ?s). conf_ok c" using checks_length [OF ck] by (metis in_set_conv_nth)
  with assms ck show ?thesis unfolding uplink_ok_def checks_def by (auto dest: list_all2_lengthD)
qed

lemma routes_ok: "uplink_ok st \<Longrightarrow> routes st st' \<Longrightarrow> singlestate st' \<in> {0, 1} \<Longrightarrow> multistate st' \<in> {0, 1} \<Longrightarrow> uplink_ok st'"
  by (simp add: uplink_ok_def routes_def)

lemma do_single_route_state:
  "singlestate st \<in> {0, 1} \<Longrightarrow> singlestate (do_single_route e st) \<in> {0, 1}"
  by (cases "first_up st") (auto simp: do_single_route_none do_single_route_some)

lemma do_single_route_multi [simp]: "multistate (do_single_route e st) = multistate st"
proof -
  have "multistate (single_loop e i n st) = multistate st" for i n
    by (induction n arbitrary: i st) (auto simp: Let_def)
  then show ?thesis by (simp add: do_single_route_def)
qed

lemma chkfailover_eq:
  "chkfailover e st =
     (let s = after_check e st in
      if mode st = 1 then do_single_route e s else if mode st = 2 then do_tune_route e s else s)"
  using chk_loop_checks [of st e 0 "numcont st"] do_single_route_routes [of "after_check e st" e]
  by (auto simp: chkfailover_def Let_def checks_def routes_def)

lemma chkfailover_ok:
  assumes "uplink_ok st"
  shows "uplink_ok (chkfailover e st)"
proof -
  let ?s = "after_check e st"
  have s: "uplink_ok ?s" by (rule after_check_ok [OF assms])
  then have st: "singlestate ?s \<in> {0, 1}" "multistate ?s \<in> {0, 1}" "numcont ?s \<le> length (counter ?s)"
    by (simp_all add: uplink_ok_def)
  have "uplink_ok (do_single_route e ?s)"
    by (rule routes_ok [OF s do_single_route_routes do_single_route_state]) (use st in simp_all)
  moreover have "uplink_ok (do_tune_route e ?s)"
    by (rule routes_ok [OF s do_tune_route_routes]) (use st do_tune_route_spec(1) in simp_all)
  ultimately show ?thesis using s by (simp add: chkfailover_eq Let_def)
qed

lemma uplink_round_sel [simp]:
  "counter (uplink_round e st) = counter (chkfailover e st)" "mode (uplink_round e st) = mode (chkfailover e st)"
  "numcont (uplink_round e st) = numcont (chkfailover e st)"
  "singlestate (uplink_round e st) = singlestate (chkfailover e st)"
  "multistate (uplink_round e st) = multistate (chkfailover e st)"
  "default_route (acts (uplink_round e st)) = default_route (acts (chkfailover e st))"
  "last_script (acts (uplink_round e st)) = last_script (acts (chkfailover e st))"
  "\<exists>t. acts (uplink_round e st) = acts (chkfailover e st) @ t"
  by (simp_all add: uplink_round_def Let_def)

lemma uplink_round_ok: "uplink_ok st \<Longrightarrow> uplink_ok (uplink_round e st)"
  using chkfailover_ok [of st e] by (simp add: uplink_ok_def uplink_round_def Let_def)

lemma chkfailover_routes:
  "\<exists>s. checks st s \<and> routes s (chkfailover e st)"
proof (intro exI conjI)
  show "checks st (after_check e st)" by (rule chk_loop_checks)
  show "routes (after_check e st) (chkfailover e st)"
    by (simp add: chkfailover_eq Let_def do_single_route_routes do_tune_route_routes)
qed

lemma round_conf:
  shows "mode (uplink_round e st) = mode st" "numcont (uplink_round e st) = numcont st"
    "list_all2 same_conf (counter st) (counter (uplink_round e st))"
proof -
  obtain s where "checks st s" "routes s (chkfailover e st)" using chkfailover_routes by blast
  then show "mode (uplink_round e st) = mode st" "numcont (uplink_round e st) = numcont st"
    "list_all2 same_conf (counter st) (counter (uplink_round e st))"
    by (simp_all add: checks_def routes_def)
qed

section \<open>Reading the configuration\<close>

lemma all_list_update: "\<forall>x \<in> set xs. P x \<Longrightarrow> P y \<Longrightarrow> \<forall>x \<in> set (xs[i := y]). P x"
  using set_update_subset_insert [of xs i y] by auto

lemma scan_str_tokens:
  "tokens white s = (case scan_str s of None \<Rightarrow> [] | Some (w, r) \<Rightarrow> w # tokens white r)"
proof -
  let ?t = "dropWhile isspace s"
  let ?r = "dropWhile (\<lambda>c. \<not> isspace c) ?t"
  have w: "(\<lambda>c. c \<in> set white) = isspace" "(\<lambda>c. c \<notin> set white) = (\<lambda>c. \<not> isspace c)"
    by (simp_all add: fun_eq_iff isspace_white)
  have r: "tokens white (drop 1 ?r) = tokens white ?r"
  proof (cases ?r)
    case (Cons c cs)
    then have "c \<in> set white" using hd_dropWhile [of "\<lambda>c. \<not> isspace c" ?t] by (simp add: isspace_white)
    then show ?thesis by (simp add: Cons tokens_spec)
  qed (simp only: drop_Nil)
  show ?thesis
  proof (cases "?t = []")
    case True
    then show ?thesis by (subst tokens.simps) (simp add: scan_str_def strtok_def w del: dropWhile_eq_Nil_conv)
  next
    case False
    then show ?thesis
      by (subst tokens.simps) (simp only: scan_str_def strtok_def w Let_def if_False option.case prod.case r)
  qed
qed

definition line_fits :: "string \<Rightarrow> bool" where
  "line_fits s \<longleftrightarrow>
     (case scan_int s of
        None \<Rightarrow> True
      | Some (_, r) \<Rightarrow> (\<forall>(w, n) \<in> set (zip (tokens white r) [25, 50, 50]). length w < n))"

lemma scan_counter_None: "scan_counter s c = None \<longleftrightarrow> \<not> line_fits s"
proof (cases "scan_int s")
  case (Some pr)
  obtain p r where pr: "pr = (p, r)" by fastforce
  show ?thesis
  proof (cases "scan_str r")
    case None
    then show ?thesis using Some pr scan_str_tokens [of r] by (simp add: scan_counter_def line_fits_def Let_def)
  next
    case (Some a)
    obtain d r1 where a: "a = (d, r1)" by fastforce
    note t0 = scan_str_tokens [of r, unfolded Some a option.case prod.case]
    note s1 = \<open>scan_int s = Some pr\<close> [unfolded pr] Some [unfolded a]
    show ?thesis
    proof (cases "scan_str r1")
      case None
      then show ?thesis using s1 t0 scan_str_tokens [of r1]
        by (simp add: scan_counter_def line_fits_def Let_def store_str_def)
    next
      case (Some b)
      obtain i r2 where b: "b = (i, r2)" by fastforce
      note t1 = scan_str_tokens [of r1, unfolded Some b option.case prod.case]
      note s2 = s1 Some [unfolded b]
      show ?thesis
      proof (cases "scan_str r2")
        case None
        then show ?thesis using s2 t0 t1 scan_str_tokens [of r2]
          by (simp add: scan_counter_def line_fits_def Let_def store_str_def)
      next
        case (Some g)
        obtain x r3 where g: "g = (x, r3)" by fastforce
        show ?thesis using s2 t0 t1 scan_str_tokens [of r2] Some g
          by (simp add: scan_counter_def line_fits_def Let_def store_str_def)
      qed
    qed
  qed
qed (simp add: scan_counter_def line_fits_def)

lemma scan_counter_ok: "scan_counter s c = Some c' \<Longrightarrow> conf_ok c \<Longrightarrow> conf_ok c'"
  by (auto simp: scan_counter_def store_str_def conf_ok_def Let_def split: option.splits prod.splits if_splits)

definition full_lines :: "bytes list \<Rightarrow> string list" where
  \<comment> \<open>the lines that are not blank, trimmed\<close>
  "full_lines ls = filter (\<lambda>s. s \<noteq> []) (map (\<lambda>l. trim (cread l)) ls)"

lemma read_counters_None:
  "i \<le> length cs \<Longrightarrow>
   read_counters ls i cs = None \<longleftrightarrow> length cs < i + length (full_lines ls) \<or> (\<exists>s \<in> set (full_lines ls). \<not> line_fits s)"
proof (induction ls i cs rule: read_counters.induct)
  case (2 l ls i cs)
  let ?b = "trim (cread l)"
  show ?case
  proof (cases "?b = []")
    case True
    with 2 show ?thesis by (simp add: full_lines_def)
  next
    case False
    show ?thesis
    proof (cases "i < length cs")
      case True
      show ?thesis
      proof (cases "scan_counter ?b (cs ! i)")
        case None
        with False True scan_counter_None [of ?b "cs ! i"] show ?thesis by (simp add: full_lines_def)
      next
        case (Some c)
        then have "line_fits ?b" using scan_counter_None [of ?b "cs ! i"] by simp
        with False True Some 2(2) [OF refl False True Some] show ?thesis by (simp add: full_lines_def)
      qed
    qed (use False 2 in \<open>simp add: full_lines_def\<close>)
  qed
qed (simp add: full_lines_def)

lemma read_counters_ok:
  "read_counters ls i cs = Some (cs', n) \<Longrightarrow> \<forall>c \<in> set cs. conf_ok c \<Longrightarrow> i \<le> length cs \<Longrightarrow>
   length cs' = length cs \<and> n \<le> length cs \<and> (\<forall>c \<in> set cs'. conf_ok c)"
proof (induction ls i cs rule: read_counters.induct)
  case (2 l ls i cs)
  let ?b = "trim (cread l)"
  show ?case
  proof (cases "?b = []")
    case True
    with 2 show ?thesis by simp
  next
    case False
    with 2(3) have i: "i < length cs" by (simp split: if_splits)
    with False 2(3) obtain c where c: "scan_counter ?b (cs ! i) = Some c"
      and r: "read_counters ls (i + 1) (cs[i := c\<lparr>status := 0, down := 0\<rparr>]) = Some (cs', n)"
      by (auto split: option.splits)
    have "conf_ok (c\<lparr>status := 0, down := 0\<rparr>)"
      using scan_counter_ok [OF c] 2(4) i by (simp add: conf_ok_def)
    then have "\<forall>c \<in> set (cs[i := c\<lparr>status := 0, down := 0\<rparr>]). conf_ok c"
      by (rule all_list_update [OF 2(4)])
    with 2(2) [OF refl False i c r] i show ?thesis by simp
  qed
qed auto

lemma read_list_None:
  "i \<le> length ds \<Longrightarrow> read_list ls i ds = None \<longleftrightarrow> length ds < i + length (full_lines ls)"
  by (induction ls i ds rule: read_list.induct) (auto simp: full_lines_def Let_def)

lemma read_list_ok:
  "read_list ls i ds = Some (ds', n) \<Longrightarrow> \<forall>d \<in> set ds. length d < 50 \<Longrightarrow> i \<le> length ds \<Longrightarrow>
   length ds' = length ds \<and> n \<le> length ds \<and> (\<forall>d \<in> set ds'. length d < 50)"
proof (induction ls i ds rule: read_list.induct)
  case (2 l ls i ds)
  let ?b = "trim (cread l)"
  show ?case
  proof (cases "?b = []")
    case True
    with 2 show ?thesis by simp
  next
    case False
    with 2(3) have i: "i < length ds" by (simp split: if_splits)
    with False 2(3) have r: "read_list ls (i + 1) (ds[i := snprintf_s 50 ?b]) = Some (ds', n)" by simp
    have "\<forall>d \<in> set (ds[i := snprintf_s 50 ?b]). length d < 50"
      by (rule all_list_update [OF 2(4)]) (simp add: snprintf_s_length)
    with 2(2) [OF refl False i r] i show ?thesis by simp
  qed
qed auto

text \<open>What the configuration files have to look like for the tables to hold them.\<close>

definition config_fits :: "fsys \<Rightarrow> bool" where
  "config_fits fs \<longleftrightarrow>
     (let chk = full_lines (case fopen_r fs ''/var/sys/uplink_chk'' of None \<Rightarrow> [] | Some s \<Rightarrow> fgets_all 150 s);
          hosts = full_lines (case fopen_r fs ''/var/sys/uplink_list'' of None \<Rightarrow> [] | Some s \<Rightarrow> fgets_all 150 s)
      in length chk \<le> 25 \<and> (\<forall>s \<in> set chk. line_fits s) \<and> length hosts \<le> 1024)"

definition config_breaks :: "fsys \<Rightarrow> bool" where
  "config_breaks fs \<longleftrightarrow>
     (\<forall>f \<in> set config_files. file_exists fs f) \<and>
     (case read_oneline fs ''/var/sys/uplink_config'' of
        None \<Rightarrow> False
      | Some (n, _) \<Rightarrow> n \<ge> 150 \<or> n \<ge> 0 \<and> \<not> config_fits fs)"

lemma scan_mode_sel [simp]:
  "counter (scan_mode s st) = counter st" "iplist (scan_mode s st) = iplist st"
  "mode_type (scan_mode s st) = mode_type st" "singlestate (scan_mode s st) = singlestate st"
  "multistate (scan_mode s st) = multistate st" "numcont (scan_mode s st) = numcont st"
  "listcont (scan_mode s st) = listcont st" "acts (scan_mode s st) = acts st" "upfs (scan_mode s st) = upfs st"
  by (auto simp: scan_mode_def Let_def split: option.splits)

lemma uplink_init_ok:
  "length (counter (uplink_init fs)) = 25" "length (iplist (uplink_init fs)) = 1024"
  "\<forall>c \<in> set (counter (uplink_init fs)). conf_ok c" "\<forall>d \<in> set (iplist (uplink_init fs)). length d < 50"
  "upfs (uplink_init fs) = fs" "acts (uplink_init fs) = []" "singlestate (uplink_init fs) = 0"
  "multistate (uplink_init fs) = 0" "numcont (uplink_init fs) = 0" "length (mode_type (uplink_init fs)) < 150"
  by (simp_all add: uplink_init_def conf_ok_def)

lemma read_config_None: "read_config (uplink_init fs) = None \<longleftrightarrow> config_breaks fs"
proof (cases "\<forall>f \<in> set config_files. file_exists fs f")
  case ex: True
  show ?thesis
  proof (cases "read_oneline fs ''/var/sys/uplink_config''")
    case (Some nb)
    obtain n b where nb: "nb = (n, b)" by fastforce
    let ?st = "scan_mode (trim b) (uplink_init fs)"
    let ?chk = "case fopen_r fs ''/var/sys/uplink_chk'' of None \<Rightarrow> [] | Some s \<Rightarrow> fgets_all 150 s"
    let ?hosts = "case fopen_r fs ''/var/sys/uplink_list'' of None \<Rightarrow> [] | Some s \<Rightarrow> fgets_all 150 s"
    have c: "read_counters ?chk 0 (counter (uplink_init fs)) = None \<longleftrightarrow>
        25 < length (full_lines ?chk) \<or> (\<exists>s \<in> set (full_lines ?chk). \<not> line_fits s)"
      by (subst read_counters_None) (simp_all only: uplink_init_ok le0 add_0)
    have l: "read_list ?hosts 0 (iplist (uplink_init fs)) = None \<longleftrightarrow> 1024 < length (full_lines ?hosts)"
      by (subst read_list_None) (simp_all only: uplink_init_ok le0 add_0)
    have nex: "\<not> (\<exists>f \<in> set config_files. \<not> file_exists fs f)" using ex by blast
    have eq: "read_config (uplink_init fs) =
       (if n \<ge> 150 then None else if n < 0 then Some (0, uplink_init fs)
        else (case read_counters ?chk 0 (counter (uplink_init fs)) of
                None \<Rightarrow> None
              | Some (cs, nc) \<Rightarrow>
                  (case read_list ?hosts 0 (iplist (uplink_init fs)) of
                     None \<Rightarrow> None
                   | Some (ds, nl) \<Rightarrow> Some (1, ?st\<lparr>counter := cs, numcont := nc, iplist := ds, listcont := nl\<rparr>))))"
      using nex Some nb by (simp only: read_config_def Let_def uplink_init_ok scan_mode_sel option.case prod.case if_False)
    have "read_config (uplink_init fs) = None \<longleftrightarrow> n \<ge> 150 \<or> n \<ge> 0 \<and>
        (read_counters ?chk 0 (counter (uplink_init fs)) = None \<or> read_list ?hosts 0 (iplist (uplink_init fs)) = None)"
      unfolding eq by (simp split: option.split prod.split)
    also have "\<dots> \<longleftrightarrow> n \<ge> 150 \<or> n \<ge> 0 \<and> \<not> config_fits fs"
      unfolding c l config_fits_def Let_def not_le [symmetric] by blast
    finally show ?thesis using ex Some nb by (simp add: config_breaks_def)
  qed (use ex in \<open>simp add: read_config_def config_breaks_def uplink_init_ok\<close>)
qed (auto simp: read_config_def config_breaks_def uplink_init_ok Let_def)

text \<open>The part of \<open>uplink_ok\<close> that holds even when there is nothing to check.\<close>

lemma read_config_ok:
  assumes "read_config (uplink_init fs) = Some (v, st)"
  shows "acts st = []" "singlestate st = 0" "multistate st = 0"
    "numcont st \<noteq> 0 \<Longrightarrow> listcont st \<noteq> 0 \<Longrightarrow> uplink_ok st"
proof -
  have init: "uplink_ok st" if "st = uplink_init fs" "numcont st \<noteq> 0" using that by (simp add: uplink_init_ok)
  consider (same) "st = uplink_init fs"
    | (read) b chk hosts cs nc ds nl where
      "read_counters chk 0 (counter (uplink_init fs)) = Some (cs, nc)"
      "read_list hosts 0 (iplist (uplink_init fs)) = Some (ds, nl)"
      "st = (scan_mode b (uplink_init fs))\<lparr>counter := cs, numcont := nc, iplist := ds, listcont := nl\<rparr>"
  proof (cases "\<exists>b chk hosts cs nc ds nl. read_counters chk 0 (counter (uplink_init fs)) = Some (cs, nc) \<and>
      read_list hosts 0 (iplist (uplink_init fs)) = Some (ds, nl) \<and>
      st = (scan_mode b (uplink_init fs))\<lparr>counter := cs, numcont := nc, iplist := ds, listcont := nl\<rparr>")
    case False
    have "st = uplink_init fs"
    proof (rule ccontr)
      assume ne: "st \<noteq> uplink_init fs"
      with assms obtain n b where nb: "read_oneline (upfs (uplink_init fs)) ''/var/sys/uplink_config'' = Some (n, b)"
        "\<not> 150 \<le> n" "\<not> n < 0" "\<forall>f \<in> set config_files. file_exists (upfs (uplink_init fs)) f"
        unfolding read_config_def Let_def by (cases "read_oneline (upfs (uplink_init fs)) ''/var/sys/uplink_config''") (force split: if_splits)+
      let ?chk = "case fopen_r (upfs (uplink_init fs)) ''/var/sys/uplink_chk'' of None \<Rightarrow> [] | Some s \<Rightarrow> fgets_all 150 s"
      let ?hosts = "case fopen_r (upfs (uplink_init fs)) ''/var/sys/uplink_list'' of None \<Rightarrow> [] | Some s \<Rightarrow> fgets_all 150 s"
      have "\<not> (\<exists>f \<in> set config_files. \<not> file_exists (upfs (uplink_init fs)) f)" using nb(4) by blast
      note eq = assms [unfolded read_config_def Let_def scan_mode_sel nb(1) option.case prod.case, simplified this nb if_False]
      from eq obtain cs nc where c: "read_counters ?chk 0 (counter (uplink_init fs)) = Some (cs, nc)"
        by (cases "read_counters ?chk 0 (counter (uplink_init fs))") auto
      with eq obtain ds nl where l: "read_list ?hosts 0 (iplist (uplink_init fs)) = Some (ds, nl)"
        by (cases "read_list ?hosts 0 (iplist (uplink_init fs))") auto
      from eq have "st = (scan_mode (trim b) (uplink_init fs))\<lparr>counter := cs, numcont := nc, iplist := ds, listcont := nl\<rparr>"
        by (simp add: c l)
      with c l False show False by blast
    qed
    then show ?thesis by (rule same)
  qed (use read in blast)
  then have "acts st = [] \<and> singlestate st = 0 \<and> multistate st = 0 \<and>
      (numcont st \<noteq> 0 \<longrightarrow> listcont st \<noteq> 0 \<longrightarrow> uplink_ok st)"
  proof cases
    case same
    then show ?thesis using init by (simp add: uplink_init_ok)
  next
    case read
    have "length cs = 25 \<and> nc \<le> 25 \<and> (\<forall>c \<in> set cs. conf_ok c)"
      using read_counters_ok [OF read(1)] uplink_init_ok by (metis le0)
    moreover have "length ds = 1024 \<and> nl \<le> 1024 \<and> (\<forall>d \<in> set ds. length d < 50)"
      using read_list_ok [OF read(2)] uplink_init_ok by (metis le0)
    ultimately show ?thesis by (simp add: read(3) uplink_init_ok uplink_ok_def)
  qed
  then show "acts st = []" "singlestate st = 0" "multistate st = 0"
    "numcont st \<noteq> 0 \<Longrightarrow> listcont st \<noteq> 0 \<Longrightarrow> uplink_ok st" by auto
qed

lemma uplink_start_cases:
  assumes "uplink_start e True fs = Some (Running st)"
  obtains v s where "read_config (uplink_init fs) = Some (v, s)" "uplink_ok s"
    "acts s = []" "singlestate s = 0" "multistate s = 0"
    "counter st = counter s" "numcont st = numcont s" "listcont st = listcont s" "iplist st = iplist s"
    "mode st = mode s" "singlestate st = singlestate s" "multistate st = multistate s"
    "default_route (acts st) = None"
    "mode st = 2 \<Longrightarrow> last_script (acts st) = Some ''/var/sys/uplink_start''"
    "mode_type st \<in> {mode_type s, ''Balancer (active->active)''}"
proof -
  obtain v s where r: "read_config (uplink_init fs) = Some (v, s)" and n: "numcont s \<noteq> 0" "listcont s \<noteq> 0"
    using assms by (auto simp: uplink_start_def split: option.splits if_splits)
  note ok = read_config_ok [OF r]
  let ?s1 = "write_status (act (Script ''/var/sys/uplink_stop'') s)"
  let ?s2 = "if mode ?s1 = 2 then act (Script ''/var/sys/uplink_start'') (?s1\<lparr>mode_type := ''Balancer (active->active)''\<rparr>) else ?s1"
  have st: "st = log_action ''ERROR'' (snprintf_s 256 (''Starting Uplink ['' @ mode_type ?s2 @ ''] daemon'')) ?s2"
    using assms n by (simp add: uplink_start_def r Let_def del: append.simps split: if_splits)
  show ?thesis
    by (cases "mode s = 2"; rule that [OF r ok(4) [OF n] ok(1-3)])
      (simp_all add: st log_action_def Let_def ok(1) default_route_def last_script_def)
qed

section \<open>The properties\<close>

lemma running_start: "running e fs 0 st \<Longrightarrow> uplink_start e True fs = Some (Running st)"
  by (erule running.cases) auto

lemma running_ok: "running e fs n st \<Longrightarrow> uplink_ok st"
proof (induction rule: running.induct)
  case (run_start st)
  then show ?case by (rule uplink_start_cases) (auto simp: uplink_ok_def)
qed (rule uplink_round_ok)

lemma round_answered:
  assumes ok: "uplink_ok st" and k: "k < numcont st" and up: "status (counter (uplink_round e st) ! k) = 1"
  shows "answered e (acts st) (acts (uplink_round e st)) (ip (counter (uplink_round e st) ! k))"
proof -
  let ?s = "after_check e st"
  have r: "routes ?s (chkfailover e st)"
    by (simp add: chkfailover_eq Let_def do_single_route_routes do_tune_route_routes)
  then have c: "counter (uplink_round e st) = counter ?s" by (simp add: routes_def)
  from r obtain t where "acts (chkfailover e st) = acts ?s @ t" by (auto simp: routes_def)
  moreover obtain t' where "acts (uplink_round e st) = acts (chkfailover e st) @ t'" using uplink_round_sel(8) ..
  ultimately have a: "acts (uplink_round e st) = acts ?s @ t @ t'" by simp
  have "answered e (acts st) (acts ?s) (ip (counter ?s ! k))"
    using after_check_counter [OF ok k, of e] up c by (simp add: counter_ok_def)
  then show ?thesis unfolding a c by (rule answered_append)
qed

text \<open>The configuration mode 1 is for: the uplink of priority 1 is the first one, and the only one.\<close>

definition primary_first :: "uplinkd \<Rightarrow> bool" where
  "primary_first st \<longleftrightarrow> prio (counter st ! 0) = 1 \<and> (\<forall>i < numcont st. 0 < i \<longrightarrow> prio (counter st ! i) \<noteq> 1)"

definition uses :: "uplinkd \<Rightarrow> nat \<Rightarrow> bool" where
  \<comment> \<open>the default route goes through uplink \<open>k\<close>\<close>
  "uses st k \<longleftrightarrow> default_route (acts st) = Some (Some (gw (counter st ! k), dev (counter st ! k)))"

definition untouched :: "uplinkd \<Rightarrow> bool" where
  "untouched st \<longleftrightarrow> default_route (acts st) = None"

lemma round_same:
  assumes "uplink_ok st" "i < numcont st"
  shows "same_conf (counter st ! i) (counter (uplink_round e st) ! i)"
  using round_conf(3) [of st e] assms by (auto simp: uplink_ok_def intro: list_all2_nthD)

lemma primary_first_round:
  assumes "uplink_ok st"
  shows "primary_first (uplink_round e st) \<longleftrightarrow> primary_first st"
proof -
  have "0 < numcont st" using assms by (simp add: uplink_ok_def)
  then show ?thesis
    using round_same [OF assms, of _ e] round_conf(2) [of e st] by (simp add: primary_first_def same_conf_def)
qed

lemma failover_round:
  fixes e :: env and st :: uplinkd
  assumes ok: "uplink_ok st" and m: "mode st = 1" and p: "primary_first st"
    and inv: "singlestate st = 0 \<Longrightarrow> uses st 0 \<or> untouched st"
  defines "st' \<equiv> uplink_round e st"
  shows "first_up st' = None \<Longrightarrow> singlestate st' = 1 \<and> default_route (acts st') = default_route (acts st)"
    "first_up st' = Some k \<Longrightarrow>
       singlestate st' = (if k = 0 then 0 else 1) \<and> (uses st' k \<or> k = 0 \<and> untouched st')"
proof -
  let ?s = "after_check e st"
  have ck: "checks st ?s" by (rule chk_loop_checks)
  have s: "uplink_ok ?s" by (rule after_check_ok [OF ok])
  have ch: "chkfailover e st = do_single_route e ?s" by (simp add: chkfailover_eq m)
  have rt: "routes ?s (do_single_route e ?s)" by (rule do_single_route_routes)
  have fu: "first_up st' = first_up ?s" using rt by (simp add: st'_def first_up_def ch routes_def)
  have c: "counter st' = counter ?s" using rt by (simp add: st'_def ch routes_def)
  have ss: "singlestate ?s \<in> {0, 1}" "0 < numcont ?s" using s by (simp_all add: uplink_ok_def)
  have dr: "default_route (acts ?s) = default_route (acts st)" "singlestate ?s = singlestate st" "numcont ?s = numcont st"
    using ck by (simp_all add: checks_def)
  show "singlestate st' = 1 \<and> default_route (acts st') = default_route (acts st)" if "first_up st' = None"
    using do_single_route_none [OF that [unfolded fu], of e] ss dr by (simp add: st'_def ch)
  show "singlestate st' = (if k = 0 then 0 else 1) \<and> (uses st' k \<or> k = 0 \<and> untouched st')" if k: "first_up st' = Some k"
  proof -
    have kn: "k < numcont st" using k fu dr by (simp add: first_up_Some)
    have "primary_first st'" using p primary_first_round [OF ok] by (simp add: st'_def)
    then have prio: "prio (counter ?s ! k) = 1 \<longleftrightarrow> k = 0" using kn c round_conf(2) [of e st] by (auto simp: primary_first_def st'_def)
    note one = do_single_route_some [OF k [unfolded fu] ss(1), of e]
    have "same_conf (counter st ! 0) (counter ?s ! 0)"
      using round_same [OF ok, of 0 e] c kn by (simp add: st'_def)
    then have "uses st 0 \<longleftrightarrow> default_route (acts ?s) = Some (Some (gw (counter ?s ! 0), dev (counter ?s ! 0)))"
      by (simp add: uses_def dr same_conf_def)
    then show ?thesis
      using one prio inv dr c by (auto simp: st'_def ch uses_def untouched_def routes_def)
  qed
qed

lemma failover_inv:
  "running e fs n st \<Longrightarrow> mode st = 1 \<Longrightarrow> primary_first st \<Longrightarrow> singlestate st = 0 \<Longrightarrow> uses st 0 \<or> untouched st"
proof (induction rule: running.induct)
  case (run_start st)
  from run_start(1) show ?case by (rule uplink_start_cases) (simp add: untouched_def)
next
  case (run_round n st)
  have ok: "uplink_ok st" by (rule running_ok [OF run_round(1)])
  have m: "mode st = 1" "primary_first st" using run_round round_conf(1) [of e st] primary_first_round [OF ok] by simp_all
  note inv = run_round.IH [OF m]
  show ?case
  proof (cases "first_up (uplink_round e st)")
    case None
    with failover_round(1) [OF ok m inv] run_round(5) show ?thesis by simp
  next
    case (Some k)
    with failover_round(2) [OF ok m inv Some] run_round(5) show ?thesis by (simp split: if_splits)
  qed
qed

lemma balancer_inv:
  "running e fs n st \<Longrightarrow> mode st = 2 \<Longrightarrow>
   last_script (acts st) = Some (if multistate st = 1 then ''/var/sys/uplink_stop'' else ''/var/sys/uplink_start'')"
proof (induction rule: running.induct)
  case (run_start st)
  show ?case by (rule uplink_start_cases [OF run_start(1)]) (simp add: run_start(2))
next
  case (run_round n st)
  let ?s = "after_check e st"
  have ok: "uplink_ok ?s" by (rule after_check_ok [OF running_ok [OF run_round(1)]])
  then have ms: "multistate ?s \<in> {0, 1}" "numcont ?s \<le> length (counter ?s)" by (simp_all add: uplink_ok_def)
  have m: "mode st = 2" using run_round round_conf(1) [of e st] by simp
  then have ch: "chkfailover e st = do_tune_route e ?s" by (simp add: chkfailover_eq)
  have "checks st ?s" by (rule chk_loop_checks)
  then have "multistate ?s = multistate st" "last_script (acts ?s) = last_script (acts st)" by (simp_all add: checks_def)
  with run_round.IH [OF m] ms do_tune_route_spec(1,2) [OF ms, of e] show ?case by (auto simp: ch)
qed

text \<open>
  Examples: two uplinks, of which the first never answers and the second one does; the text of
  the mode file is given.
\<close>

definition ex_files :: "string \<Rightarrow> (string list \<times> inode) list" where
  "ex_files m =
     [([], \<lparr>imode = S_IFDIR, idata = []\<rparr>), ([''var''], \<lparr>imode = S_IFDIR, idata = []\<rparr>),
      ([''var'', ''sys''], \<lparr>imode = S_IFDIR, idata = []\<rparr>),
      ([''var'', ''sys'', ''uplink_config''], \<lparr>imode = S_IFREG, idata = m\<rparr>),
      ([''var'', ''sys'', ''uplink_list''], \<lparr>imode = S_IFREG, idata = ''10.0.0.1''\<rparr>),
      ([''var'', ''sys'', ''uplink_chk''],
        \<lparr>imode = S_IFREG, idata = ''1 eth0 10.1.0.2 10.1.0.1'' @ [CHR 0x0A] @ ''2 eth1 10.2.0.2 10.2.0.1''\<rparr>),
      ([''var'', ''sys'', ''uplink_start''], \<lparr>imode = S_IFREG, idata = []\<rparr>),
      ([''var'', ''sys'', ''uplink_stop''], \<lparr>imode = S_IFREG, idata = []\<rparr>)]"

definition ex_fs :: "string \<Rightarrow> fsys" where
  "ex_fs m = \<lparr>inodes = map_of (ex_files m), fumask = 0, deny = (\<lambda>_. False)\<rparr>"

definition ex_env :: env where
  "ex_env as = (case last as of PingFrom i _ \<Rightarrow> if i = ''10.2.0.2'' then 0 else 1 | _ \<Rightarrow> 0)"

fun started :: "outcome option \<Rightarrow> (uplinkd \<Rightarrow> bool) \<Rightarrow> bool" where
  "started (Some (Running st)) P = P st"
| "started _ P = False"

lemma startedE: "started r P \<Longrightarrow> \<exists>st. r = Some (Running st) \<and> P st"
  by (cases "(r, P)" rule: started.cases) auto

definition ex_ready :: "int \<Rightarrow> uplinkd \<Rightarrow> bool" where
  "ex_ready m st \<longleftrightarrow> mode st = m \<and> singlestate st = 0 \<and> multistate st = 0 \<and> primary_first st \<and> numcont st = 2 \<and> listcont st = 1 \<and>
     ip (counter st ! 0) = ''10.1.0.2'' \<and> ip (counter st ! 1) = ''10.2.0.2'' \<and> take 1 (iplist st) = [''10.0.0.1'']"

lemma ex_started:
  "started (uplink_start ex_env True (ex_fs ''1|30'')) (ex_ready 1)"
  "started (uplink_start ex_env True (ex_fs ''2|30'')) (ex_ready 2)"
  by code_simp+

lemma ex_running:
  assumes "started (uplink_start ex_env True fs) (ex_ready m)"
  obtains st where "running ex_env fs 0 st" "ex_ready m st" "uplink_ok st"
  using startedE [OF assms] running.run_start running_ok by metis

lemma ex_ping:
  "listcont st = 1 \<Longrightarrow> take 1 (iplist st) = [a] \<Longrightarrow> fst (do_ping ex_env g b i st) = (if i = ''10.2.0.2'' then 0 else 1)"
  by (simp add: do_ping_def command_defs Let_def ex_env_def split_beta)

lemma ex_chk_one:
  assumes "listcont st = 1" "take 1 (iplist st) = [a]" "i < length (counter st)"
  shows "status (counter (chk_one ex_env i st) ! i) = (if ip (counter st ! i) = ''10.2.0.2'' then 1 else 0)"
proof -
  let ?s = "set_counter i (\<lambda>c. c\<lparr>status := 0\<rparr>) st"
  have "listcont ?s = 1" "take 1 (iplist ?s) = [a]" using assms by (simp_all add: set_counter_def)
  note p = ex_ping [OF this]
  have "counter (snd (do_ping ex_env g b x ?s)) = counter ?s" for g b x by (rule quiet_sel(1) [OF do_ping_quiet])
  then show ?thesis using assms(3) by (simp add: chk_one_def Let_def split_beta p)
qed

lemma ex_round_ups:
  assumes "ex_ready m st" "uplink_ok st"
  shows "first_up (uplink_round ex_env st) = Some 1 \<and> ups (uplink_round ex_env st) = 1"
proof -
  let ?s = "chk_one ex_env 0 st"
  have c: "checks st ?s" by (rule chk_one_checks)
  have len: "length (counter st) = 25" using assms(2) by (simp add: uplink_ok_def)
  have ips: "ip (counter st ! 0) = ''10.1.0.2''" "ip (counter st ! 1) = ''10.2.0.2''"
    using assms(1) by (simp_all add: ex_ready_def)
  have r: "listcont st = 1" "take 1 (iplist st) = [''10.0.0.1'']" using assms(1) by (simp_all add: ex_ready_def)
  have s: "listcont ?s = 1" "take 1 (iplist ?s) = [''10.0.0.1'']" "1 < length (counter ?s)"
    using c r checks_length [OF c] len by (simp_all add: checks_def)
  have "status (counter ?s ! 0) = 0" using ex_chk_one [OF r] ips len by simp
  then have 0: "status (counter (chk_one ex_env 1 ?s) ! 0) = 0" by (simp add: chk_one_other)
  have 1: "status (counter (chk_one ex_env 1 ?s) ! 1) = 1" using ex_chk_one [OF s] ips by (simp add: chk_one_other)
  have two: "numcont st = Suc (Suc 0)" using assms(1) by (simp add: ex_ready_def)
  have ac: "after_check ex_env st = chk_one ex_env 1 ?s" by (simp add: two)
  have "routes (after_check ex_env st) (chkfailover ex_env st)"
    by (simp add: chkfailover_eq Let_def do_single_route_routes do_tune_route_routes)
  then have "counter (uplink_round ex_env st) = counter (chk_one ex_env 1 ?s)" by (simp add: routes_def ac)
  moreover have "take 2 (counter (chk_one ex_env 1 ?s)) =
      [counter (chk_one ex_env 1 ?s) ! 0, counter (chk_one ex_env 1 ?s) ! 1]"
    using len checks_length [OF checks_trans [OF c chk_one_checks]]
    by (auto simp: list_eq_iff_nth_eq less_Suc_eq numeral_2_eq_2)
  ultimately show ?thesis using 0 1 two round_conf(2) [of ex_env st]
    by (auto simp: first_up_Some less_Suc_eq ups_def numeral_2_eq_2)
qed




text \<open>
  C28. The daemon's tables are well formed in every state it reaches: the numbers of uplinks and hosts stay
  within the arrays and are not zero, every string fits its member, and the status fields hold only the
  values they are meant to. Reading the configuration goes outside of an array exactly
  for the files described by \<open>config_breaks\<close>: a first file of 150 bytes or more, more than 25 uplinks or
  1024 hosts, or a name or address that does not fit.
\<close>

theorem uplink_types:
  assumes "running e fs n st"
  shows "uplink_ok st \<and> uplink_ok (chkfailover e st) \<and> \<not> config_breaks fs \<and>
         (read_config (uplink_init fs') = None \<longleftrightarrow> config_breaks fs')"
proof -
  have "\<not> config_breaks fs" using assms
  proof (induction rule: running.induct)
    case (run_start st)
    from run_start(1) show ?case
    proof (rule uplink_start_cases)
      fix v s assume "read_config (uplink_init fs) = Some (v, s)"
      then show ?thesis using read_config_None [of fs] by simp
    qed
  qed
  with running_ok [OF assms] chkfailover_ok [OF running_ok [OF assms]] read_config_None show ?thesis by blast
qed

theorem uplink_types_witness:
  "\<exists>st. running ex_env (ex_fs ''1|30'') 0 st \<and> uplink_ok st \<and>
     read_config (uplink_init (ex_fs (replicate 150 CHR ''1''))) = None"
proof -
  obtain st where st: "running ex_env (ex_fs ''1|30'') 0 st"
    by (rule ex_running [OF ex_started(1)])
  moreover have "config_breaks (ex_fs (replicate 150 CHR ''1''))" by code_simp
  ultimately show ?thesis using uplink_types [OF st] by blast
qed

section \<open>The status file\<close>

lemma fs_append_lines:
  "inodes fs (comps p) = Some n \<Longrightarrow>
   foldl (\<lambda>fs c. fs_append fs p (f c)) fs cs =
     fs\<lparr>inodes := (inodes fs)(comps p \<mapsto> n\<lparr>idata := idata n @ concat (map f cs)\<rparr>)\<rparr>"
proof (induction cs arbitrary: fs n)
  case Nil
  then have "(inodes fs)(comps p \<mapsto> n) = inodes fs" by auto
  then show ?case by simp
next
  case (Cons c cs)
  have "fs_append fs p (f c) = fs\<lparr>inodes := (inodes fs)(comps p \<mapsto> n\<lparr>idata := idata n @ f c\<rparr>)\<rparr>"
    using Cons.prems by (simp add: fs_append_def)
  then show ?case using Cons.IH [of "fs_append fs p (f c)" "n\<lparr>idata := idata n @ f c\<rparr>"]
    by (simp add: fun_upd_same del: fun_upd_apply)
qed

text \<open>After \<open>write_status\<close> the status file lists every uplink, unless the file system refuses.\<close>

lemma new_file_not_dir: "\<not> S_ISDIR (S_IFREG OR (0x1B6 AND m))"
proof -
  have "(S_IFREG OR (0x1B6 AND m)) AND S_IFMT = (S_IFREG AND S_IFMT) OR (m AND (0x1B6 AND S_IFMT))"
    by (simp add: bit.conj_disj_distrib ac_simps)
  also have "\<dots> = S_IFREG" by (simp add: S_IFREG_def S_IFMT_def)
  finally show ?thesis by (simp add: S_ISDIR_def S_IFREG_def S_IFDIR_def)
qed

lemma fopen_w_new:
  assumes "p \<noteq> []" "comps p \<noteq> []" "\<not> deny fs (comps p)" "\<not> fs_isdir fs (comps p)" "fs_isdir fs (butlast (comps p))"
  obtains n where "fopen_w fs p = Some (fs\<lparr>inodes := (inodes fs)(comps p \<mapsto> n)\<rparr>)" "idata n = []" "\<not> S_ISDIR (imode n)"
proof (cases "inodes fs (comps p)")
  case None
  show ?thesis
    by (rule that [of "\<lparr>imode = S_IFREG OR (0x1B6 AND NOT (fumask fs)), idata = []\<rparr>"])
      (use assms None new_file_not_dir in \<open>simp_all add: fopen_w_def Let_def\<close>)
next
  case (Some n)
  show ?thesis
    by (rule that [of "n\<lparr>idata := []\<rparr>"])
      (use assms Some in \<open>simp_all add: fopen_w_def Let_def fs_isdir_def\<close>)
qed

lemma write_status_file:
  assumes dir: "fs_isdir (upfs st) [''var'', ''sys'']"
    and files: "\<forall>f \<in> {''uplink_status'', ''uplink_status.tmp''}.
      \<not> deny (upfs st) [''var'', ''sys'', f] \<and> \<not> fs_isdir (upfs st) [''var'', ''sys'', f]"
  shows "map_option idata (fs_node (upfs (write_status st)) ''/var/sys/uplink_status'') =
           Some (concat (map status_line (take (numcont st) (counter st))))"
proof -
  let ?p = "''/var/sys/uplink_status.tmp''" and ?t = "[''var'', ''sys'', ''uplink_status.tmp'']"
  let ?q = "''/var/sys/uplink_status''" and ?u = "[''var'', ''sys'', ''uplink_status'']"
  have c: "comps ?p = ?t" "comps ?q = ?u" by (simp_all add: comps_def)
  obtain n where n: "fopen_w (upfs st) ?p = Some ((upfs st)\<lparr>inodes := (inodes (upfs st))(?t \<mapsto> n)\<rparr>)"
    "idata n = []" "\<not> S_ISDIR (imode n)"
    by (rule fopen_w_new [of ?p "upfs st"]) (use files dir in \<open>simp_all add: c\<close>)
  let ?d = "concat (map status_line (take (numcont st) (counter st)))"
  let ?fs = "(upfs st)\<lparr>inodes := (inodes (upfs st))(?t \<mapsto> n\<lparr>idata := ?d\<rparr>)\<rparr>"
  have "foldl (\<lambda>fs c. fs_append fs ?p (status_line c)) ((upfs st)\<lparr>inodes := (inodes (upfs st))(?t \<mapsto> n)\<rparr>)
      (take (numcont st) (counter st)) = ?fs"
    by (subst fs_append_lines [where n = n]) (simp_all add: c n(2) fun_upd_same del: fun_upd_apply)
  then have w: "upfs (write_status st) = fs_rename ?fs ?p ?q"
    unfolding write_status_def Let_def n(1) option.case by (simp del: fun_upd_apply)
  have "\<not> fs_isdir ?fs ?t" "\<not> fs_isdir ?fs ?u" "fs_isdir ?fs [''var'', ''sys'']"
    using files dir n(3) by (simp_all add: fs_isdir_def)
  then have "inodes (fs_rename ?fs ?p ?q) ?u = Some (n\<lparr>idata := ?d\<rparr>)"
    using files by (simp add: fs_rename_def c Let_def)
  then show ?thesis unfolding w by (simp add: fs_node_def c)
qed

end
