(* ===== verification/Login.thy ===== *)
theory Login
  imports FileSys LibString
begin

text \<open>
  The console of the appliance: the login program (\<^verbatim>\<open>v3.1/src/mybox/lib/login.c\<close>, \<open>init_lang.c\<close>) and the
  commands that \<^verbatim>\<open>lib/iosh.c\<close> adds to the command line shell, of which the library \<open>clish\<close> is not part of
  the sources.

  The record \<open>world\<close> is what the programs ask the outside for: what is typed at the \<open>k\<close>-th password prompt, the
  password entry then, \<open>crypt\<close>, the terminal, the message catalogue, the working directory that a \<open>chdir\<close> leads to and
  the results of commands. The
  record \<open>console\<close> is the state of the process, with the list of what it has done. \<open>None\<close> is a write
  outside of an array, or a NULL pointer followed.
\<close>

section \<open>State\<close>

record world =
  getpass :: "nat \<Rightarrow> string"
  pwnam :: "nat \<Rightarrow> string option"
  crypt :: "string \<Rightarrow> string \<Rightarrow> string"
  isatty :: bool
  ttyname :: "string option"
  gettext :: "string \<Rightarrow> string"
  chdir :: "string \<Rightarrow> string \<Rightarrow> string option"
  hostname :: string
  shell_rc :: "string \<Rightarrow> int"
  clish_rc :: bool
  heap_slack :: bool

datatype cevent =
    Banner | Info | Prt string | Syslg string | Slp nat | Title string
  | Exec "string list"  \<comment> \<open>\<open>/bin/sh\<close> with this environment\<close>
  | System string | Clish

record console =
  prompts :: nat
  events :: "cevent list"
  cfs :: fsys
  cwd :: string
  tty_login :: string
  cli_help :: string
  do_confirm :: int
  getenv :: "string \<Rightarrow> string option"

definition emit :: "cevent \<Rightarrow> console \<Rightarrow> console" where
  "emit ev st = st\<lparr>events := events st @ [ev]\<rparr>"

definition setenv :: "string \<Rightarrow> string \<Rightarrow> console \<Rightarrow> console" where
  "setenv x v st = st\<lparr>getenv := (getenv st)(x \<mapsto> v)\<rparr>"

definition NL :: string where "NL = [CHR 0x0A]"
definition CR :: string where "CR = [CHR 0x0D]"

definition fs_unlink :: "fsys \<Rightarrow> string \<Rightarrow> fsys" where
  "fs_unlink fs p =
     (if deny fs (comps p) \<or> fs_isdir fs (comps p) then fs else fs\<lparr>inodes := (inodes fs)(comps p := None)\<rparr>)"

definition unlink :: "string \<Rightarrow> console \<Rightarrow> console" where
  "unlink p st = st\<lparr>cfs := fs_unlink (cfs st) p\<rparr>"

section \<open>Logging and the language\<close>

definition log_login :: "string \<Rightarrow> string \<Rightarrow> console \<Rightarrow> console" where
  "log_login ecode stat st =
     emit (Syslg (snprintf_s 256
       (if getenv st ''ANYTERM_SHELL'' \<noteq> None
        then ''ECODE='' @ ecode @ '' TYPE=console USER=console IP='' @ tty_login st @ '' MSG=(webshell) '' @ stat
        else ''ECODE='' @ ecode @ '' TYPE=console USER=console IP='' @ tty_login st @ '' MSG='' @ stat))) st"

definition init_lang :: "console \<Rightarrow> (int \<times> console) option" where
  "init_lang st =
     (let st = st\<lparr>getenv := (getenv st)(''LANG'' := None), cli_help := []\<rparr> in
      case read_oneline (cfs st) ''/etc/lang/default'' of
        None \<Rightarrow> Some (0, st)
      | Some (n, buff) \<Rightarrow>
          (if n \<ge> 50 then None
           else if n < 0 then Some (0, st)
           else
             (let buff = trim buff in
              if buff \<noteq> [] then Some (1, (setenv ''LANG'' buff st)\<lparr>cli_help := buff\<rparr>) else Some (0, st))))"

section \<open>The password\<close>

definition password_prompt :: "world \<Rightarrow> console \<Rightarrow> int \<times> console" where
  "password_prompt w st =
     (let passwd = getpass w (prompts st);
          pw = pwnam w (prompts st);
          st = st\<lparr>prompts := prompts st + 1\<rparr>
      in if passwd = [] then (0, st)
         else if pw = None \<or> the pw = [] \<or> hd (the pw) = CHR ''!'' \<or> hd (the pw) = CHR ''*'' then
           (let st = emit (Prt (CR @ gettext w ''No password defined'' @ NL @ NL)) st
            in (0, log_login ''01'' (gettext w ''No password defined'') st))
         else
           (let salt = substr (the pw) 0 12; passcrypt = crypt w passwd salt in
            if the pw \<noteq> passcrypt then
              (let st = emit (Prt (CR @ gettext w ''Password incorrect'' @ NL @ NL)) st
               in (0, log_login ''01'' (gettext w ''Password incorrect'') st))
            else (1, st)))"

text \<open>The loop of \<open>login_main\<close>: whether it was left by its \<open>break\<close>.\<close>

partial_function (option) login_loop :: "world \<Rightarrow> int \<Rightarrow> console \<Rightarrow> (bool \<times> console) option" where
  "login_loop w count st =
     (let (r, st) = password_prompt w st in
      if r \<noteq> 0 then Some (True, log_login ''00'' (gettext w ''Password Accepted'') st)
      else if count = 3 then
        (let st = emit (Prt (gettext w ''Invalid access password'' @ NL @ NL)) st;
             st = log_login ''01'' (gettext w ''Invalid access password'') st
         in Some (False, emit (Slp 1) st))
      else login_loop w (count + 1) st)"

partial_function (option) awie_login_loop :: "world \<Rightarrow> int \<Rightarrow> console \<Rightarrow> (int \<times> console) option" where
  "awie_login_loop w count st =
     (let (r, st) = password_prompt w st in
      if r \<noteq> 0 then Some (0, emit (Prt (gettext w ''Password Accepted'' @ NL)) st)
      else if count = 3 then
        Some (1, emit (Slp 1) (emit (Prt (gettext w ''Invalid access password'' @ NL)) st))
      else awie_login_loop w (count + 1) st)"

definition awie_login :: "world \<Rightarrow> console \<Rightarrow> (int \<times> console) option" where
  "awie_login w st =
     awie_login_loop w 0 (emit (Prt (gettext w ''Please enter console password..'' @ NL @ NL)) st)"

section \<open>The shell\<close>

text \<open>
  The name of the terminal, cut to \<open>pts0\<close>; \<open>tty_login\<close> has 32 bytes, which \<open>strncpy\<close> does
  not terminate when they are too few.
\<close>

definition set_tty :: "world \<Rightarrow> console \<Rightarrow> console option" where
  "set_tty w st =
     (case ttyname w of
        None \<Rightarrow> Some st
      | Some tmp \<Rightarrow>
          (if length tmp \<ge> 32 then None
           else
             (let t = (if starts_with ''/dev/'' tmp then drop 5 tmp else tmp) in
              if starts_with ''pts/'' t then
                (case str_replace (heap_slack w) t ''pts/'' ''pts'' of
                   Some (Some tty) \<Rightarrow> Some (st\<lparr>tty_login := tty\<rparr>)
                 | _ \<Rightarrow> None)
              else Some (st\<lparr>tty_login := t\<rparr>))))"

definition xsystem :: "world \<Rightarrow> string \<Rightarrow> console \<Rightarrow> int \<times> console" where
  "xsystem w c st = (shell_rc w c, emit (System c) st)"

definition host_name :: "world \<Rightarrow> string option" where
  \<comment> \<open>the 40 bytes of \<open>host\<close>, up to the first dot; \<open>strtok\<close> has a result only if something else is there\<close>
  "host_name w =
     (let host = hostname w in
      if length host \<ge> 40 then None
      else if host = ''(none)'' then Some ''trace''
      else map_option fst (strtok ''.'' host))"

definition awie_banner :: "world \<Rightarrow> console \<Rightarrow> console option" where
  \<comment> \<open>the version text is \<open>Info\<close>; \<open>bv\<close> has 20 bytes\<close>
  "awie_banner w st =
     (if (case read_oneline (cfs st) ''/etc/firmware'' of None \<Rightarrow> False | Some (n, _) \<Rightarrow> n \<ge> 20) then None
      else Some (emit Info st))"

definition iosh_main :: "world \<Rightarrow> console \<Rightarrow> (int \<times> console) option" where
  "iosh_main w st =
     (case init_lang st of
        None \<Rightarrow> None
      | Some (_, st) \<Rightarrow>
          (if tty_login st = [] \<and> \<not> isatty w then Some (1, st)
           else
             (case (if tty_login st = [] then set_tty w st else Some st) of
                None \<Rightarrow> None
              | Some st \<Rightarrow>
                  (let ssl = (getenv st ''SSH_TTY'' \<noteq> None \<and> getenv st ''ANYTERM_SHELL'' = None);
                       st = (if ssl then emit (Prt NL) (emit Banner (st\<lparr>do_confirm := 1\<rparr>))
                             else if getenv st ''ANYTERM_SHELL'' \<noteq> None then st\<lparr>do_confirm := 1\<rparr> else st)
                   in case host_name w of
                        None \<Rightarrow> None
                      | Some host \<Rightarrow>
                          (let st = setenv ''SYSTEM_NAME'' host st;
                               st = setenv ''PATH'' ''/bin:/service/init:/service/tools'' st;
                               st = setenv ''CLISH_PATH'' ''/etc/clish'' st;
                               st = emit (Title (if ssl then ''iosh SSL'' else ''iosh console'')) st
                           in case awie_banner w st of
                                None \<Rightarrow> None
                              | Some st \<Rightarrow>
                                  (let st = (if \<not> file_exists (cfs st) ''/etc/clish/sysexec.xml'' \<and>
                                                file_exists (cfs st) ''/etc/clish/sysexec.cli''
                                             then snd (xsystem w ''/bin/cp -f /etc/clish/sysexec.cli /etc/clish/sysexec.xml'' st)
                                             else st);
                                       st = (case chdir w (cwd st) ''/config'' of None \<Rightarrow> st | Some d \<Rightarrow> st\<lparr>cwd := d\<rparr>);
                                       st = emit Clish st
                                   in Some (if clish_rc w then 0 else 1, st)))))))"

datatype login_result = Return int console | Exited int console

definition login_main :: "world \<Rightarrow> console \<Rightarrow> login_result option" where
  "login_main w st =
     (case init_lang st of
        None \<Rightarrow> None
      | Some (_, st) \<Rightarrow>
          (let st = emit (Prt NL) (emit Banner st) in
           if \<not> isatty w then Some (Return 1 st)
           else
             (case set_tty w st of
                None \<Rightarrow> None
              | Some st \<Rightarrow>
                  (let st = emit (Title ''login               '') st in
                   case
                     (if \<not> file_exists (cfs st) ''/etc/noconsole'' \<and> \<not> file_exists (cfs st) ''/var/sys/do_single''
                      then login_loop w 0 st
                      else
                        (let st = emit (Prt (gettext w ''Console password disabled'' @ NL)) st;
                             st = log_login ''00'' (gettext w ''Console password disabled'') st;
                             st = emit (Slp 1) st
                         in Some (True, unlink ''/etc/noconsole'' st)))
                   of None \<Rightarrow> None
                    | Some (False, st) \<Rightarrow> Some (Return 1 st)
                    | Some (True, st) \<Rightarrow>
                        (case iosh_main w st of None \<Rightarrow> None | Some (_, st) \<Rightarrow> Some (Exited 0 st))))))"

section \<open>Commands of the shell\<close>

definition or_null :: "string option \<Rightarrow> string" where
  \<comment> \<open>what \<open>%s\<close> prints for a NULL pointer\<close>
  "or_null s = (case s of None \<Rightarrow> ''(null)'' | Some s \<Rightarrow> s)"

definition run_shell :: "world \<Rightarrow> console \<Rightarrow> console" where
  "run_shell w st =
     (let term = snprintf_s 50 (''TERM='' @ (case getenv st ''TERM'' of None \<Rightarrow> ''linux'' | Some t \<Rightarrow> t));
          ssh_client = snprintf_s 150 (''SSH_CLIENT='' @ or_null (getenv st ''SSH_CLIENT''));
          ssh_connection = snprintf_s 150 (''SSH_CONNECTION='' @ or_null (getenv st ''SSH_CONNECTION''));
          ssh_tty = snprintf_s 50 (''SSH_TTY='' @ or_null (getenv st ''SSH_TTY''));
          st = (case chdir w (cwd st) ''/config'' of None \<Rightarrow> st | Some d \<Rightarrow> st\<lparr>cwd := d\<rparr>)
      in emit (Exec [''HOME=/config'', term, ''PATH=/bin:/service/tools:/service/init'', ''INPUTRC=/etc/inputrc'',
           ''PS1='' @ [CHR 0x5C] @ ''h:'' @ [CHR 0x5C] @ ''W> '', ''USER=sys'', ''SHELL=/bin/sh'',
           ssh_client, ssh_connection, ssh_tty]) st)"

text \<open>\<open>log_sysexec\<close> cuts \<open>SSH_CLIENT\<close> in the environment itself, where \<open>strtok\<close> writes its NUL.\<close>

definition log_sysexec :: "string \<Rightarrow> console \<Rightarrow> console" where
  "log_sysexec stat st =
     (let line = (\<lambda>ip. emit (Syslg (snprintf_s 256 (''ECODE=00 TYPE=sysexec USER=console IP='' @ ip @ '' MSG='' @ stat)))) in
      case getenv st ''SSH_CLIENT'' of
        None \<Rightarrow> line (tty_login st) st
      | Some s \<Rightarrow>
          (case strtok '' '' s of
             None \<Rightarrow> line (tty_login st) st
           | Some (ip, _) \<Rightarrow> line ip (setenv ''SSH_CLIENT'' (takeWhile (\<lambda>c. c = CHR '' '') s @ ip) st)))"

definition awie_shell :: "world \<Rightarrow> console \<Rightarrow> (bool \<times> console) option" where
  "awie_shell w st =
     (case (if do_confirm st = 1 then awie_login w st else Some (0, st)) of
        None \<Rightarrow> None
      | Some (r, st) \<Rightarrow>
          Some
            (if r \<noteq> 0 then (False, st)
             else
               (let st = emit (Prt (gettext w ''Entering system shell'' @ ''!'' @ NL @ NL)) st;
                    st = log_sysexec (gettext w ''Entering system shell'') st
                in (True, run_shell w st))))"

definition awie_close :: "world \<Rightarrow> console \<Rightarrow> login_result" where
  "awie_close w st =
     (let st = (if tty_login st \<noteq> [] \<and> strstr (tty_login st) ''pts'' = None \<and> strstr (tty_login st) ''ttyp'' = None
                then log_login ''01'' (gettext w ''Session logout'') st else st);
          st = (if file_exists (cfs st) ''/etc/clish/sysexec.xml'' then unlink ''/etc/clish/sysexec.xml'' st else st)
      in Exited 1 st)"

definition awie_version :: "world \<Rightarrow> console \<Rightarrow> int \<times> console" where
  "awie_version w st =
     (if file_exists (cfs st) ''/bin/exec_cli'' then xsystem w ''/bin/exec_cli version 2>/dev/null'' st else (1, st))"

definition awie_more :: "world \<Rightarrow> string \<Rightarrow> console \<Rightarrow> int \<times> console" where
  "awie_more w filename st =
     (let (result, st) =
        (if file_exists (cfs st) filename then
           (if strstr filename ''.gz'' \<noteq> None then xsystem w (''/bin/zcat '' @ filename @ '' |more -dl'') st
            else xsystem w (''/bin/more -dl '' @ filename) st)
         else (1, st))
      in (if result \<noteq> 0 then 0 else 1, st))"

definition awie_help :: "world \<Rightarrow> console \<Rightarrow> int \<times> console" where
  "awie_help w st =
     (if cli_help st \<noteq> [] \<and> file_exists (cfs st) (''/etc/clish/cli.help.'' @ cli_help st) then
        xsystem w (''/bin/more -dl /etc/clish/cli.help.'' @ cli_help st) st
      else if file_exists (cfs st) ''/etc/clish/cli.help'' then xsystem w ''/bin/more -dl /etc/clish/cli.help'' st
      else (1, st))"

definition awie_exec_pass :: "world \<Rightarrow> string \<Rightarrow> string \<Rightarrow> console \<Rightarrow> (int \<times> console) option" where
  "awie_exec_pass w cmd opt st =
     (if \<not> file_exists (cfs st) cmd then Some (0, st)
      else
        (case (if do_confirm st = 1 then awie_login w st else Some (0, st)) of
           None \<Rightarrow> None
         | Some (r, st) \<Rightarrow>
             Some (if r \<noteq> 0 then (0, st)
                   else (let (result, st) = xsystem w (cmd @ '' '' @ opt) st in (if result \<noteq> 0 then 0 else 1, st)))))"

definition awie_confirm :: "world \<Rightarrow> string option \<Rightarrow> console \<Rightarrow> (bool \<times> console) option" where
  "awie_confirm w arg st =
     (case (if do_confirm st = 1 then awie_login w st else Some (0, st)) of
        None \<Rightarrow> None
      | Some (r, st) \<Rightarrow>
          Some (if r \<noteq> 0 then (False, st)
                else (True, case arg of None \<Rightarrow> st | Some a \<Rightarrow> emit (Prt (NL @ a @ NL @ NL)) st)))"

section \<open>The storage directory\<close>

definition awie_vstorage_dochdir :: "world \<Rightarrow> string \<Rightarrow> console \<Rightarrow> int \<times> console" where
  "awie_vstorage_dochdir w dir st =
     (case chdir w (cwd st) dir of
        None \<Rightarrow> (0, st)
      | Some d \<Rightarrow>
          (let st = st\<lparr>cwd := d\<rparr>; pt = cwd st in
           if \<not> strncmp0 pt ''/config'' 7 then (0, st) else (1, st)))"

definition awie_vstorage_chdir :: "world \<Rightarrow> string \<Rightarrow> console \<Rightarrow> (int \<times> console) option" where
  "awie_vstorage_chdir w dirname st =
     (let (chk, st) = awie_vstorage_dochdir w (''/config/'' @ dirname) st;
          (chk, st) = (if chk = 0 then awie_vstorage_dochdir w dirname st else (chk, st))
      in if chk = 0 then
           Some (0, emit (Prt (gettext w ''Invalid directory'' @ '' '' @ [CHR 0x27] @ dirname @ [CHR 0x27] @ NL)) st)
         else
           (case str_replace (heap_slack w) (cwd st) ''/config'' [] of
              None \<Rightarrow> None
            | Some pp \<Rightarrow>
                (let shown = (case pp of None \<Rightarrow> dirname | Some p \<Rightarrow> if p \<noteq> [] then p else dirname)
                 in Some (1, emit (Prt (gettext w ''Change to'' @ '' '' @ [CHR 0x27] @ shown @ [CHR 0x27] @ NL)) st))))"

definition awie_vstorage_pwd :: "world \<Rightarrow> console \<Rightarrow> console option" where
  "awie_vstorage_pwd w st =
     (case str_replace (heap_slack w) (cwd st) ''/config'' [] of
        None \<Rightarrow> None
      | Some pp \<Rightarrow>
          Some (emit (Prt (case pp of None \<Rightarrow> ''/'' @ NL | Some p \<Rightarrow> if p \<noteq> [] then p @ NL else ''/'' @ NL)) st))"

section \<open>What a prompt does\<close>

definition opens :: "world \<Rightarrow> nat \<Rightarrow> bool" where
  \<comment> \<open>the password typed at prompt \<open>k\<close> is the right one\<close>
  "opens w k \<longleftrightarrow>
     getpass w k \<noteq> [] \<and>
     (case pwnam w k of
        None \<Rightarrow> False
      | Some pw \<Rightarrow>
          pw \<noteq> [] \<and> hd pw \<notin> {CHR ''!'', CHR ''*''} \<and> crypt w (getpass w k) (take 12 pw) = pw)"

fun runs :: "cevent \<Rightarrow> bool" where
  "runs (Exec _) = True"
| "runs (System _) = True"
| "runs Clish = True"
| "runs _ = False"

text \<open>From \<open>st\<close> to \<open>st'\<close> the process only talked: nothing was run and nothing else changed.\<close>

definition talks :: "console \<Rightarrow> console \<Rightarrow> bool" where
  "talks st st' \<longleftrightarrow>
     cfs st' = cfs st \<and> cwd st' = cwd st \<and> tty_login st' = tty_login st \<and> cli_help st' = cli_help st \<and>
     do_confirm st' = do_confirm st \<and> getenv st' = getenv st \<and>
     (\<exists>t. events st' = events st @ t \<and> (\<forall>ev \<in> set t. \<not> runs ev))"

lemma talks_refl [intro, simp]: "talks st st"
  by (simp add: talks_def)

lemma talks_trans: "talks a b \<Longrightarrow> talks b c \<Longrightarrow> talks a c"
  unfolding talks_def by fastforce

lemma emit_sel [simp]:
  "prompts (emit ev st) = prompts st" "cfs (emit ev st) = cfs st" "cwd (emit ev st) = cwd st"
  "tty_login (emit ev st) = tty_login st" "cli_help (emit ev st) = cli_help st"
  "do_confirm (emit ev st) = do_confirm st" "getenv (emit ev st) = getenv st"
  "events (emit ev st) = events st @ [ev]"
  by (simp_all add: emit_def)

lemma setenv_sel [simp]:
  "prompts (setenv x v st) = prompts st" "cfs (setenv x v st) = cfs st" "cwd (setenv x v st) = cwd st"
  "tty_login (setenv x v st) = tty_login st" "cli_help (setenv x v st) = cli_help st"
  "do_confirm (setenv x v st) = do_confirm st" "events (setenv x v st) = events st"
  by (simp_all add: setenv_def)

lemma unlink_sel [simp]:
  "prompts (unlink p st) = prompts st" "tty_login (unlink p st) = tty_login st" "events (unlink p st) = events st"
  "cfs (unlink p st) = fs_unlink (cfs st) p"
  by (simp_all add: unlink_def)

lemma talks_emit: "talks st st' \<Longrightarrow> \<not> runs ev \<Longrightarrow> talks st (emit ev st')"
  unfolding talks_def by auto

lemma talks_log: "talks st st' \<Longrightarrow> talks st (log_login c m st')"
  unfolding log_login_def by (rule talks_emit) simp_all

lemma prompts_log [simp]: "prompts (log_login c m st) = prompts st"
  by (simp add: log_login_def)

lemma talks_prompts: "talks st (st\<lparr>prompts := n\<rparr>)"
  by (simp add: talks_def)

lemma substr_salt: "substr s 0 12 = take 12 s"
  by (cases s) (auto simp: substr_def Let_def)

lemma password_prompt_spec:
  "fst (password_prompt w st) = (if opens w (prompts st) then 1 else 0)"
  "prompts (snd (password_prompt w st)) = prompts st + 1"
  "talks st (snd (password_prompt w st))"
proof -
  show "fst (password_prompt w st) = (if opens w (prompts st) then 1 else 0)"
    by (auto simp: password_prompt_def opens_def Let_def substr_salt split: option.splits)
  show "prompts (snd (password_prompt w st)) = prompts st + 1"
    by (simp add: password_prompt_def Let_def)
  show "talks st (snd (password_prompt w st))"
    by (auto simp: password_prompt_def Let_def intro!: talks_log talks_emit talks_prompts)
qed

text \<open>The two loops, from the count \<open>3 - d\<close> on, that is with \<open>d + 1\<close> prompts left.\<close>

lemma tries_Suc: "(\<exists>k \<le> Suc d. P (n + k)) \<longleftrightarrow> P n \<or> (\<exists>k \<le> d. P (n + 1 + k :: nat))"
proof
  assume "\<exists>k \<le> Suc d. P (n + k)"
  then obtain k where k: "k \<le> Suc d" "P (n + k)" by blast
  show "P n \<or> (\<exists>k \<le> d. P (n + 1 + k))"
  proof (cases k)
    case (Suc j)
    with k have "j \<le> d" "P (n + 1 + j)" by simp_all
    then show ?thesis by blast
  qed (use k in simp)
next
  assume "P n \<or> (\<exists>k \<le> d. P (n + 1 + k))"
  then show "\<exists>k \<le> Suc d. P (n + k)"
  proof
    assume "P n" then show ?thesis by (intro exI [of _ 0]) simp
  next
    assume "\<exists>k \<le> d. P (n + 1 + k)"
    then obtain k where "k \<le> d" "P (n + Suc k)" by auto
    then show ?thesis by (intro exI [of _ "Suc k"]) simp
  qed
qed

lemma login_loop_ends:
  "\<exists>st'. login_loop w (3 - int d) st = Some (\<exists>k \<le> d. opens w (prompts st + k), st') \<and>
     prompts st' \<le> prompts st + d + 1 \<and> talks st st'"
proof (induction d arbitrary: st)
  case 0
  obtain r s where rs: "password_prompt w st = (r, s)" by fastforce
  with password_prompt_spec [where w = w and st = st]
  have p: "r = (if opens w (prompts st) then 1 else 0)" "prompts s = prompts st + 1" "talks st s" by auto
  show ?case
    by (subst login_loop.simps) (use p in \<open>auto simp: rs Let_def intro!: talks_log talks_emit\<close>)
next
  case (Suc d)
  obtain r s where rs: "password_prompt w st = (r, s)" by fastforce
  with password_prompt_spec [where w = w and st = st]
  have p: "r = (if opens w (prompts st) then 1 else 0)" "prompts s = prompts st + 1" "talks st s" by auto
  note two = tries_Suc [of d "opens w" "prompts st"]
  show ?case
  proof (cases "opens w (prompts st)")
    case True
    then have "\<exists>k \<le> Suc d. opens w (prompts st + k)" using two by blast
    with True show ?thesis
      by (subst login_loop.simps) (use p in \<open>auto simp: rs Let_def intro!: talks_log\<close>)
  next
    case False
    obtain st' where st': "login_loop w (3 - int d) s = Some (\<exists>k \<le> d. opens w (prompts s + k), st')"
      "prompts st' \<le> prompts s + d + 1" "talks s st'" using Suc.IH by blast
    have "login_loop w (3 - int (Suc d)) st = login_loop w (3 - int d) s"
      by (subst login_loop.simps) (use False p in \<open>simp add: rs Let_def\<close>)
    with st' False two p talks_trans [OF p(3) st'(3)] show ?thesis by (simp add: add.assoc)
  qed
qed

lemma awie_login_loop_ends:
  "\<exists>st'. awie_login_loop w (3 - int d) st = Some (if \<exists>k \<le> d. opens w (prompts st + k) then 0 else 1, st') \<and>
     prompts st' \<le> prompts st + d + 1 \<and> talks st st'"
proof (induction d arbitrary: st)
  case 0
  obtain r s where rs: "password_prompt w st = (r, s)" by fastforce
  with password_prompt_spec [where w = w and st = st]
  have p: "r = (if opens w (prompts st) then 1 else 0)" "prompts s = prompts st + 1" "talks st s" by auto
  show ?case
    by (subst awie_login_loop.simps) (use p in \<open>auto simp: rs Let_def intro!: talks_emit\<close>)
next
  case (Suc d)
  obtain r s where rs: "password_prompt w st = (r, s)" by fastforce
  with password_prompt_spec [where w = w and st = st]
  have p: "r = (if opens w (prompts st) then 1 else 0)" "prompts s = prompts st + 1" "talks st s" by auto
  note two = tries_Suc [of d "opens w" "prompts st"]
  show ?case
  proof (cases "opens w (prompts st)")
    case True
    then have "\<exists>k \<le> Suc d. opens w (prompts st + k)" using two by blast
    with True show ?thesis
      by (subst awie_login_loop.simps) (use p in \<open>auto simp: rs Let_def intro!: talks_emit\<close>)
  next
    case False
    obtain st' where st': "awie_login_loop w (3 - int d) s = Some (if \<exists>k \<le> d. opens w (prompts s + k) then 0 else 1, st')"
      "prompts st' \<le> prompts s + d + 1" "talks s st'" using Suc.IH by blast
    have "awie_login_loop w (3 - int (Suc d)) st = awie_login_loop w (3 - int d) s"
      by (subst awie_login_loop.simps) (use False p in \<open>simp add: rs Let_def\<close>)
    with st' False two p talks_trans [OF p(3) st'(3)] show ?thesis by (simp add: add.assoc)
  qed
qed

section \<open>Logging in\<close>

text \<open>The hypotheses of a run without a memory error: the files and names fit the arrays.\<close>

definition files_fit :: "fsys \<Rightarrow> bool" where
  "files_fit fs \<longleftrightarrow>
     (case read_oneline fs ''/etc/lang/default'' of None \<Rightarrow> True | Some (n, _) \<Rightarrow> n < 50) \<and>
     (case read_oneline fs ''/etc/firmware'' of None \<Rightarrow> True | Some (n, _) \<Rightarrow> n < 20)"

definition names_fit :: "world \<Rightarrow> bool" where
  "names_fit w \<longleftrightarrow> (case ttyname w of None \<Rightarrow> True | Some t \<Rightarrow> length t < 32) \<and> host_name w \<noteq> None"

lemma init_lang_total:
  assumes "files_fit (cfs st)"
  shows "\<exists>v st'. init_lang st = Some (v, st') \<and> prompts st' = prompts st \<and> cfs st' = cfs st \<and>
    tty_login st' = tty_login st \<and> events st' = events st \<and> cwd st' = cwd st"
proof (cases "read_oneline (cfs st) ''/etc/lang/default''")
  case None
  then show ?thesis by (simp add: init_lang_def)
next
  case (Some nb)
  obtain n b where nb: "nb = (n, b)" by fastforce
  with Some assms have "n < 50" by (simp add: files_fit_def)
  with Some nb show ?thesis by (simp add: init_lang_def Let_def)
qed

lemma set_tty_total:
  assumes "names_fit w"
  shows "\<exists>t. set_tty w st = Some (st\<lparr>tty_login := t\<rparr>)"
proof (cases "ttyname w")
  case None
  then have "set_tty w st = Some (st\<lparr>tty_login := tty_login st\<rparr>)" by (simp add: set_tty_def)
  then show ?thesis by blast
next
  case (Some tmp)
  with assms have "\<not> length tmp \<ge> 32" by (simp add: names_fit_def)
  moreover have "strstr t ''pts/'' = Some 0" if "starts_with ''pts/'' t" for t
    using that by (cases t) (simp_all add: starts_with_def)
  ultimately show ?thesis using Some by (auto simp: set_tty_def Let_def str_replace_spec)
qed

text \<open>Steps that leave the prompts and the files alone and only add events.\<close>

definition adds :: "console \<Rightarrow> console \<Rightarrow> bool" where
  "adds st st' \<longleftrightarrow> prompts st' = prompts st \<and> cfs st' = cfs st \<and> (\<exists>t. events st' = events st @ t)"

lemma adds_intros:
  "adds st st"
  "adds st st' \<Longrightarrow> adds st (emit ev st')"
  "adds st st' \<Longrightarrow> adds st (setenv x v st')"
  "adds st st' \<Longrightarrow> adds st (snd (xsystem w c st'))"
  "adds st st' \<Longrightarrow> adds st (st'\<lparr>do_confirm := i\<rparr>)"
  "adds st st' \<Longrightarrow> adds st (case chdir w d p of None \<Rightarrow> st' | Some d \<Rightarrow> st'\<lparr>cwd := d\<rparr>)"
  "adds st s1 \<Longrightarrow> adds st s2 \<Longrightarrow> adds st (if b then s1 else s2)"
  by (auto simp: adds_def xsystem_def split: option.split)

lemma iosh_main_total:
  assumes "files_fit (cfs st)" "names_fit w" "isatty w"
  shows "\<exists>v st'. iosh_main w st = Some (v, st') \<and> prompts st' = prompts st \<and> cfs st' = cfs st \<and>
    (\<exists>t. events st' = events st @ t \<and> Clish \<in> set t)"
proof -
  obtain v s where s: "init_lang st = Some (v, s)" "prompts s = prompts st" "cfs s = cfs st" "events s = events st"
    using init_lang_total [OF assms(1)] by blast
  obtain t where t: "set_tty w s = Some (s\<lparr>tty_login := t\<rparr>)" using set_tty_total [OF assms(2)] by blast
  obtain h where h: "host_name w = Some h" using assms(2) by (auto simp: names_fit_def)
  let ?s1 = "if tty_login s = [] then s\<lparr>tty_login := t\<rparr> else s"
  have 1: "(if tty_login s = [] then set_tty w s else Some s) = Some ?s1" using t by simp
  have sel: "prompts ?s1 = prompts st" "cfs ?s1 = cfs st" "events ?s1 = events st" using s by simp_all
  have banner: "awie_banner w s' = Some (emit Info s')" if "cfs s' = cfs st" for s'
    using that assms(1) by (auto simp: awie_banner_def files_fit_def split: option.splits)
  have "\<exists>st'. adds ?s1 st' \<and> iosh_main w st = Some (if clish_rc w then 0 else 1, emit Clish st')"
    unfolding iosh_main_def s(1) option.case prod.case Let_def 1 h
    by (subst banner, use s(3) in simp,
        use assms(3) in \<open>simp only: option.case if_False simp_thms\<close>,
        rule exI, rule conjI, rule_tac [2] refl, intro adds_intros)
  then obtain st' where st': "adds ?s1 st'" "iosh_main w st = Some (if clish_rc w then 0 else 1, emit Clish st')" by blast
  then obtain x where "events st' = events st @ x" "prompts st' = prompts st" "cfs st' = cfs st"
    unfolding adds_def sel by blast
  with st'(2) show ?thesis by (intro exI [of _ "emit Clish st'"] exI conjI) (auto intro: exI [of _ "x @ [Clish]"])
qed

text \<open>Whether the console is open without a password.\<close>

definition console_free :: "fsys \<Rightarrow> bool" where
  "console_free fs \<longleftrightarrow> file_exists fs ''/etc/noconsole'' \<or> file_exists fs ''/var/sys/do_single''"

fun final :: "login_result \<Rightarrow> console" where
  "final (Return _ st) = st"
| "final (Exited _ st) = st"

lemma lt4: "(\<exists>k < 4. P (n + k)) \<longleftrightarrow> (\<exists>k \<le> (3::nat). P (n + k :: nat))"
proof -
  have "k < 4 \<longleftrightarrow> k \<le> 3" for k :: nat by auto
  then show ?thesis by simp
qed

lemma fs_unlink_keeps: "p \<noteq> q \<Longrightarrow> comps p = P \<Longrightarrow> comps q = Q \<Longrightarrow> P \<noteq> Q \<Longrightarrow> fs_node (fs_unlink fs p) q = fs_node fs q"
  by (simp add: fs_node_def fs_unlink_def)

lemma files_fit_unlink: "files_fit (fs_unlink fs ''/etc/noconsole'') \<longleftrightarrow> files_fit fs"
proof -
  have "read_oneline (fs_unlink fs ''/etc/noconsole'') ''/etc/lang/default'' = read_oneline fs ''/etc/lang/default''"
    "read_oneline (fs_unlink fs ''/etc/noconsole'') ''/etc/firmware'' = read_oneline fs ''/etc/firmware''"
    by (simp_all add: read_oneline_def fs_node_def fs_unlink_def comps_def split: option.split)
  then show ?thesis by (simp add: files_fit_def)
qed

lemma talks_events:
  "talks a b \<Longrightarrow> events a = e @ l0 \<Longrightarrow> Clish \<notin> set l0 \<Longrightarrow> \<exists>l. events b = e @ l \<and> Clish \<notin> set l"
  unfolding talks_def by fastforce

lemma login_main_ends:
  assumes fit: "files_fit (cfs st)" "names_fit w"
  shows "\<exists>r t. login_main w st = Some r \<and> events (final r) = events st @ t \<and>
     (Clish \<in> set t \<longleftrightarrow> isatty w \<and> (console_free (cfs st) \<or> (\<exists>k < 4. opens w (prompts st + k)))) \<and>
     prompts (final r) \<le> prompts st + (if console_free (cfs st) then 0 else 4) \<and>
     cfs (final r) = (if isatty w \<and> console_free (cfs st) then fs_unlink (cfs st) ''/etc/noconsole'' else cfs st)"
proof -
  obtain v s where s: "init_lang st = Some (v, s)" "prompts s = prompts st" "cfs s = cfs st" "events s = events st"
    using init_lang_total [OF fit(1)] by blast
  let ?s1 = "emit (Prt NL) (emit Banner s)"
  show ?thesis
  proof (cases "isatty w")
    case False
    have "login_main w st = Some (Return 1 ?s1)" using s False by (simp add: login_main_def)
    with s False show ?thesis by (intro exI [of _ "Return 1 ?s1"]) simp
  next
    case tty: True
    obtain t where t: "set_tty w ?s1 = Some (?s1\<lparr>tty_login := t\<rparr>)" using set_tty_total [OF fit(2)] by blast
    let ?s2 = "emit (Title ''login               '') (?s1\<lparr>tty_login := t\<rparr>)"
    have s2: "prompts ?s2 = prompts st" "cfs ?s2 = cfs st" using s by simp_all
    have e2: "\<exists>l. events s' = events st @ l \<and> Clish \<notin> set l" if "talks ?s2 s'" for s'
      by (rule talks_events [OF that, of _ "[Banner, Prt NL, Title ''login               '']"]) (simp_all add: s(4))
    show ?thesis
    proof (cases "console_free (cfs st)")
      case True
      let ?s3 = "emit (Slp 1) (log_login ''00'' (gettext w ''Console password disabled'')
        (emit (Prt (gettext w ''Console password disabled'' @ NL)) ?s2))"
      let ?s4 = "unlink ''/etc/noconsole'' ?s3"
      have "talks ?s2 ?s3" by (intro talks_emit talks_log talks_refl) simp_all
      then obtain l where s3: "events ?s3 = events st @ l" using e2 by blast
      have s4: "cfs ?s4 = fs_unlink (cfs st) ''/etc/noconsole''" "events ?s4 = events st @ l" "prompts ?s4 = prompts st"
        using s3 s2 by (simp_all add: log_login_def)
      then have "files_fit (cfs ?s4)" using fit(1) files_fit_unlink by simp
      from iosh_main_total [OF this fit(2) tty] obtain u s5 x where s5:
        "iosh_main w ?s4 = Some (u, s5)" "prompts s5 = prompts st" "cfs s5 = fs_unlink (cfs st) ''/etc/noconsole''"
        "events s5 = (events st @ l) @ x" "Clish \<in> set x" unfolding s4 by blast
      have "login_main w st = Some (Exited 0 s5)"
        using s(1) tty t True s5(1) s2(2) by (auto simp: login_main_def Let_def console_free_def)
      with s5 True tty show ?thesis by (intro exI [of _ "Exited 0 s5"] exI [of _ "l @ x"]) simp
    next
      case False
      obtain st' where lp: "login_loop w 0 ?s2 = Some (\<exists>k \<le> 3. opens w (prompts st + k), st')"
        "prompts st' \<le> prompts st + 4" "talks ?s2 st'"
        using login_loop_ends [of w 3 ?s2] s2 by auto
      obtain l where l: "events st' = events st @ l" "Clish \<notin> set l" using e2 [OF lp(3)] by blast
      have fs': "cfs st' = cfs st" using lp(3) s2 by (simp add: talks_def)
      have nf: "\<not> file_exists (cfs st) ''/etc/noconsole'' \<and> \<not> file_exists (cfs st) ''/var/sys/do_single''"
        using False by (simp add: console_free_def)
      show ?thesis
      proof (cases "\<exists>k < 4. opens w (prompts st + k)")
        case True
        then have "\<exists>k \<le> 3. opens w (prompts st + k)" by (simp only: lt4)
        with lp(1) have ll: "login_loop w 0 ?s2 = Some (True, st')" by simp
        from iosh_main_total [of st' w] l fs' fit tty obtain u s5 x where s5:
          "iosh_main w st' = Some (u, s5)" "prompts s5 = prompts st'" "cfs s5 = cfs st"
          "events s5 = events st @ l @ x" "Clish \<in> set x" by auto
        have "login_main w st = Some (Exited 0 s5)"
          using s(1) tty t nf ll s5(1) s2(2) by (simp add: login_main_def Let_def)
        with s5 True False tty lp(2) show ?thesis by (intro exI [of _ "Exited 0 s5"] exI [of _ "l @ x"]) simp
      next
        case no: False
        then have "\<not> (\<exists>k \<le> 3. opens w (prompts st + k))" unfolding lt4 .
        with lp(1) have ll: "login_loop w 0 ?s2 = Some (False, st')" by simp
        have "login_main w st = Some (Return 1 st')"
          using s(1) tty t nf ll s2(2) by (simp add: login_main_def Let_def)
        with l fs' no False tty lp(2) show ?thesis by (intro exI [of _ "Return 1 st'"] exI [of _ l]) simp
      qed
    qed
  qed
qed

section \<open>The guarded commands\<close>

lemma awie_login_ends:
  "\<exists>st'. awie_login w st = Some (if \<exists>k < 4. opens w (prompts st + k) then 0 else 1, st') \<and> talks st st'"
proof -
  let ?s = "emit (Prt (gettext w ''Please enter console password..'' @ NL @ NL)) st"
  have "talks st ?s" by (intro talks_emit talks_refl) simp
  moreover obtain st' where "awie_login_loop w (3 - int 3) ?s = Some (if \<exists>k \<le> 3. opens w (prompts ?s + k) then 0 else 1, st')"
    "talks ?s st'" using awie_login_loop_ends [of w 3 ?s] by blast
  ultimately show ?thesis unfolding awie_login_def lt4 using talks_trans by (intro exI [of _ st'] conjI) simp_all
qed

definition permitted :: "world \<Rightarrow> console \<Rightarrow> bool" where
  "permitted w st \<longleftrightarrow> do_confirm st \<noteq> 1 \<or> (\<exists>k < 4. opens w (prompts st + k))"

lemma confirmed:
  "\<exists>st'. (if do_confirm st = 1 then awie_login w st else Some (0, st)) = Some (if permitted w st then 0 else 1, st') \<and> talks st st'"
  using awie_login_ends [of w st] by (auto simp: permitted_def)

text \<open>Whether something was run between the two states.\<close>

definition ran :: "console \<Rightarrow> console \<Rightarrow> bool" where
  "ran st st' \<longleftrightarrow> (\<exists>t. events st' = events st @ t \<and> (\<exists>ev \<in> set t. runs ev))"

lemma not_ran: "talks st st' \<Longrightarrow> \<not> ran st st'"
  unfolding talks_def ran_def by auto

lemma ran_emit: "talks st s \<Longrightarrow> events s' = events s @ l \<Longrightarrow> runs (last l) \<Longrightarrow> l \<noteq> [] \<Longrightarrow> ran st s'"
  unfolding talks_def ran_def by (metis (no_types, lifting) append.assoc in_set_conv_decomp last_in_set set_append Un_iff)

lemma awie_shell_ends:
  "\<exists>st'. awie_shell w st = Some (permitted w st, st') \<and> (ran st st' \<longleftrightarrow> permitted w st)"
proof -
  obtain s where s: "(if do_confirm st = 1 then awie_login w st else Some (0, st)) = Some (if permitted w st then 0 else 1, s)"
    "talks st s" using confirmed by blast
  show ?thesis
  proof (cases "permitted w st")
    case False
    with s not_ran [OF s(2)] show ?thesis by (simp add: awie_shell_def)
  next
    case True
    let ?s1 = "emit (Prt (gettext w ''Entering system shell'' @ ''!'' @ NL @ NL)) s"
    let ?s2 = "log_sysexec (gettext w ''Entering system shell'') ?s1"
    have "\<exists>m. events ?s2 = events s @ m"
      by (auto simp: log_sysexec_def Let_def split: option.split)
    then obtain m where m: "events ?s2 = events s @ m" ..
    have "\<exists>x. events (run_shell w ?s2) = events ?s2 @ [Exec x]"
      by (auto simp: run_shell_def Let_def split: option.split)
    then obtain x where "events (run_shell w ?s2) = events s @ (m @ [Exec x])" using m by auto
    then have "ran st (run_shell w ?s2)" by (rule ran_emit [OF s(2)]) simp_all
    with True s show ?thesis by (simp add: awie_shell_def Let_def)
  qed
qed

lemma awie_exec_pass_ends:
  "\<exists>v st'. awie_exec_pass w cmd opt st = Some (v, st') \<and>
     (ran st st' \<longleftrightarrow> file_exists (cfs st) cmd \<and> permitted w st)"
proof (cases "file_exists (cfs st) cmd")
  case False
  then show ?thesis using not_ran [of st st] by (simp add: awie_exec_pass_def)
next
  case True
  obtain s where s: "(if do_confirm st = 1 then awie_login w st else Some (0, st)) = Some (if permitted w st then 0 else 1, s)"
    "talks st s" using confirmed by blast
  show ?thesis
  proof (cases "permitted w st")
    case False
    with True s not_ran [OF s(2)] show ?thesis by (simp add: awie_exec_pass_def)
  next
    case ok: True
    have "ran st (emit (System (cmd @ '' '' @ opt)) s)"
      by (rule ran_emit [OF s(2), of _ "[System (cmd @ '' '' @ opt)]"]) simp_all
    with True ok s show ?thesis by (simp add: awie_exec_pass_def xsystem_def Let_def)
  qed
qed

section \<open>The properties\<close>


text \<open>An example: \<open>crypt\<close> keeps the salt and appends the password, the right one is typed at the second prompt.\<close>

definition ex_world :: world where
  "ex_world =
     \<lparr>getpass = (\<lambda>k. if k = 1 then ''secret'' else ''wrong''), pwnam = (\<lambda>_. Some ''$1$abcdefgh$secret''),
      crypt = (\<lambda>p s. s @ p), isatty = True, ttyname = Some ''/dev/tty1'', gettext = (\<lambda>s. s),
      chdir = (\<lambda>_ d. Some d), hostname = ''box.example'', shell_rc = (\<lambda>_. 0), clish_rc = True, heap_slack = False\<rparr>"

definition ex_console :: console where
  "ex_console =
     \<lparr>prompts = 0, events = [], cfs = fs_empty, cwd = ''/'', tty_login = [], cli_help = [], do_confirm = 0,
      getenv = (\<lambda>_. None)\<rparr>"


section \<open>The storage directory\<close>

text \<open>
  \<open>awie_vstorage_chdir\<close> accepts a directory only if its path begins with \<open>/config\<close>. When it refuses, the
  working directory has already changed and stays where it is; and a path that begins with \<open>/config\<close>
  need not be inside of that directory.
\<close>

lemma chdir_accepts:
  "awie_vstorage_chdir w d st = Some (v, st') \<Longrightarrow> v = 1 \<Longrightarrow> starts_with ''/config'' (cwd st')"
  by (auto simp: awie_vstorage_chdir_def awie_vstorage_dochdir_def Let_def strncmp0_def starts_with_def
      eval_nat_numeral split: option.splits if_splits prod.splits)

lemma chdir_escapes:
  "\<exists>st'. awie_vstorage_chdir (ex_world\<lparr>chdir := (\<lambda>_ d. if d = ''/etc'' then Some d else None)\<rparr>) ''/etc''
      (ex_console\<lparr>cwd := ''/config''\<rparr>) = Some (0, st') \<and> cwd st' = ''/etc''"
  by (simp add: awie_vstorage_chdir_def awie_vstorage_dochdir_def Let_def strncmp0_def ex_world_def ex_console_def)

lemma chdir_accepts_sibling:
  "\<exists>st'. awie_vstorage_chdir (ex_world\<lparr>chdir := (\<lambda>_ d. if d = ''/config.old'' then Some d else None)\<rparr>) ''/config.old''
      (ex_console\<lparr>cwd := ''/config''\<rparr>) = Some (1, st') \<and> cwd st' = ''/config.old''"
  by (simp add: awie_vstorage_chdir_def awie_vstorage_dochdir_def Let_def strncmp0_def ex_world_def ex_console_def
      str_replace_spec starts_with_def)

end
