(* ===== verification/Chkprog.thy ===== *)
theory Chkprog
  imports FileSys LibString "HOL-Library.Monad_Syntax"
begin

text \<open>
  The service monitor (\<^verbatim>\<open>v3.1/src/mybox/src/chkprog.c\<close>) and the program that it makes run,
  \<^verbatim>\<open>taskq-check.c\<close>. For every file of \<^verbatim>\<open>/var/sys/check\<close>, the monitor looks for a process whose name or command line contains the
  name of the file, and if there is none it leaves a request, named by the contents of the file, in
  \<^verbatim>\<open>/var/sys/taskq\<close>.

  What \<open>readdir\<close> delivers is a parameter (\<open>None\<close> when the directory cannot be opened), and so are the time, as text, and
  the uninitialised bytes of \<open>cmd\<close>. The option monad carries the memory errors: \<open>None\<close> is an access outside of an
  array.
\<close>

section \<open>State\<close>

record listq_q =
  prog :: string
  cmd :: string
  qstatus :: int

datatype qevent = StartDaemon string string | Alert string

record monitor =
  listq :: "listq_q list"
  listcnt :: nat
  taskq :: int
  qfs :: fsys
  qevents :: "qevent list"

record outside =
  check_dir :: "string list option"
  proc_dir :: "string list option"
  now :: string
  junk :: bytes

definition monitor_init :: "fsys \<Rightarrow> monitor" where
  "monitor_init fs =
     \<lparr>listq = replicate 200 \<lparr>prog = [], cmd = [], qstatus = 0\<rparr>, listcnt = 0, taskq = 0, qfs = fs, qevents = []\<rparr>"

section \<open>The checks\<close>

definition set_config :: "string \<Rightarrow> string \<Rightarrow> nat \<Rightarrow> monitor \<Rightarrow> monitor option" where
  "set_config p c cnt st =
     (if cnt < length (listq st)
      then Some (st\<lparr>listq := (listq st)[cnt := \<lparr>prog = snprintf_s 150 p, cmd = snprintf_s 150 c, qstatus = 0\<rparr>]\<rparr>)
      else None)"

definition check_path :: "string \<Rightarrow> string" where
  "check_path name = ''/var/sys/check/'' @ name"

fun check_entries :: "string list \<Rightarrow> monitor \<Rightarrow> monitor option" where
  "check_entries [] st = Some st"
| "check_entries (name # names) st =
     (if name = ''.'' \<or> name = ''..'' then check_entries names st
      else if length (check_path name) \<ge> 32 then None
      else if fs_stat (qfs st) (check_path name) = None then check_entries names st
      else
        (case read_oneline (qfs st) (check_path name) of
           None \<Rightarrow> check_entries names st
         | Some (n, buf) \<Rightarrow>
             (if n \<ge> 1023 then None
              else if n < 0 then check_entries names st
              else
                do {
                  st \<leftarrow> set_config (trim name) (trim buf) (listcnt st) st;
                  check_entries names (st\<lparr>listcnt := listcnt st + 1\<rparr>)
                })))"

definition check_config :: "outside \<Rightarrow> monitor \<Rightarrow> (int \<times> monitor) option" where
  "check_config w st =
     (let st = st\<lparr>listcnt := 0\<rparr> in
      case check_dir w of
        None \<Rightarrow> Some (1, st)
      | Some names \<Rightarrow> do { st \<leftarrow> check_entries names st; Some (1, st) })"

definition task_file :: "string \<Rightarrow> string" where
  "task_file c = snprintf_s 150 (''/var/sys/taskq/'' @ c)"

fun set_check_loop :: "string \<Rightarrow> nat \<Rightarrow> nat \<Rightarrow> monitor \<Rightarrow> monitor" where
  "set_check_loop str i 0 st = st"
| "set_check_loop str i (Suc n) st =
     (if file_exists (qfs st) (task_file (cmd (listq st ! i))) then set_check_loop str (i + 1) n st
      else if strstr str (prog (listq st ! i)) \<noteq> None then
        set_check_loop str (i + 1) n (st\<lparr>listq := (listq st)[i := (listq st ! i)\<lparr>qstatus := 1\<rparr>]\<rparr>)
      else set_check_loop str (i + 1) n st)"

definition set_check :: "string \<Rightarrow> monitor \<Rightarrow> monitor" where
  "set_check str st = set_check_loop str 0 (listcnt st) st"

fun clear_loop :: "nat \<Rightarrow> nat \<Rightarrow> monitor \<Rightarrow> monitor" where
  "clear_loop i 0 st = st"
| "clear_loop i (Suc n) st =
     clear_loop (i + 1) n (st\<lparr>listq := (listq st)[i := \<lparr>prog = [], cmd = [], qstatus = 0\<rparr>]\<rparr>)"

definition clear_set :: "monitor \<Rightarrow> monitor" where
  "clear_set st = (clear_loop 0 (listcnt st) (st\<lparr>taskq := 0\<rparr>))\<lparr>listcnt := 0\<rparr>"

section \<open>The processes\<close>

text \<open>
  \<open>read_oneline\<close> once more, with the bytes of the buffer up to its end: the command line of a process is
  read with its NUL bytes.
\<close>

definition read_bytes :: "fsys \<Rightarrow> string \<Rightarrow> (int \<times> bytes) option" where
  "read_bytes fs p =
     (case fs_node fs p of
        None \<Rightarrow> None
      | Some n \<Rightarrow>
          (if deny fs (comps p) then None
           else if S_ISDIR (imode n) then Some (- 1, [])
           else Some (int (min 1023 (length (idata n))), take 1023 (idata n))))"

definition scan_comm :: "string \<Rightarrow> bytes \<Rightarrow> bytes" where
  \<comment> \<open>\<open>sscanf(buf, "%*s (%15c)", cmd)\<close>: what \<open>cmd\<close> holds afterwards\<close>
  "scan_comm s cbuf =
     (let r = dropWhile isspace (dropWhile (\<lambda>c. \<not> isspace c) (dropWhile isspace s)) in
      if starts_with ''('' r then (let x = take 15 (tl r) in x @ drop (length x) cbuf) else cbuf)"

definition printable :: "char \<Rightarrow> char" where
  "printable c = (if ord c < 32 then CHR '' '' else c)"

text \<open>\<open>splitc(scmd, cmd, ')')\<close> on the bytes of the array \<open>cmd\<close>, which must hold a NUL.\<close>

definition split_comm :: "bytes \<Rightarrow> (string \<times> bytes) option" where
  "split_comm cbuf =
     (if NUL \<notin> set cbuf then None
      else
        (case splitc (FBuf []) (cread cbuf) CHR '')'' of
           (first, rest) \<Rightarrow>
             Some (the first,
               if strchr (cread cbuf) CHR '')'' = None then cbuf
               else rest @ NUL # drop (length rest + 1) (cbuf[length (the first) := NUL]))))"

text \<open>
  The text for one process, from its name and its command line: \<open>sprintf\<close> with \<open>str\<close> as an argument
  and as the destination leaves the old text in place. \<open>str\<close> has 1024 bytes and \<open>buf\<close> 1023.
\<close>

definition proc_text :: "fsys \<Rightarrow> string \<Rightarrow> string \<Rightarrow> string option" where
  "proc_text fs dir scmd =
     (let str = scmd @ '' '' in
      case read_bytes fs (dir @ ''/cmdline'') of
        None \<Rightarrow> Some (trim str)
      | Some (n, buf) \<Rightarrow>
          (if n \<ge> 1023 then None
           else if n > 0 then
             (let buf = (if last buf = CHR 0x0A then butlast buf else buf);
                  buf = map printable buf
              in if buf = [] then Some (trim str)
                 else if length (str @ '' '' @ buf @ '' '') \<ge> 1024 then None
                 else Some (trim (str @ '' '' @ buf @ '' '')))
           else Some (trim str)))"

definition proc_path :: "string \<Rightarrow> string" where
  "proc_path name = ''/proc/'' @ dec_int (atoi name)"

fun proc_loop :: "string list \<Rightarrow> bytes \<Rightarrow> monitor \<Rightarrow> monitor option" where
  "proc_loop [] cbuf st = Some st"
| "proc_loop (name # names) cbuf st =
     (if name = [] \<or> \<not> isdigit (hd name) then proc_loop names cbuf st
      else
        (let dir = proc_path name in
         if fs_stat (qfs st) dir = None then proc_loop names cbuf st
         else
           (case read_oneline (qfs st) (dir @ ''/stat'') of
              None \<Rightarrow> proc_loop names cbuf st
            | Some (n, buf) \<Rightarrow>
                (if n \<ge> 1023 then None
                 else if n < 0 then proc_loop names cbuf st
                 else
                   do {
                     (scmd, cbuf) \<leftarrow> split_comm (scan_comm buf cbuf);
                     str \<leftarrow> proc_text (qfs st) dir scmd;
                     (if strstr str ''taskq-check'' \<noteq> None then proc_loop names cbuf (st\<lparr>taskq := 1\<rparr>)
                      else proc_loop names cbuf (set_check str st))
                   }))))"

definition check_prog :: "outside \<Rightarrow> monitor \<Rightarrow> (int \<times> monitor) option" where
  "check_prog w st =
     (case proc_dir w of
        None \<Rightarrow> Some (1, st)
      | Some names \<Rightarrow> do { st \<leftarrow> proc_loop names (junk w) st; Some (0, st) })"

section \<open>The requests\<close>

definition chk_log :: "string \<Rightarrow> monitor \<Rightarrow> monitor" where
  "chk_log p st = st\<lparr>qevents := qevents st @ [Alert (snprintf_s 256 (''Service '' @ p @ '' down''))]\<rparr>"

definition run_daemon :: "string \<Rightarrow> string \<Rightarrow> monitor \<Rightarrow> monitor" where
  "run_daemon pname p st =
     (if file_exists (qfs st) ''/bin/start-stop-daemon'' then st\<lparr>qevents := qevents st @ [StartDaemon pname p]\<rparr> else st)"

fun run_loop :: "string \<Rightarrow> nat \<Rightarrow> nat \<Rightarrow> monitor \<Rightarrow> monitor" where
  "run_loop info i 0 st = st"
| "run_loop info i (Suc n) st =
     (if qstatus (listq st ! i) = 0 then
        (let fname = task_file (cmd (listq st ! i)) in
         if file_exists (qfs st) fname then run_loop info (i + 1) n st
         else
           run_loop info (i + 1) n
             (chk_log (prog (listq st ! i)) (st\<lparr>qfs := fst (save_to_file (qfs st) fname info)\<rparr>)))
      else run_loop info (i + 1) n st)"

definition run_check :: "outside \<Rightarrow> monitor \<Rightarrow> monitor" where
  "run_check w st =
     (let st = (if taskq st = 0 \<and> file_exists (qfs st) ''/bin/taskq-check''
                then run_daemon ''taskq-check'' ''/bin/taskq-check'' st else st);
          st = (if \<not> file_exists (qfs st) ''/var/sys/taskq''
                then st\<lparr>qfs := fst (xmkdir (qfs st) ''/var/sys/taskq'')\<rparr> else st)
      in run_loop (snprintf_s 150 (now w)) 0 (listcnt st) st)"

section \<open>The main loop\<close>

definition proc_idle :: "fsys \<Rightarrow> bool" where
  "proc_idle fs \<longleftrightarrow> file_exists fs ''/var/sys/init_down'' \<or> file_exists fs ''/var/sys/chkprog_stop''"

definition chkprog_pass :: "outside \<Rightarrow> monitor \<Rightarrow> monitor option" where
  "chkprog_pass w st =
     (if proc_idle (qfs st) then Some st
      else
        do {
          (_, st) \<leftarrow> check_config w (clear_set st);
          (_, st) \<leftarrow> check_prog w st;
          Some (run_check w st)
        })"

text \<open>\<^verbatim>\<open>taskq-check.c\<close>: whether there is a request, and one round of its loop, which runs the task
  program if there is one and the program exists.\<close>

fun check_request :: "string list option \<Rightarrow> int" where
  "check_request None = 0"
| "check_request (Some names) = (if \<forall>n \<in> set names. n = ''.'' \<or> n = ''..'' then 0 else 1)"

definition taskq_round :: "fsys \<Rightarrow> string list option \<Rightarrow> bool" where
  "taskq_round fs names \<longleftrightarrow> check_request names > 0 \<and> file_exists fs ''/service/tools/taskq_exec.exc''"

section \<open>Reading the checks\<close>

definition is_dots :: "string \<Rightarrow> bool" where
  "is_dots name \<longleftrightarrow> name = ''.'' \<or> name = ''..''"

definition check_breaks :: "fsys \<Rightarrow> string \<Rightarrow> bool" where
  \<comment> \<open>the name is too long for \<open>status\<close>, or the file for \<open>buf\<close>\<close>
  "check_breaks fs name \<longleftrightarrow>
     \<not> is_dots name \<and>
     (length name > 16 \<or>
      fs_stat fs (check_path name) \<noteq> None \<and>
      (case read_oneline fs (check_path name) of None \<Rightarrow> False | Some (n, _) \<Rightarrow> n \<ge> 1023))"

definition check_item :: "fsys \<Rightarrow> string \<Rightarrow> listq_q option" where
  \<comment> \<open>the check that a file stands for, if it can be read\<close>
  "check_item fs name =
     (if is_dots name \<or> fs_stat fs (check_path name) = None then None
      else
        (case read_oneline fs (check_path name) of
           None \<Rightarrow> None
         | Some (n, buf) \<Rightarrow>
             if n < 0 then None
             else Some \<lparr>prog = snprintf_s 150 (trim name), cmd = snprintf_s 150 (trim buf), qstatus = 0\<rparr>))"

definition check_items :: "fsys \<Rightarrow> string list \<Rightarrow> listq_q list" where
  "check_items fs names = List.map_filter (check_item fs) names"

lemma length_check_path [simp]: "length (check_path name) = 15 + length name"
  by (simp add: check_path_def)

lemma check_items_simps [simp]:
  "check_items fs [] = []"
  "check_items fs (n # ns) = (case check_item fs n of None \<Rightarrow> check_items fs ns | Some q \<Rightarrow> q # check_items fs ns)"
  by (simp_all add: check_items_def map_filter_simps split: option.split)

text \<open>The array with the items from index \<open>k\<close> on replaced.\<close>

definition put :: "nat \<Rightarrow> 'a list \<Rightarrow> 'a list \<Rightarrow> 'a list" where
  "put k xs l = take k l @ xs @ drop (k + length xs) l"

lemma put_Nil [simp]: "put k [] l = l"
  by (simp add: put_def)

lemma length_put [simp]: "k + length xs \<le> length l \<Longrightarrow> length (put k xs l) = length l"
  by (simp add: put_def)

lemma put_update: "k + length xs < length l \<Longrightarrow> put (Suc k) xs (l[k := x]) = put k (x # xs) l"
  by (simp add: put_def take_Suc_conv_app_nth)

lemma take_put: "k + length xs \<le> length l \<Longrightarrow> take (k + length xs) (put k xs l) = take k l @ xs"
  by (simp add: put_def)

lemma check_entries_spec:
  "listcnt st \<le> length (listq st) \<Longrightarrow>
   check_entries names st =
     (if (\<exists>n \<in> set names. check_breaks (qfs st) n) \<or> length (listq st) < listcnt st + length (check_items (qfs st) names)
      then None
      else Some (st\<lparr>listq := put (listcnt st) (check_items (qfs st) names) (listq st),
                    listcnt := listcnt st + length (check_items (qfs st) names)\<rparr>))"
proof (induction names arbitrary: st)
  case (Cons name names)
  let ?p = "check_path name"
  have skip: ?case
    if "check_entries (name # names) st = check_entries names st" "\<not> check_breaks (qfs st) name" "check_item (qfs st) name = None"
    using that Cons by simp
  show ?case
  proof (cases "is_dots name")
    case True
    then show ?thesis by (intro skip) (auto simp: is_dots_def check_breaks_def check_item_def)
  next
    case nd: False
    then have dots: "\<not> (name = ''.'' \<or> name = ''..'')" by (simp add: is_dots_def)
    show ?thesis
    proof (cases "length name > 16")
      case True
      then have "check_breaks (qfs st) name" using nd by (simp add: check_breaks_def)
      moreover have "length ?p \<ge> 32" using True by simp
      ultimately show ?thesis using dots by (simp only: check_entries.simps if_False if_True) simp
    next
      case short: False
      then have sh: "\<not> length ?p \<ge> 32" by simp
      have unf: "check_entries (name # names) st =
          (if fs_stat (qfs st) ?p = None then check_entries names st
           else (case read_oneline (qfs st) ?p of
              None \<Rightarrow> check_entries names st
            | Some (n, buf) \<Rightarrow>
                (if n \<ge> 1023 then None else if n < 0 then check_entries names st
                 else do { st \<leftarrow> set_config (trim name) (trim buf) (listcnt st) st;
                           check_entries names (st\<lparr>listcnt := listcnt st + 1\<rparr>) })))"
        using dots sh by (simp only: check_entries.simps if_False)
      show ?thesis
      proof (cases "fs_stat (qfs st) ?p = None")
        case True
        then show ?thesis using unf nd short by (intro skip) (auto simp: check_breaks_def check_item_def)
      next
        case ex: False
        show ?thesis
        proof (cases "read_oneline (qfs st) ?p")
          case None
          then show ?thesis using unf ex nd short by (intro skip) (auto simp: check_breaks_def check_item_def)
        next
          case (Some nb)
          obtain n buf where nb: "nb = (n, buf)" by fastforce
          consider "n \<ge> 1023" | "n < 0" | "0 \<le> n" "n < 1023" by linarith
          then show ?thesis
          proof cases
            case 1
            then have "check_breaks (qfs st) name" using ex nd Some nb by (simp add: check_breaks_def)
            with unf ex Some nb 1 show ?thesis by simp
          next
            case 2
            then show ?thesis using unf ex nd short Some nb by (intro skip) (auto simp: check_breaks_def check_item_def)
          next
            case 3
            have nb': "\<not> check_breaks (qfs st) name" using 3 ex nd short Some nb by (simp add: check_breaks_def)
            let ?q = "\<lparr>prog = snprintf_s 150 (trim name), cmd = snprintf_s 150 (trim buf), qstatus = 0\<rparr>"
            have it: "check_item (qfs st) name = Some ?q" using 3 ex nd Some nb by (simp add: check_item_def)
            show ?thesis
            proof (cases "listcnt st < length (listq st)")
              case True
              let ?st = "st\<lparr>listq := (listq st)[listcnt st := ?q], listcnt := listcnt st + 1\<rparr>"
              have "check_entries (name # names) st = check_entries names ?st"
                using unf ex Some nb 3 True by (simp add: set_config_def)
              moreover have "listcnt ?st \<le> length (listq ?st)" using True by simp
              ultimately show ?thesis using Cons.IH [of ?st] it nb' by (auto simp: put_update)
            next
              case False
              then show ?thesis using unf ex Some nb 3 it Cons.prems by (simp add: set_config_def)
            qed
          qed
        qed
      qed
    qed
  qed
qed simp

section \<open>Clearing and marking\<close>

lemma clear_loop_sel [simp]:
  "qfs (clear_loop i n st) = qfs st" "qevents (clear_loop i n st) = qevents st" "taskq (clear_loop i n st) = taskq st"
  "length (listq (clear_loop i n st)) = length (listq st)"
  by (induction n arbitrary: i st) simp_all

definition mark :: "fsys \<Rightarrow> string list \<Rightarrow> listq_q \<Rightarrow> listq_q" where
  \<comment> \<open>set to 1 if one of the texts mentions the program, and no request is pending\<close>
  "mark fs strs q =
     (if \<not> file_exists fs (task_file (cmd q)) \<and> (\<exists>s \<in> set strs. strstr s (prog q) \<noteq> None) then q\<lparr>qstatus := 1\<rparr> else q)"

lemma mark_Nil [simp]: "mark fs [] = (\<lambda>q. q)"
  by (simp add: mark_def fun_eq_iff)

lemma mark_mark: "mark fs ss (mark fs [s] q) = mark fs (s # ss) q"
  by (auto simp: mark_def)

lemma set_check_loop_spec:
  "i + n \<le> length (listq st) \<Longrightarrow>
   set_check_loop str i n st = st\<lparr>listq := put i (map (mark (qfs st) [str]) (take n (drop i (listq st)))) (listq st)\<rparr>"
proof (induction n arbitrary: i st)
  case (Suc n)
  let ?q = "listq st ! i" and ?m = "mark (qfs st) [str]"
  have i: "i < length (listq st)" using Suc.prems by simp
  then have t: "take (Suc n) (drop i (listq st)) = ?q # take n (drop (Suc i) (listq st))"
    by (simp add: Cons_nth_drop_Suc [symmetric])
  let ?st = "st\<lparr>listq := (listq st)[i := ?m ?q]\<rparr>"
  have "set_check_loop str i (Suc n) st = set_check_loop str (i + 1) n ?st"
    using i by (auto simp: mark_def)
  also have "\<dots> = ?st\<lparr>listq := put (i + 1) (map ?m (take n (drop (i + 1) (listq ?st)))) (listq ?st)\<rparr>"
    using Suc.prems Suc.IH [of "i + 1" ?st] by simp
  also have "\<dots> = st\<lparr>listq := put i (map ?m (take (Suc n) (drop i (listq st)))) (listq st)\<rparr>"
    using Suc.prems i by (simp add: t put_update)
  finally show ?case .
qed simp

definition marks :: "string list \<Rightarrow> monitor \<Rightarrow> monitor" where
  "marks strs st = st\<lparr>listq := map (mark (qfs st) strs) (take (listcnt st) (listq st)) @ drop (listcnt st) (listq st)\<rparr>"

lemma set_check_marks: "listcnt st \<le> length (listq st) \<Longrightarrow> set_check str st = marks [str] st"
  by (simp add: set_check_def set_check_loop_spec put_def marks_def)

lemma marks_sel [simp]: "listcnt (marks strs st) = listcnt st" "qfs (marks strs st) = qfs st"
  "taskq (marks strs st) = taskq st" "qevents (marks strs st) = qevents st"
  "listcnt st \<le> length (listq st) \<Longrightarrow> length (listq (marks strs st)) = length (listq st)"
  by (simp_all add: marks_def)

lemma marks_marks: "listcnt st \<le> length (listq st) \<Longrightarrow> marks ss (marks [s] st) = marks (s # ss) st"
  by (simp add: marks_def mark_mark)

lemma marks_Nil [simp]: "marks [] st = st"
  by (simp add: marks_def)

section \<open>Looking at the processes\<close>

definition comm_start :: "string \<Rightarrow> string" where
  "comm_start s = dropWhile isspace (dropWhile (\<lambda>c. \<not> isspace c) (dropWhile isspace s))"

text \<open>A \<^verbatim>\<open>stat\<close> file as the kernel writes it: 15 bytes follow the parenthesis that opens the name.\<close>

definition stat_ok :: "string \<Rightarrow> bool" where
  "stat_ok s \<longleftrightarrow> starts_with ''('' (comm_start s) \<and> 15 \<le> length (tl (comm_start s))"

definition comm_name :: "string \<Rightarrow> string" where
  \<comment> \<open>the name of the process, or nothing if it is too long for the closing parenthesis to be read\<close>
  "comm_name s =
     (let x = take 15 (tl (comm_start s)) in if CHR '')'' \<in> set x then takeWhile (\<lambda>c. c \<noteq> CHR '')'') x else [])"

definition proc_stat :: "fsys \<Rightarrow> string \<Rightarrow> (int \<times> string) option" where
  "proc_stat fs name =
     (if name = [] \<or> \<not> isdigit (hd name) \<or> fs_stat fs (proc_path name) = None then None
      else read_oneline fs (proc_path name @ ''/stat''))"

definition proc_fits :: "fsys \<Rightarrow> string \<Rightarrow> bool" where
  "proc_fits fs name \<longleftrightarrow>
     (case proc_stat fs name of
        None \<Rightarrow> True
      | Some (n, buf) \<Rightarrow> n < 1023 \<and> (n < 0 \<or> stat_ok buf \<and> proc_text fs (proc_path name) (comm_name buf) \<noteq> None))"

definition proc_texts :: "fsys \<Rightarrow> string list \<Rightarrow> string list" where
  "proc_texts fs names =
     List.map_filter (\<lambda>name.
       case proc_stat fs name of
         None \<Rightarrow> None
       | Some (n, buf) \<Rightarrow> if n < 0 then None else proc_text fs (proc_path name) (comm_name buf)) names"

definition is_taskq :: "string \<Rightarrow> bool" where
  "is_taskq str \<longleftrightarrow> strstr str ''taskq-check'' \<noteq> None"

definition buffer_ok :: "bytes \<Rightarrow> bool" where
  "buffer_ok cbuf \<longleftrightarrow> length cbuf = 16 \<and> cbuf ! 15 = NUL"

lemma scan_comm_ok:
  assumes "stat_ok s" "buffer_ok cbuf"
  shows "scan_comm s cbuf = take 15 (tl (comm_start s)) @ [NUL]"
proof -
  have "drop 15 cbuf = [NUL]"
    using assms(2) Cons_nth_drop_Suc [of 15 cbuf] by (simp add: buffer_ok_def)
  moreover have "length (take 15 (tl (comm_start s))) = 15" using assms(1) by (simp add: stat_ok_def)
  ultimately show ?thesis
    using assms(1) unfolding scan_comm_def comm_start_def [symmetric] Let_def stat_ok_def by (simp only: simp_thms if_True)
qed

lemma strchr_takeWhile: "strchr s c = Some p \<Longrightarrow> take p s = takeWhile (\<lambda>d. d \<noteq> c) s \<and> p < length s"
  by (induction s arbitrary: p) (auto split: if_splits)

lemma nth_overwritten:
  "length r \<le> 14 \<Longrightarrow> length a = 16 \<Longrightarrow> (r @ z # drop (length r + 1) a) ! 15 = a ! 15"
proof -
  assume r: "length r \<le> 14" and a: "length a = 16"
  then have "15 - length r = Suc (14 - length r)" by simp
  then show ?thesis using r a by (simp add: nth_append)
qed

lemma split_comm_ok:
  assumes x: "cstr x" "length x = 15"
  shows "\<exists>cbuf'. split_comm (x @ [NUL]) =
      Some (if CHR '')'' \<in> set x then takeWhile (\<lambda>c. c \<noteq> CHR '')'') x else [], cbuf') \<and> buffer_ok cbuf'"
proof (cases "strchr x CHR '')''")
  case None
  moreover have "CHR '')'' \<notin> set x" using None by simp
  ultimately show ?thesis using x
    by (simp add: split_comm_def splitc_def buffer_ok_def nth_append del: strchr_None)
next
  case (Some p)
  note t = strchr_takeWhile [OF Some]
  have m: "CHR '')'' \<in> set x" using Some by (metis option.distinct(1) strchr_None)
  let ?r = "drop (p + 1) x"
  let ?c = "?r @ NUL # drop (length ?r + 1) ((x @ [NUL])[p := NUL])"
  have "length ?c = 16" using x t by simp
  moreover have "?c ! 15 = NUL"
  proof -
    have "length ?r \<le> 14" "p \<le> 14" using x t by auto
    then have "?c ! 15 = ((x @ [NUL])[p := NUL]) ! 15" using x by (intro nth_overwritten) simp_all
    also have "\<dots> = NUL" using x \<open>p \<le> 14\<close> by (simp add: nth_append)
    finally show ?thesis .
  qed
  ultimately have "buffer_ok ?c" by (simp only: buffer_ok_def simp_thms)
  moreover have "length (take p x) = p" using conjunct2 [OF t] by simp
  ultimately show ?thesis using Some x t m by (simp add: split_comm_def splitc_def)
qed

lemma comm_start_cstr: "cstr s \<Longrightarrow> cstr (comm_start s)"
  unfolding comm_start_def by (rule cstr_subset) (auto dest!: set_dropWhileD)

lemma read_oneline_cstr: "read_oneline fs p = Some (n, b) \<Longrightarrow> cstr b"
  by (auto simp: read_oneline_def split: option.splits if_splits)

lemma proc_loop_spec:
  assumes "listcnt st \<le> length (listq st)" "\<forall>n \<in> set names. proc_fits (qfs st) n" "buffer_ok cbuf"
  shows "proc_loop names cbuf st =
    (let ts = proc_texts (qfs st) names in
     Some ((marks (filter (\<lambda>t. \<not> is_taskq t) ts) st)\<lparr>taskq := if \<exists>t \<in> set ts. is_taskq t then 1 else taskq st\<rparr>))"
  using assms
proof (induction names arbitrary: cbuf st)
  case Nil
  then show ?case by (simp add: proc_texts_def map_filter_simps)
next
  case (Cons name names)
  let ?fs = "qfs st" and ?dir = "proc_path name"
  have skip: ?case if "proc_loop (name # names) cbuf st = proc_loop names cbuf st"
    "proc_texts ?fs (name # names) = proc_texts ?fs names"
    using that Cons by simp
  show ?case
  proof (cases "proc_stat ?fs name")
    case None
    then have "proc_texts ?fs (name # names) = proc_texts ?fs names" by (simp add: proc_texts_def map_filter_simps)
    moreover have "proc_loop (name # names) cbuf st = proc_loop names cbuf st"
      using None by (auto simp: proc_stat_def Let_def split: if_splits)
    ultimately show ?thesis by (rule skip [rotated])
  next
    case (Some nb)
    obtain n buf where nb: "nb = (n, buf)" by fastforce
    have pre: "\<not> (name = [] \<or> \<not> isdigit (hd name))" "fs_stat ?fs ?dir \<noteq> None"
      "read_oneline ?fs (?dir @ ''/stat'') = Some (n, buf)"
      using Some nb by (auto simp: proc_stat_def split: if_splits)
    have n: "\<not> n \<ge> 1023" "n < 0 \<or> stat_ok buf \<and> proc_text ?fs ?dir (comm_name buf) \<noteq> None"
      using Cons.prems(2) Some nb by (auto simp: proc_fits_def)
    show ?thesis
    proof (cases "n < 0")
      case True
      then have "proc_texts ?fs (name # names) = proc_texts ?fs names"
        using Some nb by (simp add: proc_texts_def map_filter_simps)
      moreover have "proc_loop (name # names) cbuf st = proc_loop names cbuf st" using pre n True by (auto simp: Let_def)
      ultimately show ?thesis by (rule skip [rotated])
    next
      case False
      with n obtain str where ok: "stat_ok buf" and str: "proc_text ?fs ?dir (comm_name buf) = Some str" by auto
      let ?x = "take 15 (tl (comm_start buf))"
      have "cstr (comm_start buf)" by (rule comm_start_cstr [OF read_oneline_cstr [OF pre(3)]])
      then have "cstr ?x" by (metis cstr_drop cstr_take drop_Suc drop0)
      moreover have "length ?x = 15" using ok by (simp add: stat_ok_def)
      ultimately obtain cbuf' where sp: "split_comm (scan_comm buf cbuf) = Some (comm_name buf, cbuf')" "buffer_ok cbuf'"
        using split_comm_ok [of ?x] scan_comm_ok [OF ok Cons.prems(3)] by (auto simp: comm_name_def Let_def)
      have ts: "proc_texts ?fs (name # names) = str # proc_texts ?fs names"
        using Some nb False str by (simp add: proc_texts_def map_filter_simps)
      have lp: "proc_loop (name # names) cbuf st =
          (if is_taskq str then proc_loop names cbuf' (st\<lparr>taskq := 1\<rparr>) else proc_loop names cbuf' (set_check str st))"
        using pre n False sp(1) str by (auto simp: is_taskq_def Let_def)
      show ?thesis
      proof (cases "is_taskq str")
        case True
        with Cons.IH [of "st\<lparr>taskq := 1\<rparr>" cbuf'] Cons.prems sp(2) show ?thesis
          by (simp add: lp ts Let_def marks_def del: proc_loop.simps)
      next
        case no: False
        have sc: "set_check str st = marks [str] st" by (rule set_check_marks [OF Cons.prems(1)])
        with Cons.IH [of "marks [str] st" cbuf'] Cons.prems sp(2) no show ?thesis
          by (simp add: lp ts Let_def marks_marks del: proc_loop.simps)
      qed
    qed
  qed
qed

section \<open>Making requests\<close>

text \<open>
  The specification of a pass: for every check in turn, a request is made and reported unless one
  is pending or some text mentions the program.
\<close>

fun requests :: "fsys \<Rightarrow> string \<Rightarrow> string list \<Rightarrow> listq_q list \<Rightarrow> fsys \<times> string list" where
  "requests fs info texts [] = (fs, [])"
| "requests fs info texts (q # qs) =
     (if file_exists fs (task_file (cmd q)) \<or> (\<exists>t \<in> set texts. strstr t (prog q) \<noteq> None)
      then requests fs info texts qs
      else
        (let (fs', ps) = requests (fst (save_to_file fs (task_file (cmd q)) info)) info texts qs
         in (fs', prog q # ps)))"

definition exists_more :: "fsys \<Rightarrow> fsys \<Rightarrow> bool" where
  "exists_more fs fs' \<longleftrightarrow> (\<forall>p. file_exists fs p \<longrightarrow> file_exists fs' p)"

lemma exists_more_refl [simp]: "exists_more fs fs"
  by (simp add: exists_more_def)

lemma exists_more_trans: "exists_more a b \<Longrightarrow> exists_more b c \<Longrightarrow> exists_more a c"
  by (simp add: exists_more_def)

lemma exists_more_nodes:
  assumes "\<And>q n. inodes fs q = Some n \<Longrightarrow> \<exists>n'. inodes fs' q = Some n' \<and> imode n' = imode n"
  shows "exists_more fs fs'"
  unfolding exists_more_def
proof (intro allI impI)
  fix p assume "file_exists fs p"
  then obtain n where n: "p \<noteq> []" "inodes fs (comps p) = Some n"
    by (auto simp: file_exists_def fs_stat_def fs_node_def split: option.splits if_splits)
  with assms obtain n' where "inodes fs' (comps p) = Some n'" "imode n' = imode n" by blast
  with n \<open>file_exists fs p\<close> show "file_exists fs' p" by (simp add: file_exists_def fs_stat_def fs_node_def)
qed

lemma save_exists_more: "exists_more fs (fst (save_to_file fs p s))"
proof (cases "fs_open_write fs p True")
  case (Some fs')
  have "\<exists>n'. inodes fs' q = Some n' \<and> imode n' = imode n" if "inodes fs q = Some n" for q n
    using Some that by (auto simp: fs_open_write_def Let_def split: if_splits option.splits)
  then have 1: "exists_more fs fs'" by (rule exists_more_nodes)
  have "exists_more fs' (fs_append fs' p s)"
    by (rule exists_more_nodes) (auto simp: fs_append_def split: option.splits)
  with 1 Some show ?thesis by (auto simp: save_to_file_def intro: exists_more_trans)
qed (simp add: save_to_file_def)

lemma xmkdir_exists_more:
  assumes "fs_isdir fs []"
  shows "exists_more fs (fst (xmkdir fs p))"
proof -
  let ?fs = "fs\<lparr>fumask := fumask fs AND NOT 0xC0\<rparr>"
  obtain fs' r where run: "mk_loop (fumask fs) ?fs [] p = (fs', r)" by fastforce
  have "all_dirs ?fs (comps [])" using assms by (simp add: all_dirs_def comps_def)
  note sound = mk_loop_sound [OF run _ this, simplified]
  then have g: "grows fs (comps p) fs'" by simp
  have "inodes fs' q = inodes fs q" if "inodes fs q \<noteq> None" for q using g that by (auto simp: grows_def)
  then have "exists_more fs fs'" by (intro exists_more_nodes) auto
  then show ?thesis using run by (simp add: xmkdir_def Let_def)
qed

definition alert :: "string \<Rightarrow> qevent" where
  "alert p = Alert (snprintf_s 256 (''Service '' @ p @ '' down''))"

lemma run_loop_spec:
  assumes "exists_more fs0 (qfs st)" "\<forall>q \<in> set qs. qstatus q = 0"
    "take (length qs) (drop i (listq st)) = map (mark fs0 texts) qs" "i + length qs \<le> length (listq st)"
  shows "run_loop info i (length qs) st =
    st\<lparr>qfs := fst (requests (qfs st) info texts qs),
       qevents := qevents st @ map alert (snd (requests (qfs st) info texts qs))\<rparr>"
  using assms
proof (induction qs arbitrary: i st)
  case (Cons q qs)
  let ?m = "mark fs0 texts q" and ?f = "task_file (cmd q)"
  have i: "i < length (listq st)" using Cons.prems(4) by simp
  then have dr: "drop i (listq st) = listq st ! i # drop (i + 1) (listq st)" by (simp add: Cons_nth_drop_Suc)
  have q: "listq st ! i = ?m" "take (length qs) (drop (i + 1) (listq st)) = map (mark fs0 texts) qs"
    using Cons.prems(3) unfolding dr by simp_all
  have cmdm: "cmd ?m = cmd q" "prog ?m = prog q" by (simp_all add: mark_def)
  have st0: "qstatus q = 0" using Cons.prems(2) by simp
  have pend: "file_exists fs0 ?f \<Longrightarrow> file_exists (qfs st) ?f" using Cons.prems(1) by (simp add: exists_more_def)
  show ?case
  proof (cases "file_exists (qfs st) ?f \<or> (\<exists>t \<in> set texts. strstr t (prog q) \<noteq> None)")
    case True
    have "run_loop info i (length (q # qs)) st = run_loop info (i + 1) (length qs) st"
      using True pend q(1) cmdm by (auto simp: mark_def Let_def)
    also have "\<dots> = st\<lparr>qfs := fst (requests (qfs st) info texts qs),
       qevents := qevents st @ map alert (snd (requests (qfs st) info texts qs))\<rparr>"
      using Cons.prems q(2) by (intro Cons.IH) simp_all
    finally show ?thesis using True by simp
  next
    case False
    then have m: "?m = q" by (auto simp: mark_def)
    let ?fs = "fst (save_to_file (qfs st) ?f info)"
    let ?st = "chk_log (prog q) (st\<lparr>qfs := ?fs\<rparr>)"
    have "run_loop info i (length (q # qs)) st = run_loop info (i + 1) (length qs) ?st"
      using False q(1) m st0 by (simp add: Let_def)
    also have "\<dots> = ?st\<lparr>qfs := fst (requests (qfs ?st) info texts qs),
       qevents := qevents ?st @ map alert (snd (requests (qfs ?st) info texts qs))\<rparr>"
      using Cons.prems q(2) exists_more_trans [OF Cons.prems(1) save_exists_more]
      by (intro Cons.IH) (simp_all add: chk_log_def)
    finally show ?thesis using False by (simp add: chk_log_def alert_def Let_def split_beta)
  qed
qed simp

section \<open>The property\<close>

definition items_of :: "outside \<Rightarrow> fsys \<Rightarrow> listq_q list" where
  "items_of w fs = (case check_dir w of None \<Rightarrow> [] | Some names \<Rightarrow> check_items fs names)"

definition texts_of :: "outside \<Rightarrow> fsys \<Rightarrow> string list" where
  "texts_of w fs = (case proc_dir w of None \<Rightarrow> [] | Some names \<Rightarrow> proc_texts fs names)"

definition config_bad :: "outside \<Rightarrow> fsys \<Rightarrow> bool" where
  "config_bad w fs \<longleftrightarrow>
     (case check_dir w of None \<Rightarrow> False | Some names \<Rightarrow> \<exists>n \<in> set names. check_breaks fs n) \<or> 200 < length (items_of w fs)"

definition procs_fit :: "outside \<Rightarrow> fsys \<Rightarrow> bool" where
  "procs_fit w fs \<longleftrightarrow>
     (case proc_dir w of None \<Rightarrow> True | Some names \<Rightarrow> \<forall>n \<in> set names. proc_fits fs n) \<and> buffer_ok (junk w)"

definition queue_dir :: "fsys \<Rightarrow> fsys" where
  "queue_dir fs = (if file_exists fs ''/var/sys/taskq'' then fs else fst (xmkdir fs ''/var/sys/taskq''))"

definition daemon_start :: "outside \<Rightarrow> fsys \<Rightarrow> qevent list" where
  "daemon_start w fs =
     (if (\<forall>t \<in> set (texts_of w fs). \<not> is_taskq t) \<and> file_exists fs ''/bin/taskq-check'' \<and>
         file_exists fs ''/bin/start-stop-daemon''
      then [StartDaemon ''taskq-check'' ''/bin/taskq-check''] else [])"

definition table_ok :: "monitor \<Rightarrow> bool" where
  "table_ok st \<longleftrightarrow> length (listq st) = 200 \<and> listcnt st \<le> 200"

lemma clear_set_sel [simp]:
  "qfs (clear_set st) = qfs st" "qevents (clear_set st) = qevents st" "taskq (clear_set st) = 0"
  "listcnt (clear_set st) = 0" "length (listq (clear_set st)) = length (listq st)"
  by (simp_all add: clear_set_def)

lemma check_items_status: "q \<in> set (check_items fs names) \<Longrightarrow> qstatus q = 0"
  by (induction names) (auto simp: check_item_def split: option.splits if_splits)

lemma check_config_spec:
  assumes "length (listq st) = 200"
  shows "check_config w st =
    (if config_bad w (qfs st) then None
     else Some (1, st\<lparr>listq := put 0 (items_of w (qfs st)) (listq st), listcnt := length (items_of w (qfs st))\<rparr>))"
proof (cases "check_dir w")
  case None
  then show ?thesis by (simp add: check_config_def config_bad_def items_of_def Let_def)
next
  case (Some names)
  then show ?thesis using check_entries_spec [of "st\<lparr>listcnt := 0\<rparr>" names] assms
    by (auto simp: check_config_def config_bad_def items_of_def Let_def)
qed

lemma check_prog_spec:
  assumes "listcnt st \<le> length (listq st)" "procs_fit w (qfs st)"
  shows "\<exists>v. check_prog w st =
    Some (v, (marks (filter (\<lambda>t. \<not> is_taskq t) (texts_of w (qfs st))) st)
      \<lparr>taskq := if \<exists>t \<in> set (texts_of w (qfs st)). is_taskq t then 1 else taskq st\<rparr>)"
proof (cases "proc_dir w")
  case None
  then show ?thesis by (simp add: check_prog_def texts_of_def)
next
  case (Some names)
  then show ?thesis using proc_loop_spec [of st names "junk w"] assms
    by (simp add: check_prog_def texts_of_def procs_fit_def Let_def)
qed


text \<open>An example: one service to be watched, whose program is not running.\<close>

definition ex_mon_files :: "(string list \<times> inode) list" where
  "ex_mon_files =
     [([], \<lparr>imode = S_IFDIR, idata = []\<rparr>), ([''var''], \<lparr>imode = S_IFDIR, idata = []\<rparr>),
      ([''var'', ''sys''], \<lparr>imode = S_IFDIR, idata = []\<rparr>), ([''var'', ''sys'', ''taskq''], \<lparr>imode = S_IFDIR, idata = []\<rparr>),
      ([''var'', ''sys'', ''check'', ''ftpd''], \<lparr>imode = S_IFREG, idata = ''ftp''\<rparr>),
      ([''proc'', ''1''], \<lparr>imode = S_IFDIR, idata = []\<rparr>),
      ([''proc'', ''1'', ''stat''], \<lparr>imode = S_IFREG, idata = ''1 (init) S 0 1 1 0 -1''\<rparr>),
      ([''proc'', ''1'', ''cmdline''], \<lparr>imode = S_IFREG, idata = ''/sbin/init'' @ [NUL]\<rparr>)]"

definition ex_mon :: monitor where
  "ex_mon = monitor_init \<lparr>inodes = map_of ex_mon_files, fumask = 0, deny = (\<lambda>_. False)\<rparr>"

definition ex_out :: outside where
  "ex_out = \<lparr>check_dir = Some [''.'', ''..'', ''ftpd''], proc_dir = Some [''self'', ''1''], now = ''01/01/2008 00:00:00'',
     junk = replicate 16 NUL\<rparr>"


end
