(* ===== verification/Decimal.thy ===== *)
theory Decimal
  imports Prelude
begin

text \<open>
  Decimal output and input: the printed form of a number consists of digits, and \<open>atoi\<close> reads it back.
  The bounded forms (\<open>%02d\<close>, \<open>%4d\<close>) of the date formats are here as well.
\<close>

section \<open>Printing\<close>

definition dec2 :: "nat \<Rightarrow> string" where
  \<comment> \<open>\<open>%02d\<close> of a number that is not negative\<close>
  "dec2 n = (if n < 10 then CHR ''0'' # dec_nat n else dec_nat n)"

lemma ord_digit: "(d :: nat) < 10 \<Longrightarrow> ord (char_of (48 + d)) = 48 + d"
  by simp

lemma isdigit_digit: "(d :: nat) < 10 \<Longrightarrow> isdigit (char_of (48 + d))"
  by (simp add: isdigit_def)

lemma dec_nat_digits: "c \<in> set (dec_nat n) \<Longrightarrow> isdigit c"
proof (induction n rule: dec_nat.induct)
  case (1 n)
  show ?case
  proof (cases "n < 10")
    case True
    with 1 show ?thesis by (subst (asm) (2) dec_nat.simps) (simp add: isdigit_digit)
  next
    case False
    with 1 show ?thesis by (subst (asm) (2) dec_nat.simps) (auto simp: isdigit_digit)
  qed
qed

lemma dec_nat_ne [simp]: "dec_nat n \<noteq> []"
  by (subst dec_nat.simps) simp

lemma isdigit_0 [simp]: "isdigit CHR ''0''"
  by (simp add: isdigit_def ord_def)

lemma dec2_digits: "c \<in> set (dec2 n) \<Longrightarrow> isdigit c"
  by (auto simp: dec2_def dest: dec_nat_digits split: if_splits)

lemma digit_not_space: "isdigit c \<Longrightarrow> \<not> isspace c"
  by (auto simp: isdigit_def isspace_def char_eq_ord) (simp add: ord_def)

lemma digit_not_sign: "isdigit c \<Longrightarrow> c \<noteq> CHR ''-'' \<and> c \<noteq> CHR ''+''"
  by (auto simp: isdigit_def ord_def)

lemma digits_not_NUL: "\<not> isdigit NUL"
  by (simp add: isdigit_def)

lemma dec_nat_cstr [simp]: "cstr (dec_nat n)"
  using dec_nat_digits digits_not_NUL by (auto simp: cstr_def)

section \<open>Reading\<close>

lemma fold_digits: "fold (\<lambda>c a. 10 * a + (ord c - 48)) ds a = a * 10 ^ length ds + digits_val ds"
proof (induction ds arbitrary: a)
  case (Cons d ds)
  have "fold (\<lambda>c a. 10 * a + (ord c - 48)) (d # ds) a = (10 * a + (ord d - 48)) * 10 ^ length ds + digits_val ds"
    using Cons by simp
  moreover have "digits_val (d # ds) = (ord d - 48) * 10 ^ length ds + digits_val ds"
    unfolding Cons [symmetric] by (simp add: digits_val_def)
  ultimately show ?case by (simp add: algebra_simps)
qed (simp add: digits_val_def)

lemma digits_val_append: "digits_val (a @ b) = digits_val a * 10 ^ length b + digits_val b"
  unfolding digits_val_def fold_append comp_def by (subst fold_digits) (simp add: digits_val_def)

lemma digits_val_dec_nat [simp]: "digits_val (dec_nat n) = n"
proof (induction n rule: dec_nat.induct)
  case (1 n)
  show ?case
  proof (cases "n < 10")
    case True
    then show ?thesis by (subst dec_nat.simps) (simp add: digits_val_def)
  next
    case False
    then have "digits_val (dec_nat n) = digits_val (dec_nat (n div 10)) * 10 + n mod 10"
      by (subst dec_nat.simps) (simp add: digits_val_append, simp add: digits_val_def)
    with 1 False show ?thesis by simp
  qed
qed

lemma digits_val_dec2 [simp]: "digits_val (dec2 n) = n"
proof -
  have "digits_val (CHR ''0'' # s) = digits_val s" for s by (simp add: digits_val_def ord_def)
  then show ?thesis by (simp add: dec2_def)
qed

lemma takeWhile_digits:
  assumes "\<And>c. c \<in> set ds \<Longrightarrow> isdigit c" and "r = [] \<or> \<not> isdigit (hd r)"
  shows "takeWhile isdigit (ds @ r) = ds"
  using assms by (cases r) (auto simp: takeWhile_append)

text \<open>What \<open>atoi\<close> makes of a string that starts with digits.\<close>

lemma atoi_digits:
  assumes ds: "\<And>c. c \<in> set ds \<Longrightarrow> isdigit c" and r: "r = [] \<or> \<not> isdigit (hd r)" and "ds \<noteq> []"
    and "digits_val ds < 2 ^ 31"
  shows "atoi (ds @ r) = int (digits_val ds)"
proof -
  from \<open>ds \<noteq> []\<close> obtain d ds' where d: "ds = d # ds'" by (cases ds) auto
  with ds have "isdigit d" by simp
  then have "dropWhile isspace (ds @ r) = ds @ r" "hd (ds @ r) \<noteq> CHR ''-''" "hd (ds @ r) \<noteq> CHR ''+''"
    using d digit_not_space digit_not_sign by auto
  with takeWhile_digits [OF ds r] assms(4) show ?thesis by (simp add: atoi_def Let_def clamp32_def)
qed

lemma atoi_dec_nat: "n < 2 ^ 31 \<Longrightarrow> r = [] \<or> \<not> isdigit (hd r) \<Longrightarrow> atoi (dec_nat n @ r) = int n"
  using atoi_digits [of "dec_nat n" r] dec_nat_digits by simp

lemma dec2_ne [simp]: "dec2 n \<noteq> []"
  by (simp add: dec2_def)

lemma atoi_dec2: "n < 2 ^ 31 \<Longrightarrow> r = [] \<or> \<not> isdigit (hd r) \<Longrightarrow> atoi (dec2 n @ r) = int n"
  using atoi_digits [of "dec2 n" r] dec2_digits by simp

section \<open>Lengths\<close>

lemma length_dec_nat:
  assumes "0 < k" shows "length (dec_nat n) \<le> k \<longleftrightarrow> n < 10 ^ k"
  using assms
proof (induction n arbitrary: k rule: dec_nat.induct)
  case (1 n)
  show ?case
  proof (cases "n < 10")
    case True
    then have "n < 10 ^ k" using 1(2) by (metis One_nat_def Suc_leI less_le_trans one_le_numeral power_increasing power_one_right)
    then show ?thesis using True 1(2) by (subst dec_nat.simps) simp
  next
    case False
    then have l: "length (dec_nat n) = length (dec_nat (n div 10)) + 1" by (subst dec_nat.simps) simp
    show ?thesis
    proof (cases "k = 1")
      case True
      then show ?thesis using l False by (simp add: Suc_le_eq)
    next
      case k: False
      with 1(2) obtain j where j: "k = Suc j" "0 < j" by (cases k) auto
      have "length (dec_nat (n div 10)) \<le> j \<longleftrightarrow> n div 10 < 10 ^ j" using 1(1) [OF False j(2)] .
      also have "\<dots> \<longleftrightarrow> n < 10 ^ j * 10" by (rule div_less_iff_less_mult) simp
      finally show ?thesis using l j by (simp add: mult.commute)
    qed
  qed
qed

lemma length_dec2: "n < 100 \<Longrightarrow> length (dec2 n) = 2"
proof -
  assume n: "n < 100"
  then have "length (dec_nat n) \<le> 2" using length_dec_nat [of 2 n] by simp
  moreover have "length (dec_nat n) \<le> 1 \<longleftrightarrow> n < 10" using length_dec_nat [of 1 n] by simp
  moreover have "0 < length (dec_nat n)" by simp
  ultimately show ?thesis by (cases "n < 10") (simp_all add: dec2_def del: length_greater_0_conv)
qed

end
