(* ===== verification/HttpFields.thy ===== *)
theory HttpFields
  imports HttpParse Decimal
begin

text \<open>
  The header fields with a structure of their own: byte ranges (\<^verbatim>\<open>squid-mybox/src/HttpHdrRange.c\<close>), content
  ranges (\<^verbatim>\<open>HttpHdrContRange.c\<close>), cache directives (\<^verbatim>\<open>HttpHdrCc.c\<close>) and entity tags (\<^verbatim>\<open>ETag.c\<close>): their
  parsers, printers and operations. The type \<open>squid_off_t\<close> has 64 bits, its arithmetic wraps around;
  \<open>size_t\<close> has 32. \<open>None\<close> as the result of an operation that returns something else than a pointer is a
  failed assertion.
\<close>

definition wrap64 :: "int \<Rightarrow> int" where
  "wrap64 i = (i + 2 ^ 63) mod 2 ^ 64 - 2 ^ 63"

definition size_min :: "int \<Rightarrow> int \<Rightarrow> int" where
  "size_min a b = (if a \<le> b then a else b)"

definition size_diff :: "int \<Rightarrow> int \<Rightarrow> int" where
  "size_diff a b = (if a \<ge> b then wrap64 (a - b) else 0)"

text \<open>What an item pointer of \<open>strListGetItem\<close> points to: the string from the item on.\<close>

definition item_text :: "string \<Rightarrow> string option \<Rightarrow> string" where
  "item_text str pos = dropWhile isspace (case pos of None \<Rightarrow> str | Some s \<Rightarrow> drop 1 s)"

section \<open>Byte ranges\<close>

record range_spec =
  offset :: int
  len :: int

definition range_spec_unknown :: int where
  "range_spec_unknown = - 1"

definition known_spec :: "int \<Rightarrow> bool" where
  "known_spec s \<longleftrightarrow> s \<noteq> range_spec_unknown"

definition httpHdrRangeSpecParseCreate :: "string \<Rightarrow> nat \<Rightarrow> range_spec option" where
  "httpHdrRangeSpecParseCreate field flen =
     (if flen < 2 then None
      else
        (case
          (if hd field = CHR ''-'' then
             (case httpHeaderParseSize (drop 1 field) of
                (ok, n) \<Rightarrow> if ok then Some \<lparr>offset = range_spec_unknown, len = n\<rparr> else None)
           else
             (case strchr field (CHR ''-'') of
                None \<Rightarrow> None
              | Some k \<Rightarrow>
                  (case httpHeaderParseSize field of
                     (ok, off) \<Rightarrow>
                       (if \<not> ok then None
                        else if k + 1 < flen then
                          (case httpHeaderParseSize (drop (k + 1) field) of
                             (ok, last_pos) \<Rightarrow>
                               if ok then Some \<lparr>offset = off, len = size_diff (wrap64 (last_pos + 1)) off\<rparr> else None)
                        else Some \<lparr>offset = off, len = range_spec_unknown\<rparr>))))
         of
           None \<Rightarrow> None
         | Some spec \<Rightarrow> if known_spec (len spec) \<and> len spec = 0 then None else Some spec))"

definition httpHdrRangeSpecPackInto :: "range_spec \<Rightarrow> string" where
  "httpHdrRangeSpecPackInto spec =
     (if \<not> known_spec (offset spec) then ''-'' @ dec_int (len spec)
      else if \<not> known_spec (len spec) then dec_int (offset spec) @ ''-''
      else dec_int (offset spec) @ ''-'' @ dec_int (wrap64 (offset spec + len spec - 1)))"

definition httpHdrRangeSpecCanonize :: "range_spec \<Rightarrow> int \<Rightarrow> (range_spec \<times> bool) option" where
  "httpHdrRangeSpecCanonize spec clen =
     (let spec = (if \<not> known_spec (offset spec) then spec\<lparr>offset := size_diff clen (len spec)\<rparr>
                  else if \<not> known_spec (len spec) then spec\<lparr>len := size_diff clen (offset spec)\<rparr>
                  else spec)
      in
      if \<not> known_spec (len spec) then None
      else if \<not> known_spec (offset spec) then None
      else
        (let spec = spec\<lparr>len := size_min (size_diff clen (offset spec)) (len spec)\<rparr>
         in Some (spec, len spec > 0)))"

text \<open>The merging of ranges is compiled out (\<open>MERGING_BREAKS_NOTHING\<close>), so it never takes place.\<close>

definition httpHdrRangeSpecMergeWith :: "range_spec \<Rightarrow> range_spec \<Rightarrow> bool" where
  "httpHdrRangeSpecMergeWith recep donor = False"

function range_items :: "string \<Rightarrow> string option \<Rightarrow> range_spec list" where
  "range_items str pos =
     (case strListGetItem str (CHR '','') pos of
        None \<Rightarrow> []
      | Some (item, rest) \<Rightarrow>
          (case httpHdrRangeSpecParseCreate (item_text str pos) (length item) of
             None \<Rightarrow> range_items str (Some rest)
           | Some spec \<Rightarrow> spec # range_items str (Some rest)))"
  by pat_completeness auto
termination by (relation "measure (\<lambda>(str, pos). pos_len str pos)") (auto dest!: strListGetItem_progress)

declare range_items.simps [simp del]

definition httpHdrRangeParseCreate :: "string \<Rightarrow> range_spec list option" where
  "httpHdrRangeParseCreate str =
     (if \<not> strcasecmp0 (take 6 str) ''bytes='' then None
      else (let specs = range_items str (Some (drop 5 str)) in if specs \<noteq> [] then Some specs else None))"

definition httpHdrRangeDup :: "range_spec list \<Rightarrow> range_spec list" where
  "httpHdrRangeDup specs = map (\<lambda>s. \<lparr>offset = offset s, len = len s\<rparr>) specs"

definition httpHdrRangePackInto :: "range_spec list \<Rightarrow> string" where
  \<comment> \<open>the position has been advanced by \<open>httpHdrRangeGetSpec\<close> when it is compared\<close>
  "httpHdrRangePackInto specs = concat (map (\<lambda>spec. '','' @ httpHdrRangeSpecPackInto spec) specs)"

fun canon_loop :: "range_spec list \<Rightarrow> int \<Rightarrow> range_spec list option" where
  "canon_loop [] clen = Some []"
| "canon_loop (spec # specs) clen =
     (case httpHdrRangeSpecCanonize spec clen of
        None \<Rightarrow> None
      | Some (spec, ok) \<Rightarrow>
          map_option (\<lambda>goods. if ok then spec # goods else goods) (canon_loop specs clen))"

function (sequential) merge_loop :: "range_spec list \<Rightarrow> range_spec list \<Rightarrow> range_spec list" where
  \<comment> \<open>the second argument is the stack, with its top at the head\<close>
  "merge_loop [] stack = rev stack"
| "merge_loop (spec # goods) [] = merge_loop goods [spec]"
| "merge_loop (spec # goods) (prev_spec # stack) =
     (if httpHdrRangeSpecMergeWith spec prev_spec then merge_loop (spec # goods) stack
      else merge_loop goods (spec # prev_spec # stack))"
  by pat_completeness auto
termination by (relation "measure (\<lambda>(goods, stack). 2 * length goods + length stack)") auto

definition httpHdrRangeCanonize :: "range_spec list \<Rightarrow> int \<Rightarrow> (range_spec list \<times> bool) option" where
  "httpHdrRangeCanonize specs clen =
     (if clen < 0 then None
      else map_option (\<lambda>goods. let r = merge_loop goods [] in (r, r \<noteq> [])) (canon_loop specs clen))"

fun complex_loop :: "range_spec list \<Rightarrow> int \<Rightarrow> bool" where
  "complex_loop [] off = False"
| "complex_loop (spec # specs) off =
     (if offset spec < off then True else complex_loop specs (wrap64 (offset spec + len spec)))"

definition httpHdrRangeIsComplex :: "range_spec list \<Rightarrow> bool" where
  "httpHdrRangeIsComplex specs = complex_loop specs 0"

fun will_be_complex_loop :: "range_spec list \<Rightarrow> int \<Rightarrow> bool" where
  "will_be_complex_loop [] off = False"
| "will_be_complex_loop (spec # specs) off =
     (if \<not> known_spec (offset spec) then will_be_complex_loop specs off
      else if offset spec < off then True
      else will_be_complex_loop specs
             (if known_spec (len spec) then wrap64 (offset spec + len spec) else offset spec))"

definition httpHdrRangeWillBeComplex :: "range_spec list \<Rightarrow> bool" where
  "httpHdrRangeWillBeComplex specs = will_be_complex_loop specs 0"

fun first_offset_loop :: "range_spec list \<Rightarrow> int \<Rightarrow> int" where
  "first_offset_loop [] off = off"
| "first_offset_loop (spec # specs) off =
     first_offset_loop specs (if offset spec < off \<or> \<not> known_spec off then offset spec else off)"

definition httpHdrRangeFirstOffset :: "range_spec list \<Rightarrow> int" where
  "httpHdrRangeFirstOffset specs = first_offset_loop specs range_spec_unknown"

fun lowest_offset_loop :: "range_spec list \<Rightarrow> int \<Rightarrow> int \<Rightarrow> int option" where
  \<comment> \<open>\<open>None\<close> is the early return of 0\<close>
  "lowest_offset_loop [] bodylen off = Some off"
| "lowest_offset_loop (spec # specs) bodylen off =
     (if \<not> known_spec (offset spec) \<and> (len spec > bodylen \<or> \<not> known_spec (len spec)) then None
      else
        (let current = (if \<not> known_spec (offset spec) then wrap64 (bodylen - len spec) else offset spec)
         in lowest_offset_loop specs bodylen (if current < off \<or> \<not> known_spec off then current else off)))"

definition httpHdrRangeLowestOffset :: "range_spec list \<Rightarrow> int \<Rightarrow> int" where
  "httpHdrRangeLowestOffset specs bodylen =
     (case lowest_offset_loop specs bodylen range_spec_unknown of
        None \<Rightarrow> 0
      | Some off \<Rightarrow> if known_spec off then off else 0)"

definition httpHdrRangeOffsetLimit :: "int \<Rightarrow> range_spec list option \<Rightarrow> bool" where
  \<comment> \<open>the first argument is \<open>Config.rangeOffsetLimit\<close>\<close>
  "httpHdrRangeOffsetLimit limit specs =
     (case specs of
        None \<Rightarrow> False
      | Some specs \<Rightarrow>
          (if limit = - 1 then False
           else if limit \<ge> httpHdrRangeFirstOffset specs then False else True))"

section \<open>Content ranges\<close>

text \<open>
  In this file the unknown position is \<open>(size_t)-1\<close>, which a \<open>squid_off_t\<close> holds as 4294967295. The total
  length is printed as a \<open>long\<close>.
\<close>

definition cr_unknown :: int where
  "cr_unknown = 2 ^ 32 - 1"

definition to_long :: "int \<Rightarrow> int" where
  "to_long i = (i + 2 ^ 31) mod 2 ^ 32 - 2 ^ 31"

record cont_range =
  cr_spec :: range_spec
  elength :: int

definition httpHdrRangeRespSpecParseInit :: "string \<Rightarrow> nat \<Rightarrow> range_spec option" where
  "httpHdrRangeRespSpecParseInit field flen =
     (if flen < 2 then None
      else if hd field = CHR ''*'' then Some \<lparr>offset = cr_unknown, len = cr_unknown\<rparr>
      else
        (case strchr field (CHR ''-'') of
           None \<Rightarrow> None
         | Some k \<Rightarrow>
             (if \<not> k < flen then None
              else
                (case httpHeaderParseSize field of
                   (ok, off) \<Rightarrow>
                     (if \<not> ok then None
                      else
                        (case
                          (if k + 1 < flen then
                             (case httpHeaderParseSize (drop (k + 1) field) of
                                (ok, last_pos) \<Rightarrow>
                                  if ok then Some \<lparr>offset = off, len = size_diff (wrap64 (last_pos + 1)) off\<rparr> else None)
                           else Some \<lparr>offset = off, len = cr_unknown\<rparr>)
                         of
                           None \<Rightarrow> None
                         | Some spec \<Rightarrow> if len spec \<noteq> cr_unknown \<and> len spec = 0 then None else Some spec))))))"

definition httpHdrRangeRespSpecPackInto :: "range_spec \<Rightarrow> string" where
  "httpHdrRangeRespSpecPackInto spec =
     (if offset spec = cr_unknown \<or> len spec = cr_unknown then ''*''
      else ''bytes '' @ dec_int (offset spec) @ ''-'' @ dec_int (wrap64 (offset spec + len spec - 1)))"

definition httpHdrContRangeParseCreate :: "string \<Rightarrow> cont_range option" where
  "httpHdrContRangeParseCreate str =
     (if \<not> strcasecmp0 (take 6 str) ''bytes '' then None
      else
        (let str = drop 6 str in
         case strchr str (CHR ''/'') of
           None \<Rightarrow> None
         | Some k \<Rightarrow>
             (case
               (if str \<noteq> [] \<and> hd str = CHR ''*'' then Some \<lparr>offset = cr_unknown, len = cr_unknown\<rparr>
                else httpHdrRangeRespSpecParseInit str k)
              of
                None \<Rightarrow> None
              | Some spec \<Rightarrow>
                  (let p = drop (k + 1) str in
                   if p \<noteq> [] \<and> hd p = CHR ''*'' then Some \<lparr>cr_spec = spec, elength = cr_unknown\<rparr>
                   else
                     (case httpHeaderParseSize p of
                        (ok, n) \<Rightarrow> if ok then Some \<lparr>cr_spec = spec, elength = n\<rparr> else None)))))"

definition httpHdrContRangeDup :: "cont_range \<Rightarrow> cont_range" where
  "httpHdrContRangeDup r = r"

definition httpHdrContRangePackInto :: "cont_range \<Rightarrow> string" where
  "httpHdrContRangePackInto r =
     httpHdrRangeRespSpecPackInto (cr_spec r) @
     (if elength r = cr_unknown then ''/*'' else ''/'' @ dec_int (to_long (elength r)))"

definition httpHdrContRangeSet :: "cont_range \<Rightarrow> range_spec \<Rightarrow> int \<Rightarrow> cont_range option" where
  "httpHdrContRangeSet cr spec ent_len =
     (if ent_len \<ge> 0 then Some (cr\<lparr>cr_spec := spec, elength := ent_len\<rparr>) else None)"

section \<open>Cache directives\<close>

datatype cc_type =
    CC_PUBLIC | CC_PRIVATE | CC_NO_CACHE | CC_NO_STORE | CC_NO_TRANSFORM | CC_MUST_REVALIDATE |
    CC_PROXY_REVALIDATE | CC_MAX_AGE | CC_S_MAXAGE | CC_MAX_STALE | CC_ONLY_IF_CACHED | CC_OTHER

text \<open>The table in the order of the types, as \<open>httpHeaderBuildFieldsInfo\<close> arranges it.\<close>

definition CcAttrs :: "(string \<times> cc_type \<times> unit) list" where
  "CcAttrs =
    [(''public'', CC_PUBLIC, ()), (''private'', CC_PRIVATE, ()), (''no-cache'', CC_NO_CACHE, ()),
     (''no-store'', CC_NO_STORE, ()), (''no-transform'', CC_NO_TRANSFORM, ()),
     (''must-revalidate'', CC_MUST_REVALIDATE, ()), (''proxy-revalidate'', CC_PROXY_REVALIDATE, ()),
     (''max-age'', CC_MAX_AGE, ()), (''s-maxage'', CC_S_MAXAGE, ()), (''max-stale'', CC_MAX_STALE, ()),
     (''only-if-cached'', CC_ONLY_IF_CACHED, ()), (''Other,'', CC_OTHER, ())]"

record http_cc =
  cc_mask :: "cc_type set"
  max_age :: int
  s_maxage :: int
  max_stale :: int
  other :: string

definition httpHdrCcCreate :: http_cc where
  "httpHdrCcCreate = \<lparr>cc_mask = {}, max_age = - 1, s_maxage = - 1, max_stale = - 1, other = []\<rparr>"

definition cc_int :: "string option \<Rightarrow> int option" where
  \<comment> \<open>\<open>p && httpHeaderParseInt(p, &v)\<close>\<close>
  "cc_int p = (case p of None \<Rightarrow> None | Some p \<Rightarrow> (case httpHeaderParseInt p of (ok, v) \<Rightarrow> if ok then Some v else None))"

text \<open>One item: its text without trailing white space, and the text from the item on.\<close>

definition cc_item :: "string \<Rightarrow> string \<Rightarrow> http_cc \<Rightarrow> http_cc" where
  "cc_item item rest cc =
     (let k = strchr item (CHR ''='');
          p = (case k of None \<Rightarrow> None | Some k \<Rightarrow> Some (drop (k + 1) rest));
          name = (case k of None \<Rightarrow> item | Some k \<Rightarrow> take k item);
          type = (case id_by_name_loop name CcAttrs of None \<Rightarrow> CC_OTHER | Some i \<Rightarrow> i)
      in
      if type \<in> cc_mask cc then cc
      else
        (let cc = cc\<lparr>cc_mask := insert type (cc_mask cc)\<rparr> in
         case type of
           CC_MAX_AGE \<Rightarrow>
             (case cc_int p of
                None \<Rightarrow> cc\<lparr>max_age := - 1, cc_mask := cc_mask cc - {type}\<rparr> | Some v \<Rightarrow> cc\<lparr>max_age := v\<rparr>)
         | CC_S_MAXAGE \<Rightarrow>
             (case cc_int p of
                None \<Rightarrow> cc\<lparr>s_maxage := - 1, cc_mask := cc_mask cc - {type}\<rparr> | Some v \<Rightarrow> cc\<lparr>s_maxage := v\<rparr>)
         | CC_MAX_STALE \<Rightarrow>
             (case cc_int p of None \<Rightarrow> cc\<lparr>max_stale := - 1\<rparr> | Some v \<Rightarrow> cc\<lparr>max_stale := v\<rparr>)
         | CC_OTHER \<Rightarrow> cc\<lparr>other := (if other cc \<noteq> [] then other cc @ '', '' else other cc) @ item\<rparr>
         | _ \<Rightarrow> cc))"

function cc_items :: "string \<Rightarrow> string option \<Rightarrow> http_cc \<Rightarrow> http_cc" where
  "cc_items str pos cc =
     (case strListGetItem str (CHR '','') pos of
        None \<Rightarrow> cc
      | Some (item, rest) \<Rightarrow> cc_items str (Some rest) (cc_item item (item_text str pos) cc))"
  by pat_completeness auto
termination by (relation "measure (\<lambda>(str, pos, cc). pos_len str pos)") (auto dest!: strListGetItem_progress)

declare cc_items.simps [simp del]

definition httpHdrCcParseCreate :: "string \<Rightarrow> http_cc option" where
  "httpHdrCcParseCreate str =
     (let cc = cc_items str None httpHdrCcCreate in if cc_mask cc \<noteq> {} then Some cc else None)"

definition httpHdrCcDup :: "http_cc \<Rightarrow> http_cc" where
  "httpHdrCcDup cc =
     httpHdrCcCreate\<lparr>cc_mask := cc_mask cc, max_age := max_age cc, s_maxage := s_maxage cc, max_stale := max_stale cc\<rparr>"

definition cc_option :: "http_cc \<Rightarrow> string \<times> cc_type \<times> unit \<Rightarrow> string" where
  "cc_option cc f =
     (case f of (name, flag, u) \<Rightarrow>
        name @
        (if flag = CC_MAX_AGE then ''='' @ dec_int (max_age cc) else []) @
        (if flag = CC_S_MAXAGE then ''='' @ dec_int (s_maxage cc) else []) @
        (if flag = CC_MAX_STALE then ''='' @ dec_int (max_stale cc) else []))"

fun cc_pack_loop :: "http_cc \<Rightarrow> (string \<times> cc_type \<times> unit) list \<Rightarrow> nat \<Rightarrow> string \<Rightarrow> string \<times> nat" where
  "cc_pack_loop cc [] pcount p = (p, pcount)"
| "cc_pack_loop cc ((name, flag, u) # fs) pcount p =
     (if flag \<in> cc_mask cc \<and> flag \<noteq> CC_OTHER then
        cc_pack_loop cc fs (pcount + 1) (p @ (if pcount > 0 then '', '' else []) @ cc_option cc (name, flag, u))
      else cc_pack_loop cc fs pcount p)"

definition httpHdrCcPackInto :: "http_cc \<Rightarrow> string" where
  "httpHdrCcPackInto cc =
     (case cc_pack_loop cc CcAttrs 0 [] of
        (p, pcount) \<Rightarrow>
          (if other cc \<noteq> [] then p @ (if pcount > 0 then '', '' else []) @ other cc else p))"

definition httpHdrCcJoinWith :: "http_cc \<Rightarrow> http_cc \<Rightarrow> http_cc" where
  "httpHdrCcJoinWith cc new_cc =
     cc\<lparr>max_age := (if max_age cc < 0 then max_age new_cc else max_age cc),
        s_maxage := (if s_maxage cc < 0 then s_maxage new_cc else s_maxage cc),
        max_stale := (if max_stale cc < 0 then max_stale new_cc else max_stale cc),
        cc_mask := cc_mask cc \<union> cc_mask new_cc\<rparr>"

definition httpHdrCcSetMaxAge :: "http_cc \<Rightarrow> int \<Rightarrow> http_cc" where
  "httpHdrCcSetMaxAge cc age =
     cc\<lparr>max_age := age, cc_mask := (if age \<ge> 0 then insert CC_MAX_AGE (cc_mask cc) else cc_mask cc - {CC_MAX_AGE})\<rparr>"

definition httpHdrCcSetSMaxAge :: "http_cc \<Rightarrow> int \<Rightarrow> http_cc" where
  "httpHdrCcSetSMaxAge cc age =
     cc\<lparr>s_maxage := age, cc_mask := (if age \<ge> 0 then insert CC_S_MAXAGE (cc_mask cc) else cc_mask cc - {CC_S_MAXAGE})\<rparr>"

section \<open>Entity tags\<close>

record etag =
  weak :: bool
  tag_str :: cptr

definition etagParseInit :: "string \<Rightarrow> etag" where
  "etagParseInit str =
     (let weak = strncmp0 str ''W/'' 2; str = (if weak then drop 2 str else str) in
      if length str \<ge> 2 \<and> hd str = CHR 0x22 \<and> last str = CHR 0x22 then \<lparr>weak = weak, tag_str = Some str\<rparr>
      else \<lparr>weak = weak, tag_str = None\<rparr>)"

definition etagIsEqual :: "etag \<Rightarrow> etag \<Rightarrow> bool option" where
  \<comment> \<open>\<open>None\<close> also for a NULL string, which \<open>strcmp\<close> would read\<close>
  "etagIsEqual tag1 tag2 =
     (if weak tag1 \<or> weak tag2 then None
      else (case (tag_str tag1, tag_str tag2) of (Some a, Some b) \<Rightarrow> Some (a = b) | _ \<Rightarrow> None))"

section \<open>What a range asks for\<close>

text \<open>
  What the parser delivers: a suffix has an unknown offset, a trailer an unknown length. A suffix length
  may be negative, and then even the value that stands for an unknown length.
\<close>

definition parsed_spec :: "range_spec \<Rightarrow> bool" where
  "parsed_spec s \<longleftrightarrow>
     (offset s = - 1 \<and> len s \<noteq> 0 \<and> - (2 ^ 63) \<le> len s \<and> len s < 2 ^ 63) \<or>
     (0 \<le> offset s \<and> offset s < 2 ^ 63 \<and> (len s = - 1 \<or> (0 < len s \<and> offset s + len s < 2 ^ 63)))"

definition spec_bytes :: "range_spec \<Rightarrow> int set" where
  "spec_bytes s = {offset s ..< offset s + len s}"

definition wanted :: "int \<Rightarrow> range_spec \<Rightarrow> int set" where
  \<comment> \<open>the bytes of a body of \<open>clen\<close> bytes that a specification asks for\<close>
  "wanted clen s =
     (if offset s = - 1 then {max 0 (clen - len s) ..< clen}
      else if len s = - 1 then {offset s ..< clen}
      else {offset s ..< min clen (offset s + len s)})"

definition within :: "int \<Rightarrow> range_spec \<Rightarrow> bool" where
  "within clen s \<longleftrightarrow> 0 \<le> offset s \<and> 0 < len s \<and> offset s + len s \<le> clen"

definition no_spec :: "range_spec \<Rightarrow> bool" where
  "no_spec s \<longleftrightarrow> offset s = - 1 \<and> len s = - 1"

lemma wrap64_id: "- (2 ^ 63) \<le> i \<Longrightarrow> i < 2 ^ 63 \<Longrightarrow> wrap64 i = i"
  by (simp add: wrap64_def)

lemma wrap64_over: "2 ^ 63 \<le> i \<Longrightarrow> i < 3 * 2 ^ 63 \<Longrightarrow> wrap64 i = i - 2 ^ 64"
proof -
  assume a: "2 ^ 63 \<le> i" "i < 3 * 2 ^ 63"
  then have "(i + 2 ^ 63) mod 2 ^ 64 = (i + 2 ^ 63 - 2 ^ 64) mod 2 ^ 64" by (metis minus_mod_self2)
  also have "\<dots> = i + 2 ^ 63 - 2 ^ 64" using a by (intro mod_pos_pos_trivial) auto
  finally show ?thesis by (simp add: wrap64_def)
qed

lemma strtoll_bounds: "strtoll s = Some v \<Longrightarrow> - (2 ^ 63) \<le> v \<and> v < 2 ^ 63"
  by (auto simp: strtoll_def Let_def split: if_splits)

lemma strtoll_nonneg: "strtoll s = Some v \<Longrightarrow> s \<noteq> [] \<Longrightarrow> \<not> isspace (hd s) \<Longrightarrow> hd s \<noteq> CHR ''-'' \<Longrightarrow> 0 \<le> v"
  by (cases s) (auto simp: strtoll_def Let_def split: if_splits)

lemma parse_size: "httpHeaderParseSize s = (ok, v) \<Longrightarrow> ok \<Longrightarrow> strtoll s = Some v"
  by (auto simp: httpHeaderParseSize_def split: option.splits)

lemma spec_parsed:
  assumes "httpHdrRangeSpecParseCreate field flen = Some s" "field \<noteq> []" "\<not> isspace (hd field)"
  shows "parsed_spec s"
proof (cases "hd field = CHR ''-''")
  case True
  with assms obtain v where "strtoll (drop 1 field) = Some v" "s = \<lparr>offset = - 1, len = v\<rparr>" "v \<noteq> 0 \<or> v = - 1"
    by (auto simp: httpHdrRangeSpecParseCreate_def range_spec_unknown_def known_spec_def httpHeaderParseSize_def
        split: if_splits option.splits prod.splits)
  then show ?thesis using strtoll_bounds [of "drop 1 field" v] by (auto simp: parsed_spec_def)
next
  case False
  obtain k off where k: "strchr field (CHR ''-'') = Some k" and off: "strtoll field = Some off"
    and c: "s = \<lparr>offset = off, len = - 1\<rparr> \<or>
        (\<exists>l. strtoll (drop (k + 1) field) = Some l \<and>
             s = \<lparr>offset = off, len = size_diff (wrap64 (l + 1)) off\<rparr> \<and> size_diff (wrap64 (l + 1)) off \<noteq> 0)"
    using assms(1) False
    by (auto simp: httpHdrRangeSpecParseCreate_def range_spec_unknown_def known_spec_def httpHeaderParseSize_def
        split: if_splits option.splits prod.splits)
  have off0: "0 \<le> off" "off < 2 ^ 63"
    using strtoll_nonneg [OF off assms(2,3) False] strtoll_bounds [OF off] by auto
  show ?thesis
  proof (cases "s = \<lparr>offset = off, len = - 1\<rparr>")
    case True
    with off0 show ?thesis by (simp add: parsed_spec_def)
  next
    case False
    with c obtain l where l: "strtoll (drop (k + 1) field) = Some l"
      and s: "s = \<lparr>offset = off, len = size_diff (wrap64 (l + 1)) off\<rparr>" and d: "size_diff (wrap64 (l + 1)) off \<noteq> 0" by auto
    have b: "- (2 ^ 63) \<le> l" "l < 2 ^ 63" using strtoll_bounds [OF l] by auto
    have "l + 1 < 2 ^ 63"
    proof (rule ccontr)
      assume "\<not> l + 1 < 2 ^ 63"
      then have "l + 1 = 2 ^ 63" using b by simp
      then have "wrap64 (l + 1) < off" using wrap64_over [of "l + 1"] off0 by simp
      with d show False by (simp add: size_diff_def)
    qed
    with b have w: "wrap64 (l + 1) = l + 1" by (intro wrap64_id) auto
    with d have "off \<le> l + 1" by (auto simp: size_diff_def split: if_splits)
    moreover from this off0 b \<open>l + 1 < 2 ^ 63\<close> have "wrap64 (l + 1 - off) = l + 1 - off" by (intro wrap64_id) auto
    ultimately show ?thesis using d s w off0 b \<open>l + 1 < 2 ^ 63\<close> by (auto simp: size_diff_def parsed_spec_def)
  qed
qed

lemma item_text_item:
  assumes "strListGetItem str del pos = Some (item, rest)"
  shows "item_text str pos \<noteq> []" "\<not> isspace (hd (item_text str pos))"
proof -
  from assms obtain s where s: "(case pos of None \<Rightarrow> Some str | Some [] \<Rightarrow> None | Some (c # s) \<Rightarrow> Some s) = Some s"
    and i: "rtrim_ws (take (list_scan del False (dropWhile isspace s)) (dropWhile isspace s)) \<noteq> []"
    by (auto simp: strListGetItem_def Let_def split: option.splits if_splits)
  from s have t: "item_text str pos = dropWhile isspace s"
    by (auto simp: item_text_def split: option.splits list.splits)
  from i show "item_text str pos \<noteq> []" unfolding t by (intro notI) (simp add: rtrim_ws_def del: dropWhile_eq_Nil_conv)
  then show "\<not> isspace (hd (item_text str pos))" unfolding t by (rule hd_dropWhile)
qed

lemma range_items_parsed: "s \<in> set (range_items str pos) \<Longrightarrow> parsed_spec s"
proof (induction str pos rule: range_items.induct)
  case (1 str pos)
  show ?case
  proof (cases "strListGetItem str (CHR '','') pos")
    case None
    with 1(3) show ?thesis by (simp add: range_items.simps [of str pos])
  next
    case (Some ir)
    obtain item rest where ir: "ir = (item, rest)" by (cases ir)
    note g = Some [unfolded ir]
    from 1(3) g have "s \<in> set (range_items str (Some rest)) \<or>
        httpHdrRangeSpecParseCreate (item_text str pos) (length item) = Some s"
      by (auto simp: range_items.simps [of str pos] split: option.splits)
    then show ?thesis
    proof
      assume a: "s \<in> set (range_items str (Some rest))"
      show ?thesis
      proof (cases "httpHdrRangeSpecParseCreate (item_text str pos) (length item)")
        case None
        from 1(1) [OF g refl None a] show ?thesis .
      next
        case (Some x)
        from 1(2) [OF g refl Some a] show ?thesis .
      qed
    qed (rule spec_parsed [OF _ item_text_item [OF g]])
  qed
qed

lemma canonize_spec:
  assumes s: "parsed_spec s" and clen: "0 \<le> clen" "clen < 2 ^ 63 - 1"
  shows "case httpHdrRangeSpecCanonize s clen of
           None \<Rightarrow> no_spec s
         | Some (s', ok) \<Rightarrow>
             \<not> no_spec s \<and>
             (if ok then spec_bytes s' = wanted clen s \<and> within clen s' else wanted clen s = {})"
proof -
  note simps = httpHdrRangeSpecCanonize_def Let_def known_spec_def range_spec_unknown_def wanted_def spec_bytes_def
    within_def no_spec_def size_min_def
  have d: "size_diff clen b = max 0 (clen - b)" if "0 \<le> b" "b < 2 ^ 63" for b
    using that clen by (auto simp: size_diff_def wrap64_id)
  consider "offset s = - 1" "len s = - 1" | "offset s = - 1" "len s < - 1" "- (2 ^ 63) \<le> len s"
    | "offset s = - 1" "0 < len s" "len s < 2 ^ 63"
    | "0 \<le> offset s" "offset s < 2 ^ 63" "len s = - 1"
    | "0 \<le> offset s" "offset s < 2 ^ 63" "0 < len s" "offset s + len s < 2 ^ 63"
    using s unfolding parsed_spec_def by linarith
  then show ?thesis
  proof cases
    case 2
    have "size_diff clen (len s) \<noteq> - 1"
    proof (cases "clen - len s < 2 ^ 63")
      case True
      with 2 clen have "wrap64 (clen - len s) = clen - len s" by (intro wrap64_id) auto
      with 2 clen show ?thesis by (simp add: size_diff_def)
    next
      case False
      with 2 clen have "wrap64 (clen - len s) = clen - len s - 2 ^ 64" by (intro wrap64_over) auto
      with 2 clen show ?thesis by (simp add: size_diff_def)
    qed
    with 2 clen show ?thesis by (auto simp: simps)
  next
    case 3
    with clen d show ?thesis by (auto simp: simps)
  next
    case 4
    with clen d show ?thesis by (auto simp: simps)
  next
    case 5
    with clen d show ?thesis by (auto simp: simps)
  qed (simp add: simps)
qed

lemma canon_loop_spec:
  assumes "\<forall>s \<in> set specs. parsed_spec s" and "0 \<le> clen" "clen < 2 ^ 63 - 1"
  shows "case canon_loop specs clen of
           None \<Rightarrow> (\<exists>s \<in> set specs. no_spec s)
         | Some goods \<Rightarrow>
             (\<forall>s \<in> set specs. \<not> no_spec s) \<and> list_all (within clen) goods \<and>
             map spec_bytes goods = filter (\<lambda>b. b \<noteq> {}) (map (wanted clen) specs)"
  using assms(1)
proof (induction specs)
  case (Cons s specs)
  have c: "case httpHdrRangeSpecCanonize s clen of
           None \<Rightarrow> no_spec s
         | Some (s', ok) \<Rightarrow>
             \<not> no_spec s \<and>
             (if ok then spec_bytes s' = wanted clen s \<and> within clen s' else wanted clen s = {})"
    using Cons.prems by (intro canonize_spec assms) simp
  show ?case
  proof (cases "httpHdrRangeSpecCanonize s clen")
    case None
    with c show ?thesis by simp
  next
    case (Some r)
    obtain s' ok where r: "r = (s', ok)" by (cases r)
    have w: "within clen s' \<Longrightarrow> spec_bytes s' \<noteq> {}" by (simp add: within_def spec_bytes_def)
    have ih: "case canon_loop specs clen of
           None \<Rightarrow> (\<exists>s \<in> set specs. no_spec s)
         | Some goods \<Rightarrow>
             (\<forall>s \<in> set specs. \<not> no_spec s) \<and> list_all (within clen) goods \<and>
             map spec_bytes goods = filter (\<lambda>b. b \<noteq> {}) (map (wanted clen) specs)"
      using Cons.prems by (intro Cons.IH) simp
    from c Some r w ih show ?thesis by (cases "canon_loop specs clen") (auto split: if_splits)
  qed
qed simp

lemma merge_loop_append: "merge_loop goods stack = rev stack @ goods"
  by (induction goods stack rule: merge_loop.induct) (auto simp: httpHdrRangeSpecMergeWith_def)

text \<open>Ranges in strong order do not overlap, so together they are not longer than the body.\<close>

lemma simple_total:
  assumes "\<not> complex_loop specs off" "list_all (within clen) specs" "off \<le> clen" "clen < 2 ^ 63"
  shows "off + sum_list (map len specs) \<le> clen \<and> (\<forall>s \<in> set specs. off \<le> offset s) \<and>
         sorted_wrt (\<lambda>s t. offset s + len s \<le> offset t) specs"
  using assms(1-3)
proof (induction specs arbitrary: off)
  case (Cons s specs)
  from Cons.prems have w: "within clen s" by simp
  with assms(4) have "wrap64 (offset s + len s) = offset s + len s" by (intro wrap64_id) (auto simp: within_def)
  with Cons.prems have "offset s \<ge> off" "\<not> complex_loop specs (offset s + len s)" "list_all (within clen) specs"
    by (auto split: if_splits)
  moreover from w have "offset s + len s \<le> clen" "0 < len s" by (auto simp: within_def)
  moreover note Cons.IH [of "offset s + len s"]
  ultimately show ?case by auto
qed simp

text \<open>
  C32. What becomes of the Range field of a request. Whatever its value, when it has been parsed and the
  length of the body is known, the canonical ranges are those that the specifications ask for, cut to the
  body, in the same order and without the empty ones; each lies inside the body, and ranges that are not
  \<open>complex\<close> do not overlap and are together not longer than the body. The one exception are fields with a
  suffix of length -1: for them the assertion of \<open>httpHdrRangeSpecCanonize\<close> fails.
\<close>

theorem ranges_canonized:
  assumes "httpHdrRangeParseCreate str = Some specs" and "0 \<le> clen" "clen < 2 ^ 63 - 1"
  shows "case httpHdrRangeCanonize specs clen of
           None \<Rightarrow> (\<exists>s \<in> set specs. no_spec s)
         | Some (goods, ok) \<Rightarrow>
             (\<forall>s \<in> set specs. \<not> no_spec s) \<and> (ok \<longleftrightarrow> goods \<noteq> []) \<and> list_all (within clen) goods \<and>
             map spec_bytes goods = filter (\<lambda>b. b \<noteq> {}) (map (wanted clen) specs) \<and>
             (\<not> httpHdrRangeIsComplex goods \<longrightarrow>
                sorted_wrt (\<lambda>s t. offset s + len s \<le> offset t) goods \<and> sum_list (map len goods) \<le> clen)"
proof -
  from assms(1) have "specs = range_items str (Some (drop 5 str))"
    by (auto simp: httpHdrRangeParseCreate_def Let_def split: if_splits)
  then have "\<forall>s \<in> set specs. parsed_spec s" using range_items_parsed by blast
  from canon_loop_spec [OF this assms(2,3)] show ?thesis
    using simple_total [of _ 0 clen] assms(2,3)
    by (cases "canon_loop specs clen")
       (auto simp: httpHdrRangeCanonize_def merge_loop_append httpHdrRangeIsComplex_def)
qed

theorem ranges_canonized_witness:
  "case httpHdrRangeCanonize [\<lparr>offset = 0, len = 5\<rparr>, \<lparr>offset = - 1, len = 7\<rparr>, \<lparr>offset = 200, len = - 1\<rparr>] 100 of
     None \<Rightarrow> False
   | Some (goods, ok) \<Rightarrow> map spec_bytes goods = filter (\<lambda>b. b \<noteq> {}) [{0..<5}, {93..<100}, {200..<100}]"
proof -
  have "httpHdrRangeParseCreate ''bytes=0-4, -7,200-'' =
      Some [\<lparr>offset = 0, len = 5\<rparr>, \<lparr>offset = - 1, len = 7\<rparr>, \<lparr>offset = 200, len = - 1\<rparr>]"
    by code_simp
  from ranges_canonized [OF this, of 100] show ?thesis
    by (auto simp: wanted_def no_spec_def split: option.splits)
qed

text \<open>Any client can make the proxy abort with such a field.\<close>

lemma range_suffix_aborts:
  "httpHdrRangeParseCreate ''bytes=--1'' = Some [\<lparr>offset = - 1, len = - 1\<rparr>]"
  "0 \<le> clen \<Longrightarrow> httpHdrRangeCanonize [\<lparr>offset = - 1, len = - 1\<rparr>] clen = None"
  by code_simp (simp add: httpHdrRangeCanonize_def httpHdrRangeSpecCanonize_def known_spec_def range_spec_unknown_def)

text \<open>
  The search for the minus sign is not bounded by the item, and the printer starts with a comma and
  leaves out the unit.
\<close>

lemma range_minus_of_another_item:
  "httpHdrRangeParseCreate ''bytes=55,3-4'' = Some [\<lparr>offset = 55, len = - 1\<rparr>, \<lparr>offset = 3, len = 2\<rparr>]"
  by code_simp

lemma range_packed:
  "httpHdrRangePackInto [\<lparr>offset = 0, len = 5\<rparr>] = '',0-4''"
  "httpHdrRangeParseCreate '',0-4'' = None"
  by (simp add: httpHdrRangePackInto_def httpHdrRangeSpecPackInto_def known_spec_def range_spec_unknown_def dec_int_def
      dec_nat.simps [of 0] dec_nat.simps [of 4] wrap64_def char_of_def bit_0)
     (simp add: httpHdrRangeParseCreate_def strcasecmp0_def)

end
