(* ===== verification/FieldText.thy ===== *)
theory FieldText
  imports HttpFields
begin

text \<open>
  Reading back printed fields: the Cache-Control directives of a message that the proxy parses and prints
  again (\<^verbatim>\<open>squid-mybox/src/HttpHdrCc.c\<close>, with the list items of \<^verbatim>\<open>HttpHeaderTools.c\<close>), and content ranges
  (\<^verbatim>\<open>HttpHdrContRange.c\<close>).
\<close>

section \<open>Lists of items\<close>

text \<open>
  Items as they come out of \<open>strListGetItem\<close>, and what it makes of a list that is printed from items.
\<close>

definition trimmed :: "string \<Rightarrow> bool" where
  "trimmed s \<longleftrightarrow> s \<noteq> [] \<and> \<not> isspace (hd s) \<and> \<not> isspace (last s)"

definition plain :: "string \<Rightarrow> bool" where
  "plain s \<longleftrightarrow> CHR '','' \<notin> set s \<and> CHR 0x22 \<notin> set s"

fun joined :: "string list \<Rightarrow> string" where
  "joined [] = []"
| "joined [x] = x"
| "joined (x # y # zs) = x @ CHR '','' # CHR '' '' # joined (y # zs)"

lemma list_scan_take: "j \<le> list_scan del q s \<Longrightarrow> list_scan del q (take j s) = j"
proof (induction del q s arbitrary: j rule: list_scan.induct)
  case (2 del q c s)
  show ?case
  proof (cases j)
    case (Suc i)
    show ?thesis
    proof (cases "q \<and> c = CHR 0x5C")
      case True
      then show ?thesis using 2 Suc by (cases i; cases s) auto
    next
      case False
      then show ?thesis using 2 Suc by (auto split: if_splits)
    qed
  qed simp
qed simp

lemma list_scan_plain:
  "plain s \<Longrightarrow> list_scan (CHR '','') False (s @ r) = length s + list_scan (CHR '','') False r"
  by (induction s) (auto simp: plain_def)

lemma rtrim_trimmed: "trimmed s \<Longrightarrow> rtrim_ws s = s"
  by (cases s rule: rev_cases) (auto simp: trimmed_def rtrim_ws_def)

lemma ltrim_trimmed: "trimmed s \<Longrightarrow> dropWhile isspace (s @ r) = s @ r"
  by (cases s) (auto simp: trimmed_def)

lemma rtrim_prefix: "\<exists>k \<le> length s. rtrim_ws s = take k s"
proof -
  have "rev (dropWhile isspace (rev s)) = take (length (dropWhile isspace (rev s))) s"
    by (metis append_eq_conv_conj length_rev rev_append rev_rev_ident takeWhile_dropWhile_id)
  moreover have "length (dropWhile isspace (rev s)) \<le> length s"
    using length_dropWhile_le [of isspace "rev s"] by simp
  ultimately show ?thesis unfolding rtrim_ws_def by blast
qed

lemma rtrim_last: "rtrim_ws s \<noteq> [] \<Longrightarrow> \<not> isspace (last (rtrim_ws s))"
  unfolding rtrim_ws_def by (metis Nil_is_rev_conv hd_dropWhile last_rev)

lemma list_scan_le: "list_scan del q s \<le> length s"
proof (induction del q s rule: list_scan.induct)
  case (2 del q c s)
  show ?case
  proof (cases "q \<and> c = CHR 0x5C")
    case True
    then show ?thesis using 2 by (cases s) auto
  next
    case False
    then show ?thesis using 2 by auto
  qed
qed simp

lemma item_start:
  "strListGetItem str del pos = Some (item, rest) \<Longrightarrow>
     item_text str pos = dropWhile isspace (case pos of None \<Rightarrow> str | Some s \<Rightarrow> drop 1 s) \<and>
     item = rtrim_ws (take (list_scan del False (item_text str pos)) (item_text str pos)) \<and> item \<noteq> [] \<and>
     rest = drop (list_scan del False (item_text str pos)) (item_text str pos)"
  by (auto simp: strListGetItem_def item_text_def Let_def split: option.splits list.splits if_splits)

lemma item_trimmed:
  assumes "strListGetItem str del pos = Some (item, rest)"
  shows "trimmed item" "list_scan del False item = length item"
proof -
  let ?s = "item_text str pos"
  let ?k = "list_scan del False ?s"
  from item_start [OF assms] have i: "item = rtrim_ws (take ?k ?s)" "item \<noteq> []" by auto
  obtain j where j: "j \<le> length (take ?k ?s)" "item = take j (take ?k ?s)" using rtrim_prefix i(1) by metis
  then have it: "item = take j ?s" "j \<le> ?k" by auto
  with i(2) have "hd item = hd ?s" by (cases j; cases ?s) auto
  then show "trimmed item"
    using item_text_item [OF assms] i rtrim_last by (auto simp: trimmed_def)
  have "length item = j" using it list_scan_le [of del False ?s] by simp
  then show "list_scan del False item = length item" using it list_scan_take by metis
qed

lemma getitem_start:
  assumes "trimmed item" "list_scan (CHR '','') False (item @ r) = length item"
    and "pos = None \<and> str = item @ r \<or> pos = Some (CHR '','' # item @ r) \<or> pos = Some (CHR '','' # CHR '' '' # item @ r)"
  shows "strListGetItem str (CHR '','') pos = Some (item, r) \<and> item_text str pos = item @ r"
proof -
  have "isspace CHR '' ''" by (simp add: isspace_def)
  with assms show ?thesis
    by (auto simp: strListGetItem_def item_text_def Let_def ltrim_trimmed rtrim_trimmed trimmed_def)
qed

section \<open>Reading a list of directives\<close>

text \<open>What \<open>cc_items\<close> does with a printed list: each item is read together with the text from it on.\<close>

fun cc_go :: "string list \<Rightarrow> http_cc \<Rightarrow> http_cc" where
  "cc_go [] cc = cc"
| "cc_go (x # xs) cc = cc_go xs (cc_item x (joined (x # xs)) cc)"

fun readable :: "string list \<Rightarrow> bool" where
  \<comment> \<open>only the last item may have quoted commas\<close>
  "readable [] = True"
| "readable [x] \<longleftrightarrow> trimmed x \<and> list_scan (CHR '','') False x = length x"
| "readable (x # y # zs) \<longleftrightarrow> trimmed x \<and> plain x \<and> readable (y # zs)"

lemma cc_items_end: "cc_items str (Some []) cc = cc"
  by (subst cc_items.simps) (simp add: strListGetItem_def)

lemma cc_items_joined:
  assumes "readable (x # xs)"
    and "pos = None \<and> str = joined (x # xs) \<or> pos = Some (CHR '','' # CHR '' '' # joined (x # xs))"
  shows "cc_items str pos cc = cc_go (x # xs) cc"
  using assms
proof (induction xs arbitrary: x pos cc)
  case Nil
  then have "strListGetItem str (CHR '','') pos = Some (x, []) \<and> item_text str pos = x"
    using getitem_start [of x "[]" pos str] by auto
  then show ?case by (subst cc_items.simps) (simp add: cc_items_end)
next
  case (Cons y zs)
  let ?r = "CHR '','' # CHR '' '' # joined (y # zs)"
  have "list_scan (CHR '','') False (x @ ?r) = length x" using Cons.prems(1) by (simp add: list_scan_plain)
  then have "strListGetItem str (CHR '','') pos = Some (x, ?r) \<and> item_text str pos = x @ ?r"
    using Cons.prems getitem_start [of x ?r pos str] by auto
  then have "cc_items str pos cc = cc_items str (Some ?r) (cc_item x (x @ ?r) cc)" by (subst cc_items.simps) simp
  also have "\<dots> = cc_go (y # zs) (cc_item x (x @ ?r) cc)" using Cons.prems(1) by (intro Cons.IH) auto
  finally show ?case by simp
qed

section \<open>What is printed\<close>

definition ctype :: "string \<times> cc_type \<times> unit \<Rightarrow> cc_type" where
  "ctype f = fst (snd f)"

lemma ctype_simp [simp]: "ctype (n, t, u) = t"
  by (simp add: ctype_def)

definition cc_flags :: "http_cc \<Rightarrow> (string \<times> cc_type \<times> unit) list" where
  "cc_flags cc = filter (\<lambda>f. ctype f \<in> cc_mask cc \<and> ctype f \<noteq> CC_OTHER) CcAttrs"

lemma joined_snoc: "joined (xs @ [y]) = (if xs = [] then y else joined xs @ '', '' @ y)"
  by (induction xs rule: joined.induct) auto

lemma cc_pack_loop_eq:
  "cc_pack_loop cc fs (length xs) (joined xs) =
     (joined (xs @ map (cc_option cc) (filter (\<lambda>f. ctype f \<in> cc_mask cc \<and> ctype f \<noteq> CC_OTHER) fs)),
      length (xs @ map (cc_option cc) (filter (\<lambda>f. ctype f \<in> cc_mask cc \<and> ctype f \<noteq> CC_OTHER) fs)))"
proof (induction fs arbitrary: xs)
  case (Cons f fs)
  obtain n t u where f: "f = (n, t, u)" by (cases f)
  have "joined xs @ (if length xs > 0 then '', '' else []) @ cc_option cc f = joined (xs @ [cc_option cc f])"
    using joined_snoc [of xs "cc_option cc f"] by (cases "xs = []") simp_all
  then show ?case using Cons.IH [of "xs @ [cc_option cc f]"] Cons.IH [of xs] by (simp add: f)
qed simp

lemma packed_cc:
  "httpHdrCcPackInto cc = joined (map (cc_option cc) (cc_flags cc) @ (if other cc = [] then [] else [other cc]))"
proof -
  let ?xs = "map (cc_option cc) (cc_flags cc)"
  have "cc_pack_loop cc CcAttrs 0 [] = (joined ?xs, length ?xs)"
    using cc_pack_loop_eq [of cc CcAttrs "[]"] by (simp add: cc_flags_def)
  then show ?thesis by (auto simp: httpHdrCcPackInto_def joined_snoc)
qed

section \<open>Directives\<close>

definition directive_type :: "string \<Rightarrow> cc_type" where
  "directive_type item =
     (case id_by_name_loop (case strchr item (CHR ''='') of None \<Rightarrow> item | Some k \<Rightarrow> take k item) CcAttrs of
        None \<Rightarrow> CC_OTHER | Some i \<Rightarrow> i)"

text \<open>The well-formed values: those that the parser delivers.\<close>

definition cc_value :: "int \<Rightarrow> bool" where
  "cc_value v \<longleftrightarrow> - (2 ^ 31) \<le> v \<and> v < 2 ^ 31"

definition cc_ok :: "http_cc \<Rightarrow> bool" where
  "cc_ok cc \<longleftrightarrow>
     (if CC_MAX_AGE \<in> cc_mask cc then cc_value (max_age cc) else max_age cc = - 1) \<and>
     (if CC_S_MAXAGE \<in> cc_mask cc then cc_value (s_maxage cc) else s_maxage cc = - 1) \<and>
     (if CC_MAX_STALE \<in> cc_mask cc then cc_value (max_stale cc) else max_stale cc = - 1) \<and>
     (if CC_OTHER \<in> cc_mask cc
      then trimmed (other cc) \<and> list_scan (CHR '','') False (other cc) = length (other cc) \<and>
           directive_type (other cc) = CC_OTHER
      else other cc = [])"

lemma atoi_value: "cc_value (atoi s)"
  using clamp32_bounds unfolding atoi_def Let_def cc_value_def by blast

lemma cc_int_value: "cc_int p = Some v \<Longrightarrow> cc_value v"
  by (auto simp: cc_int_def httpHeaderParseInt_def Let_def atoi_value split: option.splits if_splits)

lemma cc_item_ok:
  assumes "cc_ok cc" "trimmed item" "list_scan (CHR '','') False item = length item"
  shows "cc_ok (cc_item item rest cc)"
proof (cases "directive_type item \<in> cc_mask cc")
  case True
  then have "cc_item item rest cc = cc" by (simp add: cc_item_def directive_type_def Let_def)
  with assms(1) show ?thesis by simp
next
  case False
  define p where "p = (case strchr item (CHR ''='') of None \<Rightarrow> None | Some k \<Rightarrow> Some (drop (k + 1) rest))"
  have v: "cc_int p = Some v \<Longrightarrow> cc_value v" for v by (rule cc_int_value)
  have one: "cc_value (- 1)" by (simp add: cc_value_def)
  from False assms(1) have n: "directive_type item = CC_OTHER \<Longrightarrow> other cc = []" by (auto simp: cc_ok_def)
  have "cc_item item rest cc =
      (let cc' = cc\<lparr>cc_mask := insert (directive_type item) (cc_mask cc)\<rparr> in
         case directive_type item of
           CC_MAX_AGE \<Rightarrow>
             (case cc_int p of
                None \<Rightarrow> cc'\<lparr>max_age := - 1, cc_mask := cc_mask cc' - {CC_MAX_AGE}\<rparr> | Some v \<Rightarrow> cc'\<lparr>max_age := v\<rparr>)
         | CC_S_MAXAGE \<Rightarrow>
             (case cc_int p of
                None \<Rightarrow> cc'\<lparr>s_maxage := - 1, cc_mask := cc_mask cc' - {CC_S_MAXAGE}\<rparr> | Some v \<Rightarrow> cc'\<lparr>s_maxage := v\<rparr>)
         | CC_MAX_STALE \<Rightarrow>
             (case cc_int p of None \<Rightarrow> cc'\<lparr>max_stale := - 1\<rparr> | Some v \<Rightarrow> cc'\<lparr>max_stale := v\<rparr>)
         | CC_OTHER \<Rightarrow> cc'\<lparr>other := (if other cc' \<noteq> [] then other cc' @ '', '' else other cc') @ item\<rparr>
         | _ \<Rightarrow> cc')"
    unfolding cc_item_def Let_def directive_type_def [symmetric] p_def [symmetric]
    using False by (auto split: cc_type.splits option.splits)
  with assms n v one show ?thesis
    by (cases "directive_type item"; cases "cc_int p") (simp_all add: cc_ok_def)
qed

lemma cc_items_ok: "cc_ok cc \<Longrightarrow> cc_ok (cc_items str pos cc)"
proof (induction str pos cc rule: cc_items.induct)
  case (1 str pos cc)
  show ?case
  proof (cases "strListGetItem str (CHR '','') pos")
    case None
    with 1(2) show ?thesis by (simp add: cc_items.simps [of str pos cc])
  next
    case (Some r)
    then obtain item rest where r: "strListGetItem str (CHR '','') pos = Some (item, rest)" by (cases r) auto
    from 1(1) [OF r refl cc_item_ok [OF 1(2) item_trimmed [OF r]]] r show ?thesis
      by (simp add: cc_items.simps [of str pos cc])
  qed
qed

lemma parsed_cc_ok: "httpHdrCcParseCreate s = Some cc \<Longrightarrow> cc_ok cc \<and> cc_mask cc \<noteq> {}"
proof -
  have "cc_ok httpHdrCcCreate" by (simp add: cc_ok_def httpHdrCcCreate_def)
  then have "cc_ok (cc_items s None httpHdrCcCreate)" by (rule cc_items_ok)
  then show "httpHdrCcParseCreate s = Some cc \<Longrightarrow> cc_ok cc \<and> cc_mask cc \<noteq> {}"
    by (auto simp: httpHdrCcParseCreate_def Let_def split: if_splits)
qed

section \<open>Reading what was printed\<close>

lemma CcAttrs_distinct: "distinct (map (\<lambda>(n, i, t). map tolower n) CcAttrs)"
  by code_simp

lemma CcAttrs_types: "distinct (map ctype CcAttrs)"
  by code_simp

lemma CcAttrs_names:
  "(n, t, u) \<in> set CcAttrs \<Longrightarrow> t \<noteq> CC_OTHER \<Longrightarrow>
     trimmed n \<and> plain n \<and> CHR ''='' \<notin> set n \<and> id_by_name_loop n CcAttrs = Some t"
proof (intro conjI)
  assume m: "(n, t, u) \<in> set CcAttrs" "t \<noteq> CC_OTHER"
  then show "trimmed n" "plain n" "CHR ''='' \<notin> set n"
    by (auto simp: CcAttrs_def trimmed_def plain_def isspace_def ord_def)
  show "id_by_name_loop n CcAttrs = Some t" by (rule id_by_name_loop_mem [OF CcAttrs_distinct m(1)])
qed

lemma dec_int_chars: "c \<in> set (dec_int v) \<Longrightarrow> isdigit c \<or> c = CHR ''-''"
  by (auto simp: dec_int_def dest: dec_nat_digits split: if_splits)

lemma dec_int_trimmed: "dec_int v \<noteq> []" "\<not> isspace (last (dec_int v))" "plain (dec_int v)"
proof -
  show ne: "dec_int v \<noteq> []" by (simp add: dec_int_def)
  have "\<not> isspace CHR ''-''" by (simp add: isspace_def ord_def)
  with ne show "\<not> isspace (last (dec_int v))" using dec_int_chars [of "last (dec_int v)" v] digit_not_space by auto
  have "\<not> isdigit CHR '',''" "\<not> isdigit CHR 0x22" by (simp_all add: isdigit_def ord_def)
  then show "plain (dec_int v)" using dec_int_chars [of _ v] by (auto simp: plain_def)
qed

lemma atoi_dec_int:
  assumes "cc_value v" "r = [] \<or> \<not> isdigit (hd r)" shows "atoi (dec_int v @ r) = v"
proof (cases "v < 0")
  case True
  have "takeWhile isdigit (dec_nat (nat (- v)) @ r) = dec_nat (nat (- v))"
    using dec_nat_digits assms(2) by (intro takeWhile_digits) auto
  moreover have "\<not> isspace CHR ''-''" by (simp add: isspace_def ord_def)
  ultimately show ?thesis using True assms(1) by (simp add: dec_int_def atoi_def Let_def clamp32_def cc_value_def)
next
  case False
  with assms show ?thesis by (simp add: dec_int_def atoi_dec_nat cc_value_def)
qed

lemma cc_int_printed:
  assumes "cc_value v" "r = [] \<or> \<not> isdigit (hd r)" shows "cc_int (Some (dec_int v @ r)) = Some v"
proof -
  have "v = 0 \<Longrightarrow> isdigit (hd (dec_int 0))"
    using dec_nat_digits [of "hd (dec_nat 0)" 0] by (simp add: dec_int_def)
  moreover have "(case s of [] \<Rightarrow> False | c # s \<Rightarrow> isdigit c) \<longleftrightarrow> s \<noteq> [] \<and> isdigit (hd s)" for s by (cases s) auto
  ultimately show ?thesis
    using atoi_dec_int [OF assms] dec_int_trimmed(1) [of v] by (simp add: cc_int_def httpHeaderParseInt_def Let_def)
qed

definition copy_flag :: "http_cc \<Rightarrow> cc_type \<Rightarrow> http_cc \<Rightarrow> http_cc" where
  "copy_flag cc t acc =
     acc\<lparr>cc_mask := insert t (cc_mask acc),
         max_age := (if t = CC_MAX_AGE then max_age cc else max_age acc),
         s_maxage := (if t = CC_S_MAXAGE then s_maxage cc else s_maxage acc),
         max_stale := (if t = CC_MAX_STALE then max_stale cc else max_stale acc)\<rparr>"

lemma option_readable:
  assumes "(n, t, u) \<in> set CcAttrs" "t \<noteq> CC_OTHER"
  shows "trimmed (cc_option cc (n, t, u))" "plain (cc_option cc (n, t, u))"
proof -
  note n = CcAttrs_names [OF assms]
  have "trimmed (n @ CHR ''='' # dec_int v) \<and> plain (n @ CHR ''='' # dec_int v)" for v
    using n dec_int_trimmed [of v] by (auto simp: trimmed_def plain_def)
  with n show "trimmed (cc_option cc (n, t, u))" "plain (cc_option cc (n, t, u))"
    by (auto simp: cc_option_def)
qed

lemma option_read:
  assumes a: "(n, t, u) \<in> set CcAttrs" "t \<noteq> CC_OTHER" and "cc_ok cc" "t \<in> cc_mask cc" "t \<notin> cc_mask acc"
    and r: "r = [] \<or> \<not> isdigit (hd r)"
  shows "cc_item (cc_option cc (n, t, u)) (cc_option cc (n, t, u) @ r) acc = copy_flag cc t acc"
proof -
  from CcAttrs_names [OF a] have n: "CHR ''='' \<notin> set n" "id_by_name_loop n CcAttrs = Some t" by auto
  have k: "strchr (n @ CHR ''='' # s) (CHR ''='') = Some (length n)" for s using n(1) by (induction n) auto
  have "strchr n (CHR ''='') = None" using n(1) by simp
  moreover have "cc_value (max_age cc)" if "t = CC_MAX_AGE" using that assms(3,4) by (simp add: cc_ok_def)
  moreover have "cc_value (s_maxage cc)" if "t = CC_S_MAXAGE" using that assms(3,4) by (simp add: cc_ok_def)
  moreover have "cc_value (max_stale cc)" if "t = CC_MAX_STALE" using that assms(3,4) by (simp add: cc_ok_def)
  ultimately show ?thesis
    using a(2) assms(5) cc_int_printed [OF _ r]
    by (cases t) (simp_all add: cc_item_def cc_option_def k n(2) copy_flag_def Let_def del: strchr_None)
qed

lemma joined_Cons: "joined (x # xs) = x @ (if xs = [] then [] else CHR '','' # CHR '' '' # joined xs)"
  by (cases xs) auto

lemma cc_go_options:
  assumes "set fs \<subseteq> set CcAttrs" "distinct (map ctype fs)" "cc_ok cc"
    and "\<forall>f \<in> set fs. ctype f \<noteq> CC_OTHER \<and> ctype f \<in> cc_mask cc \<and> ctype f \<notin> cc_mask acc"
  shows "cc_go (map (cc_option cc) fs @ ys) acc = cc_go ys (foldl (\<lambda>acc f. copy_flag cc (ctype f) acc) acc fs)"
  using assms
proof (induction fs arbitrary: acc)
  case (Cons f fs)
  obtain n t u where f: "f = (n, t, u)" by (cases f)
  define r where "r = (if map (cc_option cc) fs @ ys = [] then [] else CHR '','' # CHR '' '' # joined (map (cc_option cc) fs @ ys))"
  have "r = [] \<or> \<not> isdigit (hd r)" by (simp add: r_def isdigit_def ord_def)
  then have "cc_item (cc_option cc f) (cc_option cc f @ r) acc = copy_flag cc t acc"
    using Cons.prems unfolding f by (intro option_read) auto
  then have "cc_go (map (cc_option cc) (f # fs) @ ys) acc = cc_go (map (cc_option cc) fs @ ys) (copy_flag cc t acc)"
    by (simp add: joined_Cons r_def)
  also have "\<dots> = cc_go ys (foldl (\<lambda>acc f. copy_flag cc (ctype f) acc) (copy_flag cc t acc) fs)"
    using Cons.prems by (intro Cons.IH) (auto simp: f copy_flag_def image_iff)
  finally show ?case by (simp add: f)
qed simp

lemma copied_flags:
  "foldl (\<lambda>acc f. copy_flag cc (ctype f) acc) acc fs =
     acc\<lparr>cc_mask := cc_mask acc \<union> ctype ` set fs,
         max_age := (if CC_MAX_AGE \<in> ctype ` set fs then max_age cc else max_age acc),
         s_maxage := (if CC_S_MAXAGE \<in> ctype ` set fs then s_maxage cc else s_maxage acc),
         max_stale := (if CC_MAX_STALE \<in> ctype ` set fs then max_stale cc else max_stale acc)\<rparr>"
proof (induction fs arbitrary: acc)
  case (Cons f fs)
  obtain n t u where f: "f = (n, t, u)" by (cases f)
  show ?case unfolding foldl_Cons Cons.IH by (simp add: f copy_flag_def)
qed simp

lemma all_types: "ctype ` set CcAttrs = UNIV"
proof -
  have "t \<in> ctype ` set CcAttrs" for t by (cases t) (simp_all add: CcAttrs_def)
  then show ?thesis by blast
qed

lemma flag_types: "ctype ` set (cc_flags cc) = cc_mask cc - {CC_OTHER}"
  using all_types by (force simp: cc_flags_def image_iff)

lemma readable_options:
  assumes "set fs \<subseteq> set CcAttrs" "\<forall>f \<in> set fs. ctype f \<noteq> CC_OTHER"
    and "trimmed y" "list_scan (CHR '','') False y = length y"
  shows "readable (map (cc_option cc) fs @ [y])" "readable (map (cc_option cc) fs)"
proof -
  have step: "trimmed x \<Longrightarrow> plain x \<Longrightarrow> readable xs \<Longrightarrow> readable (x # xs)" for x xs
    using list_scan_plain [of x "[]"] by (cases xs) simp_all
  have o: "f \<in> set fs \<Longrightarrow> trimmed (cc_option cc f) \<and> plain (cc_option cc f)" for f
    using assms(1,2) option_readable by (cases f) fastforce
  from o show "readable (map (cc_option cc) fs @ [y])" by (induction fs) (auto simp: assms(3,4) intro: step)
  from o show "readable (map (cc_option cc) fs)" by (induction fs) (auto intro: step)
qed

text \<open>
  The cache directives of a message survive being printed and read again: for every value of a
  Cache-Control field that the proxy can parse, reading the printed form gives the same directives, with
  the same values. (What is lost is lost in the first reading: all but the first extension directive.)
\<close>

lemma cache_control_roundtrip:
  assumes "httpHdrCcParseCreate s = Some cc"
  shows "httpHdrCcParseCreate (httpHdrCcPackInto cc) = Some cc"
proof -
  from parsed_cc_ok [OF assms] have ok: "cc_ok cc" and ne: "cc_mask cc \<noteq> {}" by auto
  define fs ys where "fs = cc_flags cc" and "ys = (if other cc = [] then [] else [other cc])"
  have fs: "set fs \<subseteq> set CcAttrs" "distinct (map ctype fs)"
    "\<forall>f \<in> set fs. ctype f \<noteq> CC_OTHER \<and> ctype f \<in> cc_mask cc \<and> ctype f \<notin> cc_mask httpHdrCcCreate"
    using CcAttrs_types by (auto simp: fs_def cc_flags_def distinct_map_filter httpHdrCcCreate_def)
  have oth: "CC_OTHER \<in> cc_mask cc \<longleftrightarrow> other cc \<noteq> []" using ok by (auto simp: cc_ok_def trimmed_def split: if_splits)
  have r: "readable (map (cc_option cc) fs @ ys)"
  proof (cases "other cc = []")
    case True
    have "trimmed ''x''" "list_scan (CHR '','') False ''x'' = length ''x''" by (simp_all add: trimmed_def isspace_def ord_def)
    with True fs readable_options(2) [OF fs(1), of "''x''" cc] show ?thesis by (simp add: ys_def)
  next
    case False
    with ok oth have "trimmed (other cc)" "list_scan (CHR '','') False (other cc) = length (other cc)"
      by (auto simp: cc_ok_def split: if_splits)
    with False fs readable_options(1) [OF fs(1), of "other cc" cc] show ?thesis by (simp add: ys_def)
  qed
  have nonempty: "map (cc_option cc) fs @ ys \<noteq> []"
    using ne oth flag_types [of cc] by (cases "other cc = []") (auto simp: fs_def ys_def)
  then obtain x xs where xs: "map (cc_option cc) fs @ ys = x # xs" by (cases "map (cc_option cc) fs @ ys") auto
  have "cc_items (httpHdrCcPackInto cc) None httpHdrCcCreate = cc_go (map (cc_option cc) fs @ ys) httpHdrCcCreate"
    using cc_items_joined [of x xs None "httpHdrCcPackInto cc"] r xs
    by (simp add: packed_cc fs_def [symmetric] ys_def [symmetric])
  also have "\<dots> = cc_go ys (foldl (\<lambda>acc f. copy_flag cc (ctype f) acc) httpHdrCcCreate fs)"
    by (rule cc_go_options [OF fs(1,2) ok fs(3)])
  also have "\<dots> = cc_go ys (cc\<lparr>cc_mask := cc_mask cc - {CC_OTHER}, other := []\<rparr>)"
    using ok unfolding copied_flags fs_def flag_types by (cases cc) (simp add: httpHdrCcCreate_def cc_ok_def split: if_splits)
  also have "\<dots> = cc"
    using ok oth by (cases cc) (auto simp: ys_def cc_ok_def cc_item_def Let_def directive_type_def [symmetric] split: if_splits)
  finally show ?thesis using ne by (simp add: httpHdrCcParseCreate_def Let_def)
qed

theorem cache_control_roundtrip_witness:
  "\<exists>cc. httpHdrCcParseCreate ''s-maxage=7, max-stale , x=1, PUBLIC'' = Some cc \<and> s_maxage cc = 7 \<and> other cc = ''x=1'' \<and>
        httpHdrCcParseCreate (httpHdrCcPackInto cc) = Some cc"
proof -
  have "httpHdrCcParseCreate ''s-maxage=7, max-stale , x=1, PUBLIC'' =
      Some \<lparr>cc_mask = {CC_PUBLIC, CC_OTHER, CC_MAX_STALE, CC_S_MAXAGE}, max_age = - 1, s_maxage = 7, max_stale = - 1,
            other = ''x=1''\<rparr>" by code_simp
  from this cache_control_roundtrip [OF this] show ?thesis by (intro exI) auto
qed

section \<open>Deviations\<close>

text \<open>
  \<open>max-stale\<close> without a value is printed with the value that stands for none; of several extension
  directives only the first is kept.
\<close>

lemma max_stale_printed:
  "httpHdrCcParseCreate ''max-stale'' =
     Some \<lparr>cc_mask = {CC_MAX_STALE}, max_age = - 1, s_maxage = - 1, max_stale = - 1, other = []\<rparr>"
  "httpHdrCcPackInto \<lparr>cc_mask = {CC_MAX_STALE}, max_age = - 1, s_maxage = - 1, max_stale = - 1, other = []\<rparr> =
     ''max-stale=-1''"
  by code_simp
     (simp add: httpHdrCcPackInto_def CcAttrs_def cc_option_def dec_int_def dec_nat.simps [of "Suc 0"] char_of_def bit_0)

lemma one_extension_kept:
  "httpHdrCcParseCreate ''a, b'' =
     Some \<lparr>cc_mask = {CC_OTHER}, max_age = - 1, s_maxage = - 1, max_stale = - 1, other = ''a''\<rparr>"
  by code_simp

section \<open>Content ranges\<close>

text \<open>
  A content range with a known range is read back, provided the total length fits a \<open>long\<close>; the length of a
  larger body is cut to 32 bits. Without a range the unit is left out, and the field cannot be read.
\<close>

lemma dec_int_pos: "0 \<le> v \<Longrightarrow> dec_int v = dec_nat (nat v)"
  by (simp add: dec_int_def)

lemma strtoll_dec_nat:
  assumes "int n < 2 ^ 63" "r = [] \<or> \<not> isdigit (hd r)" shows "strtoll (dec_nat n @ r) = Some (int n)"
proof -
  obtain d ds where d: "dec_nat n = d # ds" by (cases "dec_nat n") auto
  then have "isdigit d" using dec_nat_digits [of d n] by simp
  then have "\<not> isspace d" "d \<noteq> CHR ''-''" "d \<noteq> CHR ''+''" using digit_not_space digit_not_sign by auto
  moreover have "takeWhile isdigit (dec_nat n @ r) = dec_nat n" using dec_nat_digits assms(2) by (intro takeWhile_digits) auto
  then have "takeWhile isdigit (d # ds @ r) = d # ds" by (simp only: d append_Cons)
  ultimately show ?thesis
    using assms(1) digits_val_dec_nat [of n] by (simp add: strtoll_def Let_def d del: digits_val_dec_nat takeWhile.simps)
qed

lemma strchr_skip: "d \<notin> set w \<Longrightarrow> strchr (w @ s) d = map_option (\<lambda>k. length w + k) (strchr s d)"
  by (induction w; cases "strchr s d"; auto simp del: strchr_None)

lemma dec_nat_no [simp]: "\<not> isdigit c \<Longrightarrow> c \<notin> set (dec_nat n)"
  using dec_nat_digits by blast

lemma content_range_roundtrip:
  fixes cr :: cont_range
  defines "s \<equiv> cr_spec cr"
  assumes s: "0 \<le> offset s" "0 < len s" "offset s + len s < 2 ^ 63" "offset s \<noteq> cr_unknown" "len s \<noteq> cr_unknown"
    and e: "elength cr = cr_unknown \<or> 0 \<le> elength cr \<and> elength cr < 2 ^ 31"
  shows "httpHdrContRangeParseCreate (httpHdrContRangePackInto cr) = Some cr"
proof -
  define a b where "a = nat (offset s)" and "b = nat (offset s + len s - 1)"
  have ab: "int a = offset s" "int b = offset s + len s - 1" "int a < 2 ^ 63" "int b < 2 ^ 63"
    using s by (auto simp: a_def b_def)
  define t where "t = (if elength cr = cr_unknown then ''*'' else dec_nat (nat (elength cr)))"
  have nd: "\<not> isdigit CHR ''-''" "\<not> isdigit CHR ''/''" "\<not> isdigit CHR ''*''" by (simp_all add: isdigit_def ord_def)
  define body where "body = dec_nat a @ CHR ''-'' # dec_nat b"
  have "wrap64 (offset s + len s - 1) = int b" using s by (auto simp: ab wrap64_id)
  moreover have "to_long (elength cr) = elength cr" if "elength cr \<noteq> cr_unknown" using that e by (auto simp: to_long_def)
  ultimately have pack: "httpHdrContRangePackInto cr = ''bytes '' @ body @ CHR ''/'' # t"
    using s(4,5) e by (auto simp: httpHdrContRangePackInto_def httpHdrRangeRespSpecPackInto_def s_def [symmetric] body_def
        t_def dec_int_pos a_def s(1))
  have hd: "body \<noteq> []" "hd body \<noteq> CHR ''*''"
    using dec_nat_digits [of "hd (dec_nat a)" a] nd by (auto simp: body_def)
  have k: "strchr (body @ CHR ''/'' # t) (CHR ''/'') = Some (length body)"
    using nd by (simp add: body_def strchr_skip)
  have "httpHdrRangeRespSpecParseInit (body @ CHR ''/'' # t) (length body) = Some s"
  proof -
    have "strchr (body @ CHR ''/'' # t) (CHR ''-'') = Some (length (dec_nat a))" using nd by (simp add: body_def strchr_skip)
    moreover have "strtoll (body @ CHR ''/'' # t) = Some (int a)" using strtoll_dec_nat [OF ab(3)] nd by (simp add: body_def)
    moreover have "strtoll (drop (length (dec_nat a) + 1) (body @ CHR ''/'' # t)) = Some (int b)"
      using strtoll_dec_nat [OF ab(4)] nd by (simp add: body_def)
    moreover have "wrap64 (int b + 1) = offset s + len s" "size_diff (offset s + len s) (offset s) = len s"
      using s by (auto simp: ab wrap64_id size_diff_def)
    moreover have "length body = length (dec_nat a) + 1 + length (dec_nat b)" "0 < length (dec_nat a)" "0 < length (dec_nat b)"
      by (simp_all add: body_def)
    moreover have "hd (body @ CHR ''/'' # t) \<noteq> CHR ''*''" using hd by simp
    ultimately show ?thesis
      using s by (simp add: httpHdrRangeRespSpecParseInit_def httpHeaderParseSize_def ab(1) del: length_greater_0_conv)
  qed
  moreover have "if elength cr = cr_unknown then hd t = CHR ''*'' else hd t \<noteq> CHR ''*'' \<and> strtoll t = Some (elength cr)"
    using e strtoll_dec_nat [of "nat (elength cr)" "[]"] dec_nat_digits [of "hd (dec_nat (nat (elength cr)))" "nat (elength cr)"] nd
    by (auto simp: t_def)
  moreover have "t \<noteq> []" "cr = \<lparr>cr_spec = s, elength = elength cr\<rparr>" by (simp_all add: t_def s_def)
  ultimately show ?thesis
    using hd k by (auto simp: pack httpHdrContRangeParseCreate_def httpHeaderParseSize_def Let_def split: if_splits)
qed

lemma content_range_cut:
  "httpHdrContRangePackInto \<lparr>cr_spec = \<lparr>offset = 0, len = 1\<rparr>, elength = 3000000000\<rparr> = ''bytes 0-0/-1294967296''"
proof -
  have "dec_nat 1294967296 = ''1294967296''" "dec_nat 0 = ''0''"
    by (simp_all add: dec_nat.simps [of "numeral w" for w] dec_nat.simps [of "Suc 0"] dec_nat.simps [of 0] char_of_def bit_0)
  then show ?thesis
    by (simp add: httpHdrContRangePackInto_def httpHdrRangeRespSpecPackInto_def cr_unknown_def to_long_def wrap64_def dec_int_def)
qed

lemma content_range_without_unit:
  "httpHdrContRangePackInto \<lparr>cr_spec = \<lparr>offset = cr_unknown, len = cr_unknown\<rparr>, elength = cr_unknown\<rparr> = ''*/*''"
  "httpHdrContRangeParseCreate ''*/*'' = None"
  by (simp add: httpHdrContRangePackInto_def httpHdrRangeRespSpecPackInto_def)
     (simp add: httpHdrContRangeParseCreate_def strcasecmp0_def)

end
