(* ===== verification/HttpDate.thy ===== *)
theory HttpDate
  imports Decimal LibString
begin

text \<open>
  The dates of HTTP (\<^verbatim>\<open>squid-mybox/lib/rfc1123.c\<close>): the parser, which splits a date into its elements by
  their looks and takes both the RFC 1123 and the RFC 850 form, and the printers. The calendar functions
  \<open>gmtime\<close> and \<open>timegm\<close> of the C library are modelled for the Gregorian calendar from 1970 on, \<open>localtime\<close>
  is an argument. The platform is the one with \<open>timegm\<close>, with 32-bit \<open>time_t\<close>.
\<close>

section \<open>The calendar of the C library\<close>

record tm =
  tm_sec :: int
  tm_min :: int
  tm_hour :: int
  tm_mday :: int
  tm_mon :: int
  tm_year :: int  \<comment> \<open>since 1900\<close>

definition leap_year :: "nat \<Rightarrow> bool" where
  "leap_year y \<longleftrightarrow> y mod 4 = 0 \<and> (y mod 100 \<noteq> 0 \<or> y mod 400 = 0)"

definition year_days :: "nat \<Rightarrow> nat" where
  "year_days y = (if leap_year y then 366 else 365)"

definition month_days :: "nat \<Rightarrow> nat list" where
  "month_days y = [31, if leap_year y then 29 else 28, 31, 30, 31, 30, 31, 31, 30, 31, 30, 31]"

text \<open>The year and the day in it, of a day counted from the beginning of a year.\<close>

function year_of :: "nat \<Rightarrow> nat \<Rightarrow> nat \<times> nat" where
  "year_of y d = (if d < year_days y then (y, d) else year_of (y + 1) (d - year_days y))"
  by pat_completeness auto
termination by (relation "measure (\<lambda>(y, d). d)") (auto simp: year_days_def split: if_splits)

declare year_of.simps [simp del]

fun month_of :: "nat list \<Rightarrow> nat \<Rightarrow> nat \<times> nat" where
  "month_of [] d = (0, d)"
| "month_of (m # ms) d = (if d < m then (0, d) else (case month_of ms (d - m) of (i, e) \<Rightarrow> (i + 1, e)))"

definition gmtime :: "nat \<Rightarrow> tm" where
  "gmtime t =
     (case year_of 1970 (t div 86400) of (y, d) \<Rightarrow>
       (case month_of (month_days y) d of (m, e) \<Rightarrow>
          \<lparr>tm_sec = int (t mod 60), tm_min = int (t div 60 mod 60), tm_hour = int (t div 3600 mod 24),
           tm_mday = int e + 1, tm_mon = int m, tm_year = int y - 1900\<rparr>))"

definition days_before_year :: "nat \<Rightarrow> nat" where
  "days_before_year y = sum_list (map year_days [1970..<y])"

definition timegm :: "tm \<Rightarrow> int" where
  \<comment> \<open>for years from 1970 on and months from 0 to 11; the other members are not restricted\<close>
  "timegm tm =
     (let y = nat (tm_year tm + 1900);
          days = int (days_before_year y + sum_list (take (nat (tm_mon tm)) (month_days y))) + tm_mday tm - 1
      in ((days * 24 + tm_hour tm) * 60 + tm_min tm) * 60 + tm_sec tm)"

section \<open>Parsing\<close>

definition month_names :: "string list" where
  "month_names = [''Jan'', ''Feb'', ''Mar'', ''Apr'', ''May'', ''Jun'',
                  ''Jul'', ''Aug'', ''Sep'', ''Oct'', ''Nov'', ''Dec'']"

definition schar :: "char \<Rightarrow> int" where
  \<comment> \<open>the value of a \<open>char\<close>, which is signed\<close>
  "schar c = (if ord c < 128 then int (ord c) else int (ord c) - 256)"

definition make_num :: "string \<Rightarrow> int" where
  "make_num s =
     (if isdigit (nth0 s 0) then 10 * (schar (nth0 s 0) - 48) + schar (nth0 s 1) - 48 else schar (nth0 s 1) - 48)"

fun month_index :: "string list \<Rightarrow> string \<Rightarrow> int \<Rightarrow> int" where
  "month_index [] month i = - 1"
| "month_index (n # ns) month i = (if strncmp0 n month 3 then i else month_index ns month (i + 1))"

definition make_month :: "string \<Rightarrow> int" where
  \<comment> \<open>the comparison ends at a NUL, so what stands behind the string does not matter\<close>
  "make_month s = month_index month_names [toupper (nth0 s 0), tolower (nth0 s 1), tolower (nth0 s 2)] 0"

definition tmSaneValues :: "tm \<Rightarrow> bool" where
  "tmSaneValues tm =
     (if tm_sec tm < 0 \<or> tm_sec tm > 59 then False
      else if tm_min tm < 0 \<or> tm_min tm > 59 then False
      else if tm_hour tm < 0 \<or> tm_hour tm > 23 then False
      else if tm_mday tm < 1 \<or> tm_mday tm > 31 then False
      else if tm_mon tm < 0 \<or> tm_mon tm > 11 then False
      else if tm_year tm < 70 \<or> tm_year tm > 120 then False
      else True)"

definition parse_date_elements :: "cptr \<Rightarrow> cptr \<Rightarrow> cptr \<Rightarrow> cptr \<Rightarrow> cptr \<Rightarrow> tm option" where
  "parse_date_elements day month year time zone =
     (case (day, month, year, time) of
        (Some day, Some month, Some year, Some time) \<Rightarrow>
          (let mon = make_month month in
           if mon < 0 then None
           else
             (let y = atoi year;
                  y = (if length year = 4 then y - 1900
                       else if y < 70 then y + 100
                       else if y > 19000 then y - 19000 else y)
              in
              (case strchr time (CHR '':'') of
                 None \<Rightarrow> None
               | Some i \<Rightarrow>
                   (let t = drop (i + 1) time;
                        sec = (case strchr t (CHR '':'') of None \<Rightarrow> 0 | Some j \<Rightarrow> atoi (drop (j + 1) t));
                        tm = \<lparr>tm_sec = sec, tm_min = atoi t, tm_hour = make_num time,
                              tm_mday = atoi day, tm_mon = mon, tm_year = y\<rparr>
                    in if tmSaneValues tm then Some tm else None))))
      | _ \<Rightarrow> None)"

text \<open>The loop of \<open>parse_date\<close> over the tokens: what its variables hold. \<open>None\<close> is the early return.\<close>

record date_parts =
  p_wday :: cptr
  p_day :: cptr
  p_month :: cptr
  p_year :: cptr
  p_time :: cptr
  p_zone :: cptr

definition date_token :: "string \<Rightarrow> date_parts \<Rightarrow> date_parts option" where
  "date_token t p =
     (if isdigit (nth0 t 0) then
        (if p_day p = None then
           (case strchr t (CHR ''-'') of
              None \<Rightarrow> Some (p\<lparr>p_day := Some t\<rparr>)
            | Some i \<Rightarrow>
                (let m = drop (i + 1) t in
                 case strchr m (CHR ''-'') of
                   None \<Rightarrow> None
                 | Some j \<Rightarrow> Some (p\<lparr>p_day := Some (take i t), p_month := Some (take j m),
                                     p_year := Some (drop (j + 1) m)\<rparr>)))
         else if strchr t (CHR '':'') \<noteq> None then Some (p\<lparr>p_time := Some t\<rparr>)
         else if p_year p = None then Some (p\<lparr>p_year := Some t\<rparr>)
         else Some p)
      else if p_wday p = None then Some (p\<lparr>p_wday := Some t\<rparr>)
      else if p_month p = None then Some (p\<lparr>p_month := Some t\<rparr>)
      else if p_zone p = None then Some (p\<lparr>p_zone := Some t\<rparr>)
      else Some p)"

fun date_loop :: "string list \<Rightarrow> date_parts \<Rightarrow> date_parts option" where
  "date_loop [] p = Some p"
| "date_loop (t # ts) p = (case date_token t p of None \<Rightarrow> None | Some p \<Rightarrow> date_loop ts p)"

definition no_parts :: date_parts where
  "no_parts = \<lparr>p_wday = None, p_day = None, p_month = None, p_year = None, p_time = None, p_zone = None\<rparr>"

definition parse_date :: "string \<Rightarrow> tm option" where
  "parse_date str =
     (case date_loop (tokens '', '' str) no_parts of
        None \<Rightarrow> None
      | Some p \<Rightarrow> parse_date_elements (p_day p) (p_month p) (p_year p) (p_time p) (p_zone p))"

definition parse_rfc1123 :: "cptr \<Rightarrow> int" where
  "parse_rfc1123 str =
     (case str of
        None \<Rightarrow> - 1
      | Some str \<Rightarrow> (case parse_date str of None \<Rightarrow> - 1 | Some tm \<Rightarrow> timegm tm))"

section \<open>Printing\<close>

definition week_days :: "string list" where
  "week_days = [''Sun'', ''Mon'', ''Tue'', ''Wed'', ''Thu'', ''Fri'', ''Sat'']"

definition hms :: "tm \<Rightarrow> string" where
  \<comment> \<open>\<open>%H:%M:%S\<close>\<close>
  "hms tm = dec2 (nat (tm_hour tm)) @ '':'' @ dec2 (nat (tm_min tm)) @ '':'' @ dec2 (nat (tm_sec tm))"

definition mkrfc1123 :: "nat \<Rightarrow> string" where
  "mkrfc1123 t =
     (let gmt = gmtime t in
      week_days ! ((t div 86400 + 4) mod 7) @ '', '' @ dec2 (nat (tm_mday gmt)) @ '' '' @
      month_names ! nat (tm_mon gmt) @ '' '' @ dec_nat (nat (tm_year gmt + 1900)) @ '' '' @ hms gmt @ '' GMT'')"

definition tm_yday :: "tm \<Rightarrow> int" where
  "tm_yday tm =
     int (sum_list (take (nat (tm_mon tm)) (month_days (nat (tm_year tm + 1900))))) + tm_mday tm - 1"

definition dec2s :: "int \<Rightarrow> string" where
  \<comment> \<open>\<open>%02d\<close> of any number\<close>
  "dec2s i = (if 0 \<le> i then dec2 (nat i) else dec_int i)"

definition dec3p :: "int \<Rightarrow> string" where
  \<comment> \<open>\<open>%+03d\<close>\<close>
  "dec3p i = (if 0 \<le> i then CHR ''+'' else CHR ''-'') # dec2 (nat \<bar>i\<bar>)"

definition quot :: "int \<Rightarrow> int \<Rightarrow> int" where
  \<comment> \<open>the division of C\<close>
  "quot a b = sgn a * sgn b * (\<bar>a\<bar> div \<bar>b\<bar>)"

definition mkhttpdlogtime :: "(nat \<Rightarrow> tm) \<Rightarrow> nat \<Rightarrow> string" where
  "mkhttpdlogtime localtime t =
     (let gmt = gmtime t; lt = localtime t;
          day_offset = tm_yday lt - tm_yday gmt;
          day_offset = (if day_offset > 1 then - 1 else if day_offset < - 1 then 1 else day_offset);
          min_offset = day_offset * 1440 + (tm_hour lt - tm_hour gmt) * 60 + (tm_min lt - tm_min gmt)
      in
      dec2 (nat (tm_mday lt)) @ ''/'' @ month_names ! nat (tm_mon lt) @ ''/'' @
      dec_nat (nat (tm_year lt + 1900)) @ '':'' @ hms lt @ '' '' @
      dec3p (quot min_offset 60 - 24 * quot (quot min_offset 60) 24) @
      dec2s (min_offset - 60 * quot min_offset 60))"

section \<open>The calendar\<close>

lemma year_of_spec:
  "year_of y d = (y', d') \<Longrightarrow> y \<le> y' \<and> d' < year_days y' \<and> sum_list (map year_days [y..<y']) + d' = d"
proof (induction y d rule: year_of.induct)
  case (1 y d)
  show ?case
  proof (cases "d < year_days y")
    case True
    with 1(2) show ?thesis by (simp add: year_of.simps [of y d])
  next
    case False
    with 1(2) have "year_of (y + 1) (d - year_days y) = (y', d')" by (simp add: year_of.simps [of y d])
    with 1(1) [OF False] have "Suc y \<le> y'" "d' < year_days y'"
      "sum_list (map year_days [Suc y..<y']) + d' = d - year_days y" by auto
    then show ?thesis using False by (simp add: upt_conv_Cons)
  qed
qed

lemma month_of_spec:
  "d < sum_list ms \<Longrightarrow> month_of ms d = (m, e) \<Longrightarrow> m < length ms \<and> e < ms ! m \<and> sum_list (take m ms) + e = d"
proof (induction ms d arbitrary: m rule: month_of.induct)
  case (2 n ns d)
  show ?case
  proof (cases "d < n")
    case False
    with 2(3) obtain i where i: "month_of ns (d - n) = (i, e)" "m = i + 1" by (auto split: prod.splits)
    with 2(2) False 2(1) [of i] have "i < length ns" "e < ns ! i" "sum_list (take i ns) + e = d - n" by auto
    then show ?thesis using False i by simp
  qed (use 2 in auto)
qed simp

lemma sum_month_days: "sum_list (month_days y) = year_days y"
  by (simp add: month_days_def year_days_def)

lemma month_days_le: "m < 12 \<Longrightarrow> month_days y ! m \<le> 31"
proof -
  assume "m < 12"
  then have "month_days y ! m \<in> set (month_days y)" by (intro nth_mem) (simp add: month_days_def)
  then show ?thesis by (auto simp: month_days_def split: if_splits)
qed

lemma gmtime_cases:
  obtains y m e where "gmtime t =
      \<lparr>tm_sec = int (t mod 60), tm_min = int (t div 60 mod 60), tm_hour = int (t div 3600 mod 24),
       tm_mday = int e + 1, tm_mon = int m, tm_year = int y - 1900\<rparr>"
    and "1970 \<le> y" and "m < 12" and "e < 31"
    and "days_before_year y + sum_list (take m (month_days y)) + e = t div 86400"
    and "t div 86400 < days_before_year (y + 1)"
proof -
  obtain y d where y: "year_of 1970 (t div 86400) = (y, d)" by fastforce
  obtain m e where m: "month_of (month_days y) d = (m, e)" by fastforce
  from year_of_spec [OF y] have ys: "1970 \<le> y" "d < year_days y" "days_before_year y + d = t div 86400"
    by (auto simp: days_before_year_def)
  with month_of_spec [OF _ m] have ms: "m < 12" "e < month_days y ! m" "sum_list (take m (month_days y)) + e = d"
    by (auto simp: sum_month_days) (simp add: month_days_def)
  from ys have "days_before_year (y + 1) = days_before_year y + year_days y" by (simp add: days_before_year_def)
  with that [of e m y] ys ms month_days_le [OF ms(1), of y] show ?thesis
    by (simp add: gmtime_def y m)
qed

lemma split_seconds: "((t div 86400 * 24 + t div 3600 mod 24) * 60 + t div 60 mod 60) * 60 + t mod 60 = (t :: nat)"
proof -
  have "t div 3600 = t div 60 div 60" "t div 86400 = t div 3600 div 24" by (simp_all add: div_mult2_eq)
  then show ?thesis by presburger
qed

lemma timegm_gmtime: "timegm (gmtime t) = int t"
proof -
  obtain y m e where g: "gmtime t =
      \<lparr>tm_sec = int (t mod 60), tm_min = int (t div 60 mod 60), tm_hour = int (t div 3600 mod 24),
       tm_mday = int e + 1, tm_mon = int m, tm_year = int y - 1900\<rparr>"
    and d: "days_before_year y + sum_list (take m (month_days y)) + e = t div 86400"
    by (rule gmtime_cases)
  have "timegm (gmtime t) =
      ((int (days_before_year y + sum_list (take m (month_days y)) + e) * 24 + int (t div 3600 mod 24)) * 60
        + int (t div 60 mod 60)) * 60 + int (t mod 60)"
    by (simp add: timegm_def g)
  also have "\<dots> = int (((t div 86400 * 24 + t div 3600 mod 24) * 60 + t div 60 mod 60) * 60 + t mod 60)"
    by (simp only: d of_nat_add of_nat_mult of_nat_numeral)
  finally show ?thesis by (simp only: split_seconds)
qed

lemma days_before_year_mono: "y \<le> z \<Longrightarrow> days_before_year y \<le> days_before_year z"
proof (induction z rule: dec_induct)
  case (step n)
  have "days_before_year n \<le> days_before_year (Suc n)" by (simp add: days_before_year_def)
  with step show ?case by simp
qed simp

lemma days_before_2021: "days_before_year 2021 = 18628"
  by (simp add: days_before_year_def upt_conv_Cons year_days_def leap_year_def)

lemma days_before_2039: "days_before_year 2039 = 25202"
  by (simp add: days_before_year_def upt_conv_Cons year_days_def leap_year_def)

section \<open>Reading a printed date\<close>

text \<open>The two other forms of a date that HTTP allows, which the proxy reads but does not write.\<close>

definition long_week_days :: "string list" where
  "long_week_days = [''Sunday'', ''Monday'', ''Tuesday'', ''Wednesday'', ''Thursday'', ''Friday'', ''Saturday'']"

definition rfc850_date :: "nat \<Rightarrow> string" where
  "rfc850_date t =
     (let gmt = gmtime t in
      long_week_days ! ((t div 86400 + 4) mod 7) @ '', '' @ dec2 (nat (tm_mday gmt)) @ ''-'' @
      month_names ! nat (tm_mon gmt) @ ''-'' @ dec2 (nat (tm_year gmt) mod 100) @ '' '' @ hms gmt @ '' GMT'')"

definition asctime_date :: "nat \<Rightarrow> string" where
  "asctime_date t =
     (let gmt = gmtime t; d = nat (tm_mday gmt) in
      week_days ! ((t div 86400 + 4) mod 7) @ '' '' @ month_names ! nat (tm_mon gmt) @ '' '' @
      (if d < 10 then CHR '' '' # dec_nat d else dec_nat d) @ '' '' @ hms gmt @ '' '' @
      dec_nat (nat (tm_year gmt + 1900)))"

lemma fields_of_word: "(\<And>c. c \<in> set w \<Longrightarrow> c \<notin> set D) \<Longrightarrow> fields_of D w = [w]"
  by (induction w) auto

lemma fields_of_word_delim:
  "(\<And>c. c \<in> set w \<Longrightarrow> c \<notin> set D) \<Longrightarrow> d \<in> set D \<Longrightarrow> fields_of D (w @ d # s) = w # fields_of D s"
  by (induction w) auto

definition word :: "string \<Rightarrow> bool" where
  "word w \<longleftrightarrow> w \<noteq> [] \<and> (\<forall>c \<in> set w. c \<notin> set '', '')"

lemma word_join: "word a \<Longrightarrow> word b \<Longrightarrow> c \<notin> set '', '' \<Longrightarrow> word (a @ c # b)"
  by (simp add: word_def ball_Un)

lemma tokens_word: "word w \<Longrightarrow> tokens '', '' w = [w]"
  using fields_of_word [of w "'', ''"] by (auto simp: tokens_spec word_def)

lemma tokens_delim: "tokens '', '' (CHR '' '' # s) = tokens '', '' s" "tokens '', '' (CHR '','' # s) = tokens '', '' s"
  by (simp_all add: tokens_spec)

lemma tokens_word_delim: "word w \<Longrightarrow> d \<in> set '', '' \<Longrightarrow> tokens '', '' (w @ d # s) = w # tokens '', '' s"
  using fields_of_word_delim [of w "'', ''" d s] by (simp add: tokens_spec word_def)

lemmas tokens_simps = tokens_word tokens_delim tokens_word_delim

lemma digit_not_delim: "isdigit c \<Longrightarrow> c \<notin> set '', '' \<and> c \<noteq> CHR ''-'' \<and> c \<noteq> CHR '':''"
  by (auto simp: isdigit_def ord_def)

lemma digits_word: "(\<And>c. c \<in> set w \<Longrightarrow> isdigit c) \<Longrightarrow> w \<noteq> [] \<Longrightarrow> word w"
  using digit_not_delim by (auto simp: word_def)

lemma dec_words [simp]: "word (dec_nat n)" "word (dec2 n)"
  using dec_nat_digits dec2_digits by (auto intro: digits_word)

lemma hms_word [simp]: "word (hms tm)"
  using dec2_digits digit_not_delim by (auto simp: word_def hms_def)

lemma name_words:
  "m < 12 \<Longrightarrow> word (month_names ! m)" "k < 7 \<Longrightarrow> word (week_days ! k)" "k < 7 \<Longrightarrow> word (long_week_days ! k)"
proof -
  have "w \<in> set month_names \<union> set week_days \<union> set long_week_days \<Longrightarrow> word w" for w
    by (auto simp: month_names_def week_days_def long_week_days_def word_def)
  moreover have "length month_names = 12" "length week_days = 7" "length long_week_days = 7"
    by (simp_all add: month_names_def week_days_def long_week_days_def)
  ultimately show "m < 12 \<Longrightarrow> word (month_names ! m)" "k < 7 \<Longrightarrow> word (week_days ! k)"
      "k < 7 \<Longrightarrow> word (long_week_days ! k)"
    by (metis UnI1 UnI2 nth_mem)+
qed

definition alpha :: "string \<Rightarrow> bool" where
  "alpha w \<longleftrightarrow> w \<noteq> [] \<and> \<not> isdigit (hd w) \<and> CHR ''-'' \<notin> set w"

lemma name_alpha:
  "m < 12 \<Longrightarrow> alpha (month_names ! m)" "k < 7 \<Longrightarrow> alpha (week_days ! k)" "k < 7 \<Longrightarrow> alpha (long_week_days ! k)"
proof -
  have "w \<in> set month_names \<union> set week_days \<union> set long_week_days \<Longrightarrow> alpha w" for w
    by (auto simp: month_names_def week_days_def long_week_days_def alpha_def isdigit_def ord_def)
  moreover have "length month_names = 12" "length week_days = 7" "length long_week_days = 7"
    by (simp_all add: month_names_def week_days_def long_week_days_def)
  ultimately show "m < 12 \<Longrightarrow> alpha (month_names ! m)" "k < 7 \<Longrightarrow> alpha (week_days ! k)"
      "k < 7 \<Longrightarrow> alpha (long_week_days ! k)"
    by (metis UnI1 UnI2 nth_mem)+
qed

lemma nth0_hd: "w \<noteq> [] \<Longrightarrow> nth0 w 0 = hd w"
  by (simp add: hd_conv_nth)

lemma dec_head [simp]: "isdigit (nth0 (dec_nat n @ r) 0)" "isdigit (nth0 (dec2 n @ r) 0)"
proof -
  have "isdigit (hd (dec_nat n @ r))" using dec_nat_digits [of "hd (dec_nat n)" n] by simp
  then show "isdigit (nth0 (dec_nat n @ r) 0)" by (simp add: hd_conv_nth)
  have "isdigit (hd (dec2 n @ r))" using dec2_digits [of "hd (dec2 n)" n] by simp
  then show "isdigit (nth0 (dec2 n @ r) 0)" by (simp add: hd_conv_nth)
qed

lemma dec_no_delim [simp]:
  "CHR ''-'' \<notin> set (dec_nat n)" "CHR ''-'' \<notin> set (dec2 n)" "CHR '':'' \<notin> set (dec_nat n)" "CHR '':'' \<notin> set (dec2 n)"
  using dec_nat_digits dec2_digits digit_not_delim by blast+

lemma make_month_name: "m < 12 \<Longrightarrow> make_month (month_names ! m) = int m"
proof -
  have "\<forall>m \<in> set [0..<12]. make_month (month_names ! m) = int m" by code_simp
  then show "m < 12 \<Longrightarrow> make_month (month_names ! m) = int m" by simp
qed

lemma dec2_chars: "n < 100 \<Longrightarrow> dec2 n = [char_of (48 + n div 10), char_of (48 + n mod 10)]"
proof -
  assume n: "n < 100"
  show ?thesis
  proof (cases "n < 10")
    case True
    moreover have "CHR ''0'' = char_of (48 :: nat)" by (simp add: char_eq_ord) (simp add: ord_def)
    ultimately show ?thesis by (simp add: dec2_def dec_nat.simps [of n])
  next
    case False
    moreover from n have "dec_nat (n div 10) = [char_of (48 + n div 10)]" by (subst dec_nat.simps) auto
    ultimately show ?thesis by (simp add: dec2_def dec_nat.simps [of n])
  qed
qed

lemma make_num_dec2:
  assumes "n < 100" shows "make_num (dec2 n @ r) = int n"
proof -
  define q e where "q = n div 10" and "e = n mod 10"
  then have "q < 10" "e < 10" "10 * q + e = n" using assms by auto
  moreover have "dec2 n = [char_of (48 + q), char_of (48 + e)]" by (simp add: dec2_chars [OF assms] q_def e_def)
  ultimately show ?thesis by (auto simp: make_num_def isdigit_digit schar_def)
qed

lemma strchr_before: "d \<notin> set w \<Longrightarrow> strchr (w @ d # s) d = Some (length w)"
  by (induction w) auto

lemma hms_time:
  assumes "0 \<le> tm_hour g" "tm_hour g < 24" "0 \<le> tm_min g" "tm_min g < 60" "0 \<le> tm_sec g" "tm_sec g < 60"
  shows "make_num (hms g) = tm_hour g"
    and "strchr (hms g) (CHR '':'') = Some (length (dec2 (nat (tm_hour g))))"
    and "drop (length (dec2 (nat (tm_hour g))) + 1) (hms g) =
           dec2 (nat (tm_min g)) @ CHR '':'' # dec2 (nat (tm_sec g))"
    and "atoi (dec2 (nat (tm_min g)) @ CHR '':'' # dec2 (nat (tm_sec g))) = tm_min g"
    and "strchr (dec2 (nat (tm_min g)) @ CHR '':'' # dec2 (nat (tm_sec g))) (CHR '':'') =
           Some (length (dec2 (nat (tm_min g))))"
    and "atoi (dec2 (nat (tm_sec g))) = tm_sec g"
proof -
  have "\<not> isdigit CHR '':''" by (simp add: isdigit_def ord_def)
  then show "atoi (dec2 (nat (tm_min g)) @ CHR '':'' # dec2 (nat (tm_sec g))) = tm_min g"
    "atoi (dec2 (nat (tm_sec g))) = tm_sec g"
    using assms atoi_dec2 [of "nat (tm_sec g)" "[]"] by (simp_all add: atoi_dec2)
qed (use assms in \<open>simp_all add: hms_def make_num_dec2 strchr_before\<close>)

lemma elements_printed:
  fixes g :: tm
  assumes g: "0 \<le> tm_hour g" "tm_hour g < 24" "0 \<le> tm_min g" "tm_min g < 60" "0 \<le> tm_sec g" "tm_sec g < 60"
    and day: "atoi day = tm_mday g" "1 \<le> tm_mday g" "tm_mday g \<le> 31"
    and mon: "tm_mon g = int m" "m < 12"
    and year: "(length year = 4 \<and> atoi year = tm_year g + 1900) \<or>
               (length year = 2 \<and> atoi year = tm_year g mod 100 \<and> tm_year g < 170)" "70 \<le> tm_year g"
  shows "parse_date_elements (Some day) (Some (month_names ! m)) (Some year) (Some (hms g)) z =
           (if tm_year g \<le> 120 then Some g else None)"
proof -
  let ?y = "atoi year"
  have y: "(if length year = 4 then ?y - 1900 else if ?y < 70 then ?y + 100
            else if ?y > 19000 then ?y - 19000 else ?y) = tm_year g"
    using year by (auto; presburger)
  note h = hms_time [OF g]
  have r: "\<lparr>tm_sec = tm_sec g, tm_min = tm_min g, tm_hour = tm_hour g, tm_mday = tm_mday g,
            tm_mon = int m, tm_year = tm_year g\<rparr> = g" using mon by (cases g) simp
  have "tmSaneValues g \<longleftrightarrow> tm_year g \<le> 120"
    using g day mon year(2) by (simp add: tmSaneValues_def)
  then show ?thesis
    unfolding parse_date_elements_def prod.case option.case Let_def make_month_name [OF mon(2)] y h day(1)
    by (simp add: h(6) r)
qed

section \<open>The property\<close>

lemma token_alpha:
  "alpha w \<Longrightarrow> date_token w p = Some
     (if p_wday p = None then p\<lparr>p_wday := Some w\<rparr> else if p_month p = None then p\<lparr>p_month := Some w\<rparr>
      else if p_zone p = None then p\<lparr>p_zone := Some w\<rparr> else p)"
proof -
  assume "alpha w"
  then have "w \<noteq> []" "\<not> isdigit (w ! 0)" by (auto simp: alpha_def hd_conv_nth)
  then show ?thesis by (simp add: date_token_def)
qed

lemma token_number:
  assumes "\<And>c. c \<in> set w \<Longrightarrow> isdigit c" "w \<noteq> []"
  shows "date_token w p = Some
     (if p_day p = None then p\<lparr>p_day := Some w\<rparr> else if p_year p = None then p\<lparr>p_year := Some w\<rparr> else p)"
proof -
  have "isdigit (w ! 0)" using assms by simp
  moreover have "strchr w (CHR ''-'') = None" "strchr w (CHR '':'') = None"
    using assms(1) digit_not_delim by (simp, blast)+
  ultimately show ?thesis using assms(2) by (simp add: date_token_def del: strchr_None)
qed

lemma token_time:
  assumes "p_day p \<noteq> None" shows "date_token (hms g) p = Some (p\<lparr>p_time := Some (hms g)\<rparr>)"
proof -
  from assms obtain d where "p_day p = Some d" by blast
  moreover
  have "isdigit (nth0 (hms g) 0)" unfolding hms_def append_assoc by (rule dec_head)
  moreover have "CHR '':'' \<in> set (hms g)" by (simp add: hms_def)
  then have "strchr (hms g) (CHR '':'') \<noteq> None" by (simp only: strchr_None not_not)
  ultimately show ?thesis by (simp add: date_token_def del: strchr_None nth0.simps)
qed

lemma token_dashed:
  assumes "p_day p = None" "CHR ''-'' \<notin> set w"
  shows "date_token (dec2 d @ CHR ''-'' # w @ CHR ''-'' # dec2 y) p =
           Some (p\<lparr>p_day := Some (dec2 d), p_month := Some w, p_year := Some (dec2 y)\<rparr>)"
proof -
  have "isdigit (nth0 (dec2 d @ CHR ''-'' # w @ CHR ''-'' # dec2 y) 0)" by (rule dec_head)
  with assms show ?thesis by (simp add: date_token_def strchr_before del: nth0.simps)
qed

lemma tokens_rfc1123:
  assumes "k < 7" "m < 12"
  shows "tokens '', '' (week_days ! k @ '', '' @ dec2 d @ '' '' @ month_names ! m @ '' '' @ dec_nat y @ '' '' @ hms g @ '' GMT'')
           = [week_days ! k, dec2 d, month_names ! m, dec_nat y, hms g, ''GMT'']"
proof -
  have "word ''GMT''" by (simp add: word_def)
  with name_words(1) [OF assms(2)] name_words(2,3) [OF assms(1)] show ?thesis by (simp add: tokens_simps)
qed

lemma tokens_rfc850:
  assumes "k < 7" "m < 12"
  shows "tokens '', '' (long_week_days ! k @ '', '' @ dec2 d @ ''-'' @ month_names ! m @ ''-'' @ dec2 y @ '' '' @ hms g @ '' GMT'')
           = [long_week_days ! k, dec2 d @ CHR ''-'' # month_names ! m @ CHR ''-'' # dec2 y, hms g, ''GMT'']"
proof -
  note n = name_words(1) [OF assms(2)] name_words(2,3) [OF assms(1)]
  have "word ''GMT''" by (simp add: word_def)
  moreover have "word (dec2 d @ CHR ''-'' # month_names ! m @ CHR ''-'' # dec2 y)"
    by (intro word_join dec_words n(1)) simp_all
  note tokens_word_delim [OF this, of "CHR '' ''", simplified]
  ultimately show ?thesis using n by (simp add: tokens_simps)
qed

lemma tokens_asctime:
  assumes "k < 7" "m < 12"
  shows "tokens '', '' (week_days ! k @ '' '' @ month_names ! m @ '' '' @
           (if d < 10 then CHR '' '' # dec_nat d else dec_nat d) @ '' '' @ hms g @ '' '' @ dec_nat y)
           = [week_days ! k, month_names ! m, dec_nat d, hms g, dec_nat y]"
  using name_words(1) [OF assms(2)] name_words(2,3) [OF assms(1)] by (simp add: tokens_simps)

lemmas token_simps = token_alpha token_number [OF dec_nat_digits] token_number [OF dec2_digits] token_time no_parts_def

lemma date_forms_parts:
  assumes "k < 7" "m < 12"
  shows "date_loop [week_days ! k, dec2 d, month_names ! m, dec_nat y, hms g, ''GMT''] no_parts =
           Some \<lparr>p_wday = Some (week_days ! k), p_day = Some (dec2 d), p_month = Some (month_names ! m),
                 p_year = Some (dec_nat y), p_time = Some (hms g), p_zone = Some ''GMT''\<rparr>" (is ?A)
    and "date_loop [long_week_days ! k, dec2 d @ CHR ''-'' # month_names ! m @ CHR ''-'' # dec2 y, hms g, ''GMT''] no_parts =
           Some \<lparr>p_wday = Some (long_week_days ! k), p_day = Some (dec2 d), p_month = Some (month_names ! m),
                 p_year = Some (dec2 y), p_time = Some (hms g), p_zone = Some ''GMT''\<rparr>" (is ?B)
    and "date_loop [week_days ! k, month_names ! m, dec_nat d, hms g, dec_nat y] no_parts =
           Some \<lparr>p_wday = Some (week_days ! k), p_day = Some (dec_nat d), p_month = Some (month_names ! m),
                 p_year = Some (dec_nat y), p_time = Some (hms g), p_zone = None\<rparr>" (is ?C)
proof -
  note a = name_alpha(1) [OF assms(2)] name_alpha(2,3) [OF assms(1)]
  have gmt: "alpha ''GMT''" by (simp add: alpha_def isdigit_def ord_def)
  from a(1) have d: "CHR ''-'' \<notin> set (month_names ! m)" by (simp add: alpha_def)
  show ?A using a gmt by (simp add: token_simps)
  show ?B using a gmt by (simp add: token_simps token_dashed [OF _ d])
  show ?C using a gmt by (simp add: token_simps)
qed

section \<open>The property\<close>

lemma gmtime_sane:
  assumes "t < 2 ^ 31"
  obtains m where "tm_mon (gmtime t) = int m" "m < 12"
    and "0 \<le> tm_hour (gmtime t)" "tm_hour (gmtime t) < 24" "0 \<le> tm_min (gmtime t)" "tm_min (gmtime t) < 60"
    and "0 \<le> tm_sec (gmtime t)" "tm_sec (gmtime t) < 60" "1 \<le> tm_mday (gmtime t)" "tm_mday (gmtime t) \<le> 31"
    and "70 \<le> tm_year (gmtime t)" "tm_year (gmtime t) < 170"
    and "tm_year (gmtime t) \<le> 120 \<longleftrightarrow> t < 1609459200"
proof -
  obtain y m e where g: "gmtime t =
      \<lparr>tm_sec = int (t mod 60), tm_min = int (t div 60 mod 60), tm_hour = int (t div 3600 mod 24),
       tm_mday = int e + 1, tm_mon = int m, tm_year = int y - 1900\<rparr>"
    and y: "1970 \<le> y" "m < 12" "e < 31" "days_before_year y + sum_list (take m (month_days y)) + e = t div 86400"
      "t div 86400 < days_before_year (y + 1)"
    by (rule gmtime_cases)
  have "t div 86400 < 25202" using assms by auto
  with y(4) have "\<not> 2039 \<le> y" using days_before_year_mono [of 2039 y] days_before_2039 by auto
  moreover have "y \<le> 2020 \<longleftrightarrow> t div 86400 < 18628"
  proof
    assume "y \<le> 2020"
    then show "t div 86400 < 18628" using days_before_year_mono [of "y + 1" 2021] y(5) days_before_2021 by auto
  next
    assume "t div 86400 < 18628"
    then show "y \<le> 2020" using days_before_year_mono [of 2021 y] y(4) days_before_2021 by (cases "2021 \<le> y") auto
  qed
  moreover have "t div 86400 < 18628 \<longleftrightarrow> t < 1609459200" using div_less_iff_less_mult [of 86400 t 18628] by simp
  ultimately show ?thesis using that [of m] y g by auto
qed

lemma printed_dates:
  assumes "t < 2 ^ 31"
  shows "let r = (if t < 1609459200 then int t else - 1) in
         parse_rfc1123 (Some (mkrfc1123 t)) = r \<and>
         parse_rfc1123 (Some (rfc850_date t)) = r \<and>
         parse_rfc1123 (Some (asctime_date t)) = r"
proof -
  define g k where "g = gmtime t" and "k = (t div 86400 + 4) mod 7"
  obtain m where m: "tm_mon g = int m" "m < 12"
    and c: "0 \<le> tm_hour g" "tm_hour g < 24" "0 \<le> tm_min g" "tm_min g < 60" "0 \<le> tm_sec g" "tm_sec g < 60"
    and d: "1 \<le> tm_mday g" "tm_mday g \<le> 31" and y: "70 \<le> tm_year g" "tm_year g < 170"
    and old: "tm_year g \<le> 120 \<longleftrightarrow> t < 1609459200"
    using gmtime_sane [OF assms] unfolding g_def by metis
  have k: "k < 7" by (simp add: k_def)
  have t: "timegm g = int t" by (simp add: g_def timegm_gmtime)
  define day year where "day = nat (tm_mday g)" and "year = nat (tm_year g + 1900)"
  have days: "atoi (dec2 day) = tm_mday g" "atoi (dec_nat day) = tm_mday g"
    using d atoi_dec2 [of day "[]"] atoi_dec_nat [of day "[]"] by (auto simp: day_def)
  have "\<not> length (dec_nat year) \<le> 3" "length (dec_nat year) \<le> 4"
    using y by (auto simp: length_dec_nat year_def)
  then have long: "length (dec_nat year) = 4 \<and> atoi (dec_nat year) = tm_year g + 1900"
    using y atoi_dec_nat [of year "[]"] by (auto simp: year_def)
  have y2: "nat (tm_year g) mod 100 < 100" by simp
  with y have short: "length (dec2 (nat (tm_year g) mod 100)) = 2 \<and>
      atoi (dec2 (nat (tm_year g) mod 100)) = tm_year g mod 100 \<and> tm_year g < 170"
    using atoi_dec2 [of "nat (tm_year g) mod 100" "[]"] length_dec2 [OF y2] by (simp add: nat_mod_as_int)
  note e = elements_printed [OF c days(1) d m disjI1 [OF long] y(1)] elements_printed [OF c days(2) d m disjI1 [OF long] y(1)]
    elements_printed [OF c days(1) d m disjI2 [OF short] y(1)]
  have nm: "nat (tm_mon g) = m" by (simp add: m)
  have "parse_date (mkrfc1123 t) = (if tm_year g \<le> 120 then Some g else None)"
    unfolding parse_date_def mkrfc1123_def Let_def g_def [symmetric] k_def [symmetric] day_def [symmetric]
      year_def [symmetric] nm tokens_rfc1123 [OF k m(2)] date_forms_parts [OF k m(2)] by (simp add: e)
  moreover have "parse_date (rfc850_date t) = (if tm_year g \<le> 120 then Some g else None)"
    unfolding parse_date_def rfc850_date_def Let_def g_def [symmetric] k_def [symmetric] day_def [symmetric]
      nm tokens_rfc850 [OF k m(2)] date_forms_parts [OF k m(2)] by (simp add: e)
  moreover have "parse_date (asctime_date t) = (if tm_year g \<le> 120 then Some g else None)"
    unfolding parse_date_def asctime_date_def Let_def g_def [symmetric] k_def [symmetric] day_def [symmetric]
      year_def [symmetric] nm tokens_asctime [OF k m(2)] date_forms_parts [OF k m(2)] by (simp add: e)
  ultimately show ?thesis by (simp add: parse_rfc1123_def Let_def t old)
qed

text \<open>
  C31. For every time that a 32-bit \<open>time_t\<close> can hold, the date that \<open>mkrfc1123\<close> prints, and the same
  date in the two other forms that HTTP allows, is read back as that time by \<open>parse_rfc1123\<close>, provided it
  lies before 2021. From 1 January 2021 on no date can be read any more: the result is -1.
\<close>

theorem http_dates_read_back:
  assumes "t < 2 ^ 31"
  shows "let r = (if t < 1609459200 then int t else - 1) in
         parse_rfc1123 (Some (mkrfc1123 t)) = r \<and>
         parse_rfc1123 (Some (rfc850_date t)) = r \<and>
         parse_rfc1123 (Some (asctime_date t)) = r"
  using assms by (rule printed_dates)

theorem http_dates_read_back_witness:
  "parse_rfc1123 (Some (mkrfc1123 784111777)) = 784111777 \<and>
   parse_rfc1123 (Some (mkrfc1123 1700000000)) = - 1"
  using http_dates_read_back [of 784111777] http_dates_read_back [of 1700000000] by (simp add: Let_def)

section \<open>Time zones of the access log\<close>

text \<open>
  The log time is meant to end in the offset of the time zone as sign, hours and minutes. In a zone west
  of Greenwich that is not a whole number of hours the minutes have a sign of their own.
\<close>

definition newfoundland :: "nat \<Rightarrow> tm" where
  \<comment> \<open>03:30 behind\<close>
  "newfoundland t = gmtime (t - 12600)"

lemma gmtime_first_day:
  "t < 86400 \<Longrightarrow> gmtime t = \<lparr>tm_sec = int (t mod 60), tm_min = int (t div 60 mod 60),
     tm_hour = int (t div 3600 mod 24), tm_mday = 1, tm_mon = 0, tm_year = 70\<rparr>"
  by (simp add: gmtime_def year_of.simps [of 1970] year_days_def leap_year_def month_days_def)

lemma printed_numbers:
  "dec_nat 1970 = ''1970''" "dec_nat 30 = ''30''" "dec2 3 = ''03''" "dec2 (Suc 0) = ''01''" "dec2 15 = ''15''"
  "dec2 8 = ''08''" "dec2 30 = ''30''" "dec2 0 = ''00''"
  by (simp_all add: dec2_def dec_nat.simps [of "numeral w" for w] dec_nat.simps [of "Suc 0"] dec_nat.simps [of 0]
      char_of_def bit_0)

lemma log_time_sign:
  "mkhttpdlogtime newfoundland 43200 = ''01/Jan/1970:08:30:00 -03-30''"
  "mkhttpdlogtime (\<lambda>t. gmtime (t + 12600)) 43200 = ''01/Jan/1970:15:30:00 +0330''"
proof -
  show "mkhttpdlogtime newfoundland 43200 = ''01/Jan/1970:08:30:00 -03-30''"
    by (simp add: mkhttpdlogtime_def newfoundland_def gmtime_first_day, simp add: Let_def tm_yday_def)
       (simp add: quot_def dec3p_def dec2s_def hms_def, simp add: printed_numbers dec_int_def month_names_def)
  show "mkhttpdlogtime (\<lambda>t. gmtime (t + 12600)) 43200 = ''01/Jan/1970:15:30:00 +0330''"
    by (simp add: mkhttpdlogtime_def gmtime_first_day, simp add: Let_def tm_yday_def)
       (simp add: quot_def dec3p_def dec2s_def hms_def, simp add: printed_numbers month_names_def)
qed

end
