(* ===== verification/Base64.thy ===== *)
theory Base64
  imports Prelude
begin

text \<open>
  The base64 coding of credentials (\<^verbatim>\<open>squid-mybox/lib/base64.c\<close>): both directions write to a static array of
  8192 bytes and stop before it is full. Decoding skips characters that do not belong to the code, takes the
  padding for zeros and delivers whole groups of three bytes.
\<close>

section \<open>The code\<close>

definition BASE64_RESULT_SZ :: nat where
  "BASE64_RESULT_SZ = 8192"

definition base64_code :: string where
  "base64_code = ''ABCDEFGHIJKLMNOPQRSTUVWXYZabcdefghijklmnopqrstuvwxyz0123456789+/''"

definition base64_value :: "char \<Rightarrow> int" where
  \<comment> \<open>the table that \<open>base64_init\<close> fills\<close>
  "base64_value c =
     (if c = CHR ''='' then 0
      else (case map_of (zip base64_code [0..<64]) c of None \<Rightarrow> - 1 | Some i \<Rightarrow> int i))"

section \<open>Decoding\<close>

fun decode_loop :: "string \<Rightarrow> bytes \<Rightarrow> nat \<Rightarrow> nat \<Rightarrow> bytes" where
  "decode_loop [] result val c = result"
| "decode_loop (p # ps) result val c =
     (if \<not> length result + 4 < BASE64_RESULT_SZ then result
      else if base64_value p < 0 then decode_loop ps result val c
      else
        (let val = val * 64 + nat (base64_value p); c = c + 1 in
         if c < 4 then decode_loop ps result val c
         else decode_loop ps
                (result @ [char_of (val div 65536), char_of (val div 256 mod 256), char_of (val mod 256)]) 0 0))"

definition base64_decode :: "cptr \<Rightarrow> bytes option" where
  \<comment> \<open>the bytes in front of the NUL that is stored at the end\<close>
  "base64_decode p = map_option (\<lambda>p. decode_loop p [] 0 0) p"

section \<open>Encoding\<close>

fun encode_loop :: "bytes \<Rightarrow> string \<Rightarrow> nat \<Rightarrow> nat \<Rightarrow> string \<times> nat \<times> nat" where
  "encode_loop [] result bits char_count = (result, bits, char_count)"
| "encode_loop (c # cs) result bits char_count =
     (if \<not> length result < BASE64_RESULT_SZ - 5 then (result, bits, char_count)
      else
        (let bits = bits + ord c; char_count = char_count + 1 in
         if char_count = 3 then
           encode_loop cs
             (result @ [base64_code ! (bits div 2 ^ 18), base64_code ! (bits div 2 ^ 12 mod 64),
                        base64_code ! (bits div 2 ^ 6 mod 64), base64_code ! (bits mod 64)]) 0 0
         else encode_loop cs result (bits * 256) char_count))"

definition encode_finish :: "string \<times> nat \<times> nat \<Rightarrow> string" where
  "encode_finish st =
     (case st of (result, bits, char_count) \<Rightarrow>
        if char_count \<noteq> 0 then
          (let bits = bits * 2 ^ (16 - 8 * char_count) in
           result @ [base64_code ! (bits div 2 ^ 18), base64_code ! (bits div 2 ^ 12 mod 64)] @
           (if char_count = 1 then ''=='' else [base64_code ! (bits div 2 ^ 6 mod 64), CHR ''='']))
        else result)"

definition base64_encode :: "cptr \<Rightarrow> cptr" where
  "base64_encode decoded_str = map_option (\<lambda>s. encode_finish (encode_loop (cread s) [] 0 0)) decoded_str"

definition base64_encode_bin :: "bytes option \<Rightarrow> nat \<Rightarrow> cptr" where
  "base64_encode_bin data len = map_option (\<lambda>d. encode_finish (encode_loop (take len d) [] 0 0)) data"

section \<open>One group\<close>

lemma base64_value_code: "i < 64 \<Longrightarrow> base64_value (base64_code ! i) = int i"
proof -
  have "\<forall>i \<in> set [0..<64]. base64_value (base64_code ! i) = int i" by code_simp
  then show "i < 64 \<Longrightarrow> base64_value (base64_code ! i) = int i" by simp
qed

lemma base64_value_pad [simp]: "base64_value CHR ''='' = 0"
  by (simp add: base64_value_def)

lemma decode_group:
  assumes "length result + 4 < BASE64_RESULT_SZ"
    and "base64_value a = int i" "base64_value b = int j" "base64_value c = int k" "base64_value d = int l"
    and "((i * 64 + j) * 64 + k) * 64 + l = x * 65536 + y * 256 + z" "x < 256" "y < 256" "z < 256"
  shows "decode_loop (a # b # c # d # ps) result 0 0 = decode_loop ps (result @ [char_of x, char_of y, char_of z]) 0 0"
proof -
  have "(x * 65536 + y * 256 + z) div 65536 = x" "(x * 65536 + y * 256 + z) div 256 mod 256 = y"
    "(x * 65536 + y * 256 + z) mod 256 = z"
  proof -
    have e: "x * 65536 + y * 256 + z = (x * 256 + y) * 256 + z" by simp
    have "y * 256 + z < 65536" using assms(8,9) by simp
    then show "(x * 65536 + y * 256 + z) div 65536 = x" by (simp add: add.assoc)
    have w: "(w * 256 + z) div 256 = w" "(w * 256 + z) mod 256 = z" for w using assms(9) by simp_all
    have "(x * 256 + y) mod 256 = y" using assms(8) by simp
    then show "(x * 65536 + y * 256 + z) div 256 mod 256 = y" by (simp only: e w)
    show "(x * 65536 + y * 256 + z) mod 256 = z" by (simp only: e w)
  qed
  note facts = this
  let ?v = "x * 65536 + y * 256 + z"
  have "decode_loop (a # b # c # d # ps) result 0 0 =
      decode_loop ps (result @ [char_of (?v div 65536), char_of (?v div 256 mod 256), char_of (?v mod 256)]) 0 0"
    using assms(1-6) by (simp add: Let_def)
  then show ?thesis by (simp only: facts)
qed

section \<open>Whole texts\<close>

definition ngroups :: "nat \<Rightarrow> nat" where
  "ngroups n = (n + 2) div 3"

lemma ngroups_simps [simp]: "ngroups (Suc (Suc (Suc n))) = Suc (ngroups n)" "ngroups 0 = 0"
  "ngroups (Suc 0) = 1" "ngroups (Suc (Suc 0)) = 1"
proof -
  have "Suc (Suc (Suc n)) + 2 = n + 2 + 3" by simp
  then show "ngroups (Suc (Suc (Suc n))) = Suc (ngroups n)" by (simp add: ngroups_def)
  show "ngroups 0 = 0" "ngroups (Suc 0) = 1" "ngroups (Suc (Suc 0)) = 1" by (simp_all add: ngroups_def)
qed

definition group_chars :: "nat \<Rightarrow> nat \<Rightarrow> nat \<Rightarrow> string" where
  "group_chars x y z =
     (let b = x * 65536 + y * 256 + z in
      [base64_code ! (b div 2 ^ 18), base64_code ! (b div 2 ^ 12 mod 64),
       base64_code ! (b div 2 ^ 6 mod 64), base64_code ! (b mod 64)])"

lemma four_digits: "(((b div 262144) * 64 + b div 4096 mod 64) * 64 + b div 64 mod 64) * 64 + b mod 64 = (b :: nat)"
proof -
  have "b div 4096 = b div 64 div 64" "b div 262144 = b div 4096 div 64" by (simp_all add: div_mult2_eq)
  then show ?thesis by (metis div_mult_mod_eq)
qed

lemma decode_group_chars:
  assumes "length result + 4 < BASE64_RESULT_SZ" "x < 256" "y < 256" "z < 256"
  shows "decode_loop (group_chars x y z @ ps) result 0 0 = decode_loop ps (result @ [char_of x, char_of y, char_of z]) 0 0"
proof -
  let ?b = "x * 65536 + y * 256 + z"
  have "?b < 64 * 262144" using assms(2-4) by simp
  then have "?b div 262144 < 64" by (simp add: less_mult_imp_div_less)
  then show ?thesis
    unfolding group_chars_def Let_def append_Cons append_Nil
    using assms four_digits [of ?b] by (intro decode_group [OF _ base64_value_code base64_value_code base64_value_code base64_value_code]) simp_all
qed

text \<open>The last group, with one or two bytes, is decoded to zeros in the places of the missing bytes.\<close>

lemma sixty_four: "(m * 64) mod 64 = (0 :: nat)" "(m * 64) div 64 = m"
  by simp_all

lemma decode_last_group:
  assumes "length result + 4 < BASE64_RESULT_SZ" "x < 256" "y < 256"
  shows "decode_loop (encode_finish ([], x * 256, 1)) result 0 0 = result @ [char_of x, NUL, NUL]"
    and "decode_loop (encode_finish ([], (x * 256 + y) * 256, 2)) result 0 0 = result @ [char_of x, char_of y, NUL]"
proof -
  have nul: "char_of (0 :: nat) = NUL" by (simp add: NUL_def char_of_def)
  let ?a = "x * 65536"
  have "?a div 262144 < 64" using assms(2) by (simp add: less_mult_imp_div_less)
  moreover have "?a div 64 mod 64 = 0" "?a mod 64 = 0" using sixty_four [of "x * 1024"] sixty_four [of "x * 16"] by simp_all
  then have "((?a div 262144 * 64 + ?a div 4096 mod 64) * 64 + 0) * 64 + 0 = x * 65536 + 0 * 256 + 0"
    using four_digits [of ?a] by simp
  ultimately have "decode_loop [base64_code ! (?a div 262144), base64_code ! (?a div 4096 mod 64), CHR ''='', CHR ''=''] result 0 0 =
      decode_loop [] (result @ [char_of x, char_of (0 :: nat), char_of (0 :: nat)]) 0 0"
    using assms by (intro decode_group [where i = "?a div 262144" and j = "?a div 4096 mod 64" and k = 0 and l = 0])
      (simp_all only: base64_value_code base64_value_pad of_nat_0 mod_less_divisor zero_less_numeral)
  then show "decode_loop (encode_finish ([], x * 256, 1)) result 0 0 = result @ [char_of x, NUL, NUL]"
    by (simp add: encode_finish_def Let_def mult.assoc nul)
  let ?b = "x * 65536 + y * 256"
  have b: "(x * 256 + y) * 256 = ?b" by simp
  have "?b < 64 * 262144" using assms(2,3) by simp
  then have "?b div 262144 < 64" by (simp add: less_mult_imp_div_less)
  moreover have "?b mod 64 = 0" using sixty_four(1) [of "x * 1024 + y * 4"] by simp
  then have "((?b div 262144 * 64 + ?b div 4096 mod 64) * 64 + ?b div 64 mod 64) * 64 + 0 = x * 65536 + y * 256 + 0"
    using four_digits [of ?b] by simp
  ultimately have "decode_loop [base64_code ! (?b div 262144), base64_code ! (?b div 4096 mod 64),
        base64_code ! (?b div 64 mod 64), CHR ''=''] result 0 0 =
      decode_loop [] (result @ [char_of x, char_of y, char_of (0 :: nat)]) 0 0"
    using assms by (intro decode_group [where i = "?b div 262144" and j = "?b div 4096 mod 64" and k = "?b div 64 mod 64" and l = 0])
      (simp_all only: base64_value_code base64_value_pad of_nat_0 mod_less_divisor zero_less_numeral)
  moreover have "encode_finish ([], ?b, 2) = [base64_code ! (?b div 262144), base64_code ! (?b div 4096 mod 64),
        base64_code ! (?b div 64 mod 64), CHR ''='']"
    unfolding encode_finish_def prod.case Let_def by simp
  ultimately show "decode_loop (encode_finish ([], (x * 256 + y) * 256, 2)) result 0 0 = result @ [char_of x, char_of y, NUL]"
    unfolding b nul by simp
qed

fun groups :: "bytes \<Rightarrow> string" where
  "groups (a # b # c # cs) = group_chars (ord a) (ord b) (ord c) @ groups cs"
| "groups [] = []"
| "groups [a] = encode_finish ([], ord a * 256, 1)"
| "groups [a, b] = encode_finish ([], (ord a * 256 + ord b) * 256, 2)"

lemma encode_finish_append: "encode_finish (r @ s, b, n) = r @ encode_finish (s, b, n)"
  by (simp add: encode_finish_def Let_def)

lemma encode_groups:
  assumes "length result = 4 * n" "n \<le> 2047"
  shows "encode_finish (encode_loop cs result 0 0) = result @ groups (take (3 * (2047 - n)) cs)"
  using assms
proof (induction cs arbitrary: result n rule: groups.induct)
  case (1 a b c cs)
  show ?case
  proof (cases "n = 2047")
    case True
    then show ?thesis using 1 by (simp add: BASE64_RESULT_SZ_def encode_finish_def)
  next
    case False
    let ?r = "result @ group_chars (ord a) (ord b) (ord c)"
    have l: "length ?r = 4 * (n + 1)" using 1 by (simp add: group_chars_def Let_def)
    have "3 * (2047 - n) = Suc (Suc (Suc (3 * (2047 - (n + 1)))))" using 1 False by simp
    then have t: "take (3 * (2047 - n)) (a # b # c # cs) = a # b # c # take (3 * (2047 - (n + 1))) cs"
      by (simp only: take_Suc_Cons)
    have "length result < BASE64_RESULT_SZ - 5" using 1 False by (simp add: BASE64_RESULT_SZ_def)
    then have "encode_loop (a # b # c # cs) result 0 0 = encode_loop cs ?r 0 0"
      by (simp add: group_chars_def Let_def algebra_simps)
    then show ?thesis using 1(1) [OF l] False 1(3) by (simp add: t)
  qed
next
  case (3 a)
  show ?case
  proof (cases "n = 2047")
    case True
    then show ?thesis using 3 by (simp add: BASE64_RESULT_SZ_def encode_finish_def)
  next
    case False
    with 3 have "length result < BASE64_RESULT_SZ - 5" by (simp add: BASE64_RESULT_SZ_def)
    moreover have "take (3 * (2047 - n)) [a] = [a]" using False 3 by (cases "3 * (2047 - n)") auto
    ultimately show ?thesis using encode_finish_append [of result "[]"] by simp
  qed
next
  case (4 a b)
  show ?case
  proof (cases "n = 2047")
    case True
    then show ?thesis using 4 by (simp add: BASE64_RESULT_SZ_def encode_finish_def)
  next
    case False
    with 4 have "length result < BASE64_RESULT_SZ - 5" by (simp add: BASE64_RESULT_SZ_def)
    moreover have "take (3 * (2047 - n)) [a, b] = [a, b]" using False 4 by (intro take_all) simp
    ultimately show ?thesis using encode_finish_append [of result "[]"] by (simp add: algebra_simps numeral_2_eq_2)
  qed
qed (simp add: encode_finish_def)

lemma length_groups: "length (groups cs) = 4 * (ngroups (length cs))"
  by (induction cs rule: groups.induct) (simp_all add: group_chars_def Let_def encode_finish_def)

lemma decode_groups:
  assumes "length result = 3 * n" "n + ngroups (length cs) \<le> 2729"
  shows "decode_loop (groups cs) result 0 0 =
           result @ cs @ replicate (3 * (ngroups (length cs)) - length cs) NUL"
  using assms
proof (induction cs arbitrary: result n rule: groups.induct)
  case (1 a b c cs)
  have "length result + 4 < BASE64_RESULT_SZ" using 1 by (simp add: BASE64_RESULT_SZ_def)
  then have "decode_loop (groups (a # b # c # cs)) result 0 0 = decode_loop (groups cs) (result @ [a, b, c]) 0 0"
    using decode_group_chars [of result "ord a" "ord b" "ord c"] by (simp add: ord_def)
  also have "\<dots> = (result @ [a, b, c]) @ cs @ replicate (3 * (ngroups (length cs)) - length cs) NUL"
    using 1 by (intro 1(1) [of _ "n + 1"]) auto
  finally show ?case by simp
next
  case (3 a)
  then have "length result + 4 < BASE64_RESULT_SZ" by (simp add: BASE64_RESULT_SZ_def)
  from decode_last_group(1) [OF this, of "ord a" 0] show ?case by (simp add: ord_def numeral_2_eq_2)
next
  case (4 a b)
  then have "length result + 4 < BASE64_RESULT_SZ" by (simp add: BASE64_RESULT_SZ_def)
  from decode_last_group(2) [OF this, of "ord a" "ord b"] show ?case by (simp add: ord_def numeral_2_eq_2)
qed simp

section \<open>The property\<close>



end
