(* ===== verification/HttpTyped.thy ===== *)
theory HttpTyped
  imports FieldText HttpDate Base64
begin

text \<open>
  Typed access to the fields of a message header (\<^verbatim>\<open>httpHeaderPut...\<close> and \<^verbatim>\<open>httpHeaderGet...\<close> of
  \<^verbatim>\<open>squid-mybox/src/HttpHeader.c\<close>), and the anonymizer that edits a header by the access rules
  (\<^verbatim>\<open>httpHdrMangleList\<close> of \<^verbatim>\<open>HttpHeaderTools.c\<close>). As in \<open>HttpHeader\<close>, the outer \<open>None\<close> is a failed
  assertion; the inner one is the NULL pointer.
\<close>

section \<open>Storing\<close>

definition hdr_type :: "http_hdr_type \<Rightarrow> field_type option" where
  \<comment> \<open>\<open>Headers[id].type\<close>\<close>
  "hdr_type i = map_of (map (\<lambda>(n, i, t). (i, t)) HeadersAttrs) i"

definition httpHeaderPutInt :: "http_header \<Rightarrow> http_hdr_type \<Rightarrow> int \<Rightarrow> http_header option" where
  "httpHeaderPutInt hdr i number =
     (if hdr_type i \<noteq> Some ftInt \<or> number < 0 then None
      else Some (httpHeaderAddEntry hdr (httpHeaderEntryCreate i [] (dec_int number))))"

definition httpHeaderPutSize :: "http_header \<Rightarrow> http_hdr_type \<Rightarrow> int \<Rightarrow> http_header option" where
  "httpHeaderPutSize hdr i number =
     (if hdr_type i \<noteq> Some ftSize \<or> number < 0 then None
      else Some (httpHeaderAddEntry hdr (httpHeaderEntryCreate i [] (dec_int number))))"

definition httpHeaderPutTime :: "http_header \<Rightarrow> http_hdr_type \<Rightarrow> int \<Rightarrow> http_header option" where
  "httpHeaderPutTime hdr i htime =
     (if hdr_type i \<noteq> Some ftDate_1123 \<or> htime < 0 then None
      else Some (httpHeaderAddEntry hdr (httpHeaderEntryCreate i [] (mkrfc1123 (nat htime)))))"

definition httpHeaderInsertTime :: "http_header \<Rightarrow> nat \<Rightarrow> http_hdr_type \<Rightarrow> int \<Rightarrow> http_header option" where
  "httpHeaderInsertTime hdr pos i htime =
     (if hdr_type i \<noteq> Some ftDate_1123 \<or> htime < 0 then None
      else Some (httpHeaderInsertEntry hdr (httpHeaderEntryCreate i [] (mkrfc1123 (nat htime))) pos))"

definition replace_field :: "http_header \<Rightarrow> http_hdr_type \<Rightarrow> string \<Rightarrow> http_header option" where
  \<comment> \<open>the common part of the next three: remove the old fields and put the packed value\<close>
  "replace_field hdr i buf =
     map_option (\<lambda>(hdr, n). httpHeaderAddEntry hdr (httpHeaderEntryCreate i [] buf)) (httpHeaderDelById hdr i)"

definition httpHeaderPutCc :: "http_header \<Rightarrow> http_cc \<Rightarrow> http_header option" where
  "httpHeaderPutCc hdr cc = replace_field hdr HDR_CACHE_CONTROL (httpHdrCcPackInto cc)"

definition httpHeaderPutContRange :: "http_header \<Rightarrow> cont_range \<Rightarrow> http_header option" where
  "httpHeaderPutContRange hdr cr = replace_field hdr HDR_CONTENT_RANGE (httpHdrContRangePackInto cr)"

definition httpHeaderPutRange :: "http_header \<Rightarrow> range_spec list \<Rightarrow> http_header option" where
  "httpHeaderPutRange hdr specs = replace_field hdr HDR_RANGE (httpHdrRangePackInto specs)"

definition httpHdrContRangeCreate :: cont_range where
  "httpHdrContRangeCreate = \<lparr>cr_spec = \<lparr>offset = cr_unknown, len = cr_unknown\<rparr>, elength = cr_unknown\<rparr>"

definition httpHeaderAddContRange :: "http_header \<Rightarrow> range_spec \<Rightarrow> int \<Rightarrow> http_header option" where
  "httpHeaderAddContRange hdr spec ent_len =
     (if ent_len < 0 then None
      else
        (case httpHdrContRangeSet httpHdrContRangeCreate spec ent_len of
           None \<Rightarrow> None
         | Some cr \<Rightarrow> httpHeaderPutContRange hdr cr))"

section \<open>Reading\<close>

text \<open>A number that cannot be parsed is 0, an absent one -1.\<close>

definition httpHeaderGetInt :: "http_header \<Rightarrow> http_hdr_type \<Rightarrow> int option" where
  "httpHeaderGetInt hdr i =
     (if hdr_type i \<noteq> Some ftInt then None
      else map_option (\<lambda>e. case e of None \<Rightarrow> - 1 | Some e \<Rightarrow> snd (httpHeaderParseInt (evalue e))) (httpHeaderFindEntry hdr i))"

definition httpHeaderGetSize :: "http_header \<Rightarrow> http_hdr_type \<Rightarrow> int option" where
  "httpHeaderGetSize hdr i =
     (if hdr_type i \<noteq> Some ftSize then None
      else map_option (\<lambda>e. case e of None \<Rightarrow> - 1 | Some e \<Rightarrow> snd (httpHeaderParseSize (evalue e))) (httpHeaderFindEntry hdr i))"

definition httpHeaderGetTime :: "http_header \<Rightarrow> http_hdr_type \<Rightarrow> int option" where
  "httpHeaderGetTime hdr i =
     (if hdr_type i \<noteq> Some ftDate_1123 then None
      else map_option (\<lambda>e. case e of None \<Rightarrow> - 1 | Some e \<Rightarrow> parse_rfc1123 (Some (evalue e))) (httpHeaderFindEntry hdr i))"

definition httpHeaderGetStr :: "http_header \<Rightarrow> http_hdr_type \<Rightarrow> cptr option" where
  "httpHeaderGetStr hdr i =
     (if hdr_type i \<noteq> Some ftStr then None else map_option (map_option evalue) (httpHeaderFindEntry hdr i))"

definition httpHeaderGetLastStr :: "http_header \<Rightarrow> http_hdr_type \<Rightarrow> cptr option" where
  "httpHeaderGetLastStr hdr i =
     (if hdr_type i \<noteq> Some ftStr then None else map_option (map_option evalue) (httpHeaderFindLastEntry hdr i))"

definition httpHeaderGetCc :: "http_header \<Rightarrow> http_cc option option" where
  "httpHeaderGetCc hdr =
     (if HDR_CACHE_CONTROL \<notin> hmask hdr then Some None
      else map_option httpHdrCcParseCreate (httpHeaderGetList hdr HDR_CACHE_CONTROL))"

definition httpHeaderGetRange :: "http_header \<Rightarrow> range_spec list option option" where
  "httpHeaderGetRange hdr =
     (case httpHeaderFindEntry hdr HDR_RANGE of
        None \<Rightarrow> None
      | Some (Some e) \<Rightarrow> Some (httpHdrRangeParseCreate (evalue e))
      | Some None \<Rightarrow>
          map_option (\<lambda>e. case e of None \<Rightarrow> None | Some e \<Rightarrow> httpHdrRangeParseCreate (evalue e))
            (httpHeaderFindEntry hdr HDR_REQUEST_RANGE))"

definition httpHeaderGetContRange :: "http_header \<Rightarrow> cont_range option option" where
  "httpHeaderGetContRange hdr =
     map_option (\<lambda>e. case e of None \<Rightarrow> None | Some e \<Rightarrow> httpHdrContRangeParseCreate (evalue e))
       (httpHeaderFindEntry hdr HDR_CONTENT_RANGE)"

definition httpHeaderGetAuth :: "http_header \<Rightarrow> http_hdr_type \<Rightarrow> string \<Rightarrow> bytes option option" where
  "httpHeaderGetAuth hdr i auth_scheme =
     map_option
       (\<lambda>field. case field of
          None \<Rightarrow> None
        | Some field \<Rightarrow>
            (let l = length auth_scheme in
             if l = 0 \<or> \<not> strcasecmp0 (take l field) auth_scheme then None
             else
               (let field = drop l field in
                if field = [] \<or> \<not> isspace (hd field) then None
                else
                  (let field = dropWhile isspace field in
                   if field = [] then None else base64_decode (Some field)))))
       (httpHeaderGetStr hdr i)"

definition httpHeaderGetETag :: "http_header \<Rightarrow> http_hdr_type \<Rightarrow> etag option" where
  \<comment> \<open>\<open>weak\<close> is -1 when there is no field, which counts as true\<close>
  "httpHeaderGetETag hdr i =
     (if hdr_type i \<noteq> Some ftETag then None
      else map_option (\<lambda>e. case e of None \<Rightarrow> \<lparr>weak = True, tag_str = None\<rparr> | Some e \<Rightarrow> etagParseInit (evalue e))
             (httpHeaderFindEntry hdr i))"

record time_or_tag =
  tot_tag :: etag
  tot_time :: int
  tot_valid :: bool

definition httpHeaderGetTimeOrTag :: "http_header \<Rightarrow> http_hdr_type \<Rightarrow> time_or_tag option" where
  "httpHeaderGetTimeOrTag hdr i =
     (if hdr_type i \<noteq> Some ftDate_1123_or_ETag then None
      else
        (case httpHeaderFindEntry hdr i of
           None \<Rightarrow> None
         | Some e \<Rightarrow>
             (let tot =
                (case e of
                   None \<Rightarrow> \<lparr>tot_tag = \<lparr>weak = False, tag_str = None\<rparr>, tot_time = 0, tot_valid = False\<rparr>
                 | Some e \<Rightarrow>
                     (let tag = etagParseInit (evalue e) in
                      if tag_str tag \<noteq> None then \<lparr>tot_tag = tag, tot_time = - 1, tot_valid = True\<rparr>
                      else
                        (let t = parse_rfc1123 (Some (evalue e)) in
                         \<lparr>tot_tag = tag\<lparr>tag_str := None\<rparr>, tot_time = t, tot_valid = t \<ge> 0\<rparr>)))
              in if tot_time tot < 0 \<or> tag_str (tot_tag tot) = None then Some tot else None)))"

section \<open>The anonymizer\<close>

text \<open>
  An entry of \<open>Config.header_access\<close>: the access list (\<open>None\<close> for none) and the replacement. The
  answer of \<open>aclCheckFast\<close> for the request is an argument. Entries for unknown fields are found by name.
\<close>

record 'a mangler =
  mname :: string
  access_list :: "'a option"
  replacement :: cptr

type_synonym 'a header_access = "(http_hdr_type \<Rightarrow> 'a mangler) \<times> 'a mangler list"

datatype mangled = Kept | Denied | Replaced string

definition httpHdrMangle :: "('a \<Rightarrow> bool) \<Rightarrow> 'a header_access \<Rightarrow> http_entry \<Rightarrow> mangled" where
  "httpHdrMangle allow conf e =
     (case (if eid e = HDR_OTHER then List.find (\<lambda>hm. ename e = mname hm) (snd conf) else Some (fst conf (eid e))) of
        None \<Rightarrow> Kept
      | Some hm \<Rightarrow>
          (case access_list hm of
             None \<Rightarrow> Kept
           | Some acl \<Rightarrow>
               (if allow acl then Kept
                else (case replacement hm of None \<Rightarrow> Denied | Some s \<Rightarrow> Replaced s))))"

function mangle_loop :: "(http_entry \<Rightarrow> mangled) \<Rightarrow> http_header \<Rightarrow> nat \<Rightarrow> http_header option" where
  "mangle_loop mangle l p =
     (case httpHeaderGetEntry l p of
        None \<Rightarrow> Some l
      | Some (q, e) \<Rightarrow>
          (case mangle e of
             Kept \<Rightarrow> mangle_loop mangle l q
           | Replaced s \<Rightarrow> mangle_loop mangle (l\<lparr>entries := (entries l)[q - 1 := Some (e\<lparr>evalue := s\<rparr>)]\<rparr>) q
           | Denied \<Rightarrow>
               (case httpHeaderDelAt l (q - 1) of
                  None \<Rightarrow> None
                | Some l' \<Rightarrow> mangle_loop mangle l' q)))"
  by pat_completeness auto
termination
  by (relation "measure (\<lambda>(mangle, l, p). length (entries l) - p)")
     (auto simp: httpHeaderGetEntry_def dest!: get_entry_bounds)

declare mangle_loop.simps [simp del]

definition httpHdrMangleList :: "('a \<Rightarrow> bool) \<Rightarrow> 'a header_access \<Rightarrow> http_header \<Rightarrow> http_header option" where
  "httpHdrMangleList allow conf l = mangle_loop (httpHdrMangle allow conf) l 0"

section \<open>Reading what was stored\<close>

abbreviation live :: "http_header \<Rightarrow> http_entry list" where
  "live \<equiv> HttpHeader.fields"

lemma find_snoc: "List.find P xs = None \<Longrightarrow> List.find P (xs @ [e]) = (if P e then Some e else None)"
  by (induction xs) (auto split: if_splits)

lemma find_put:
  assumes "hdr_ok hdr" "i \<notin> hmask hdr" "i \<notin> ListHeadersMask"
  shows "httpHeaderFindEntry (httpHeaderAddEntry hdr (httpHeaderEntryCreate i n v)) i = Some (Some (httpHeaderEntryCreate i n v))"
proof -
  have "List.find (\<lambda>e. eid e = i) (live hdr) = None" using assms(1,2) by (auto simp: hdr_ok_def find_None_iff)
  then show ?thesis
    using FindEntry_ok [OF _ assms(3), of "httpHeaderAddEntry hdr (httpHeaderEntryCreate i n v)"]
      AddEntry_ok [OF assms(1), of "httpHeaderEntryCreate i n v"]
    by (simp add: find_snoc) (simp add: httpHeaderEntryCreate_def)
qed

lemma hdr_type_not_list:
  assumes "hdr_type i = Some t" "t \<noteq> ftStr" "t \<noteq> ftPCc" shows "i \<notin> ListHeadersMask"
proof -
  from assms(1) have "(i, t) \<in> set (map (\<lambda>(n, i, t). (i, t)) HeadersAttrs)" unfolding hdr_type_def by (rule map_of_SomeD)
  with assms(2,3) show ?thesis
    by (simp add: HeadersAttrs_def ListHeadersMask_def ListHeadersArr_def) (elim disjE; simp)
qed

lemma parse_int_printed: "0 \<le> n \<Longrightarrow> n < 2 ^ 31 \<Longrightarrow> snd (httpHeaderParseInt (dec_int n)) = n"
  using atoi_dec_nat [of "nat n" "[]"] by (simp add: httpHeaderParseInt_def Let_def dec_int_def)

lemma parse_size_printed: "0 \<le> n \<Longrightarrow> n < 2 ^ 63 \<Longrightarrow> snd (httpHeaderParseSize (dec_int n)) = n"
  using strtoll_dec_nat [of "nat n" "[]"] by (simp add: httpHeaderParseSize_def dec_int_def)

lemma replace_field_ok:
  assumes "hdr_ok hdr" "i \<noteq> HDR_OTHER"
  obtains h where "replace_field hdr i v = Some h" "hdr_ok h"
    and "live h = filter (\<lambda>e. eid e \<noteq> i) (live hdr) @ [httpHeaderEntryCreate i [] v]"
proof -
  from DelById_ok [OF assms] obtain h n where h: "httpHeaderDelById hdr i = Some (h, n)" "hdr_ok h"
    "live h = filter (\<lambda>e. eid e \<noteq> i) (live hdr)" by auto
  with AddEntry_ok [OF h(2), of "httpHeaderEntryCreate i [] v"] that show ?thesis by (simp add: replace_field_def)
qed

lemma get_replaced:
  assumes "hdr_ok h" "live h = filter (\<lambda>e. eid e \<noteq> i) fs @ [httpHeaderEntryCreate i [] v]"
  shows "i \<in> hmask h"
    and "i \<notin> ListHeadersMask \<Longrightarrow> httpHeaderFindEntry h i = Some (Some (httpHeaderEntryCreate i [] v))"
    and "i \<in> ListHeadersMask \<Longrightarrow> httpHeaderGetList h i = Some v"
proof -
  have e: "eid (httpHeaderEntryCreate i [] v) = i" "evalue (httpHeaderEntryCreate i [] v) = v"
    by (simp_all add: httpHeaderEntryCreate_def)
  show "i \<in> hmask h" using assms e by (simp add: hdr_ok_def)
  have "List.find (\<lambda>e. eid e = i) (filter (\<lambda>e. eid e \<noteq> i) fs) = None" by (auto simp: find_None_iff)
  then show "i \<notin> ListHeadersMask \<Longrightarrow> httpHeaderFindEntry h i = Some (Some (httpHeaderEntryCreate i [] v))"
    using FindEntry_ok [OF assms(1)] by (simp add: assms(2) find_snoc e)
  have "filter (\<lambda>e. eid e = i) (live h) = [httpHeaderEntryCreate i [] v]" by (simp add: assms(2) e filter_empty_conv)
  then show "i \<in> ListHeadersMask \<Longrightarrow> httpHeaderGetList h i = Some v"
    using GetList_ok [OF assms(1)] by (simp add: e strListAdd_def)
qed

lemma cc_range_masks: "HDR_CACHE_CONTROL \<in> ListHeadersMask" "HDR_CONTENT_RANGE \<notin> ListHeadersMask"
  by (simp_all add: ListHeadersMask_def ListHeadersArr_def)

text \<open>
  C34. The typed access functions fit together, whatever else a consistent header holds: a number, size or
  time that is put under a type the header does not have yet is what the reading function returns, except
  that times from 2021 on are read as -1; cache directives that the proxy has parsed, and content ranges
  that have a range and a length below 2 GB, replace whatever was there and are read back unchanged.
\<close>

theorem typed_fields_read_back:
  assumes "hdr_ok hdr"
  shows "(\<forall>i n. hdr_type i = Some ftInt \<and> i \<notin> hmask hdr \<and> 0 \<le> n \<and> n < 2 ^ 31 \<longrightarrow>
            (\<exists>h. httpHeaderPutInt hdr i n = Some h \<and> hdr_ok h \<and> httpHeaderGetInt h i = Some n)) \<and>
         (\<forall>i n. hdr_type i = Some ftSize \<and> i \<notin> hmask hdr \<and> 0 \<le> n \<and> n < 2 ^ 63 \<longrightarrow>
            (\<exists>h. httpHeaderPutSize hdr i n = Some h \<and> hdr_ok h \<and> httpHeaderGetSize h i = Some n)) \<and>
         (\<forall>i t. hdr_type i = Some ftDate_1123 \<and> i \<notin> hmask hdr \<and> 0 \<le> t \<and> t < 2 ^ 31 \<longrightarrow>
            (\<exists>h. httpHeaderPutTime hdr i t = Some h \<and> hdr_ok h \<and>
                 httpHeaderGetTime h i = Some (if t < 1609459200 then t else - 1))) \<and>
         (\<forall>s cc. httpHdrCcParseCreate s = Some cc \<longrightarrow>
            (\<exists>h. httpHeaderPutCc hdr cc = Some h \<and> hdr_ok h \<and> httpHeaderGetCc h = Some (Some cc))) \<and>
         (\<forall>cr :: cont_range. 0 \<le> offset (cr_spec cr) \<and> 0 < len (cr_spec cr) \<and> offset (cr_spec cr) + len (cr_spec cr) < 2 ^ 63 \<and>
            offset (cr_spec cr) \<noteq> cr_unknown \<and> len (cr_spec cr) \<noteq> cr_unknown \<and>
            (elength cr = cr_unknown \<or> 0 \<le> elength cr \<and> elength cr < 2 ^ 31) \<longrightarrow>
            (\<exists>h. httpHeaderPutContRange hdr cr = Some h \<and> hdr_ok h \<and> httpHeaderGetContRange h = Some (Some cr)))"
proof (intro conjI allI impI)
  note put = AddEntry_ok [OF assms] find_put [OF assms]
  fix i n assume a: "hdr_type i = Some ftInt \<and> i \<notin> hmask hdr \<and> 0 \<le> n \<and> n < (2 :: int) ^ 31"
  then have "i \<notin> ListHeadersMask" using hdr_type_not_list by blast
  with a put show "\<exists>h. httpHeaderPutInt hdr i n = Some h \<and> hdr_ok h \<and> httpHeaderGetInt h i = Some n"
    by (simp add: httpHeaderPutInt_def httpHeaderGetInt_def) (simp add: httpHeaderEntryCreate_def parse_int_printed)
next
  note put = AddEntry_ok [OF assms] find_put [OF assms]
  fix i n assume a: "hdr_type i = Some ftSize \<and> i \<notin> hmask hdr \<and> 0 \<le> n \<and> n < (2 :: int) ^ 63"
  then have "i \<notin> ListHeadersMask" using hdr_type_not_list by blast
  with a put show "\<exists>h. httpHeaderPutSize hdr i n = Some h \<and> hdr_ok h \<and> httpHeaderGetSize h i = Some n"
    by (simp add: httpHeaderPutSize_def httpHeaderGetSize_def) (simp add: httpHeaderEntryCreate_def parse_size_printed)
next
  note put = AddEntry_ok [OF assms] find_put [OF assms]
  fix i t assume a: "hdr_type i = Some ftDate_1123 \<and> i \<notin> hmask hdr \<and> 0 \<le> t \<and> t < (2 :: int) ^ 31"
  then have "i \<notin> ListHeadersMask" using hdr_type_not_list by blast
  moreover from a have "parse_rfc1123 (Some (mkrfc1123 (nat t))) = (if t < 1609459200 then t else - 1)"
    using printed_dates [of "nat t"] by (auto simp: Let_def)
  ultimately show "\<exists>h. httpHeaderPutTime hdr i t = Some h \<and> hdr_ok h \<and>
                 httpHeaderGetTime h i = Some (if t < 1609459200 then t else - 1)"
    using a put by (simp add: httpHeaderPutTime_def httpHeaderGetTime_def) (simp add: httpHeaderEntryCreate_def)
next
  fix s cc assume "httpHdrCcParseCreate s = Some cc"
  then have r: "httpHdrCcParseCreate (httpHdrCcPackInto cc) = Some cc" by (rule cache_control_roundtrip)
  obtain h where h: "replace_field hdr HDR_CACHE_CONTROL (httpHdrCcPackInto cc) = Some h" "hdr_ok h"
    "live h = filter (\<lambda>e. eid e \<noteq> HDR_CACHE_CONTROL) (live hdr) @ [httpHeaderEntryCreate HDR_CACHE_CONTROL [] (httpHdrCcPackInto cc)]"
    by (rule replace_field_ok [OF assms, of HDR_CACHE_CONTROL]) simp_all
  with get_replaced [OF h(2,3)] r show "\<exists>h. httpHeaderPutCc hdr cc = Some h \<and> hdr_ok h \<and> httpHeaderGetCc h = Some (Some cc)"
    by (simp add: httpHeaderPutCc_def httpHeaderGetCc_def cc_range_masks)
next
  fix cr :: cont_range assume a: "0 \<le> offset (cr_spec cr) \<and> 0 < len (cr_spec cr) \<and> offset (cr_spec cr) + len (cr_spec cr) < 2 ^ 63 \<and>
            offset (cr_spec cr) \<noteq> cr_unknown \<and> len (cr_spec cr) \<noteq> cr_unknown \<and>
            (elength cr = cr_unknown \<or> 0 \<le> elength cr \<and> elength cr < 2 ^ 31)"
  then have r: "httpHdrContRangeParseCreate (httpHdrContRangePackInto cr) = Some cr" using content_range_roundtrip by blast
  obtain h where h: "replace_field hdr HDR_CONTENT_RANGE (httpHdrContRangePackInto cr) = Some h" "hdr_ok h"
    "live h = filter (\<lambda>e. eid e \<noteq> HDR_CONTENT_RANGE) (live hdr) @ [httpHeaderEntryCreate HDR_CONTENT_RANGE [] (httpHdrContRangePackInto cr)]"
    by (rule replace_field_ok [OF assms, of HDR_CONTENT_RANGE]) simp_all
  with get_replaced [OF h(2,3)] r
  show "\<exists>h. httpHeaderPutContRange hdr cr = Some h \<and> hdr_ok h \<and> httpHeaderGetContRange h = Some (Some cr)"
    by (simp add: httpHeaderPutContRange_def httpHeaderGetContRange_def cc_range_masks) (simp add: httpHeaderEntryCreate_def)
qed

lemma known_types_of:
  shows "hdr_type HDR_DATE = Some ftDate_1123" "hdr_type HDR_AGE = Some ftInt" "hdr_type HDR_CONTENT_LENGTH = Some ftSize"
proof -
  have t: "hdr_type i = Some t" if "(n, i, t) \<in> set HeadersAttrs" for n i t
    unfolding hdr_type_def
  proof (rule map_of_is_SomeI)
    show "distinct (map fst (map (\<lambda>(n, i, t). (i, t)) HeadersAttrs))"
      using header_types_distinct by (simp add: comp_def split_def)
    show "(i, t) \<in> set (map (\<lambda>(n, i, t). (i, t)) HeadersAttrs)" using that by force
  qed
  show "hdr_type HDR_DATE = Some ftDate_1123" by (rule t [of "''Date''"]) (simp add: HeadersAttrs_def)
  show "hdr_type HDR_AGE = Some ftInt" by (rule t [of "''Age''"]) (simp add: HeadersAttrs_def)
  show "hdr_type HDR_CONTENT_LENGTH = Some ftSize" by (rule t [of "''Content-Length''"]) (simp add: HeadersAttrs_def)
qed

theorem typed_fields_read_back_witness:
  "\<exists>h. httpHeaderPutTime httpHeaderInit HDR_DATE 784111777 = Some h \<and> httpHeaderGetTime h HDR_DATE = Some 784111777"
proof -
  have "HDR_DATE \<notin> hmask httpHeaderInit" by (simp add: httpHeaderInit_def)
  then have "hdr_type HDR_DATE = Some ftDate_1123 \<and> HDR_DATE \<notin> hmask httpHeaderInit \<and> 0 \<le> (784111777 :: int) \<and> (784111777 :: int) < 2 ^ 31"
    using known_types_of(1) by simp
  from typed_fields_read_back [OF hdr_ok_Init(1), THEN conjunct2, THEN conjunct2, THEN conjunct1, THEN spec, THEN spec, THEN mp, OF this]
  show ?thesis by auto
qed

section \<open>What the anonymizer leaves\<close>

definition mangle_field :: "(http_entry \<Rightarrow> mangled) \<Rightarrow> http_entry \<Rightarrow> http_entry option" where
  "mangle_field mangle e = (case mangle e of Kept \<Rightarrow> Some e | Denied \<Rightarrow> None | Replaced s \<Rightarrow> Some (e\<lparr>evalue := s\<rparr>))"

abbreviation mangle_slot :: "(http_entry \<Rightarrow> mangled) \<Rightarrow> http_entry option \<Rightarrow> http_entry option" where
  "mangle_slot mangle x \<equiv> Option.bind x (mangle_field mangle)"

lemma somes_mangled: "somes (map (mangle_slot mangle) es) = List.map_filter (mangle_field mangle) (somes es)"
proof (induction es rule: somes.induct)
  case (3 e es)
  then show ?case by (cases "mangle_field mangle e") (simp_all add: map_filter_simps)
qed (simp_all add: map_filter_simps)

lemma mangled_gaps: "somes es = [] \<Longrightarrow> map (mangle_slot mangle) es = es"
  by (induction es rule: somes.induct) auto

lemma mangle_loop_spec:
  assumes "sum_list (map entry_len (somes (drop p (entries l)))) \<le> hlen l"
  shows "\<exists>l'. mangle_loop mangle l p = Some l' \<and> hmask l' = hmask l \<and>
           entries l' = take p (entries l) @ map (mangle_slot mangle) (drop p (entries l))"
  using assms
proof (induction mangle l p rule: mangle_loop.induct)
  case (1 mangle l p)
  show ?case
  proof (cases "get_entry (entries l) p")
    case None
    then have "somes (drop p (entries l)) = []" by (simp add: get_entry_None)
    then have "map (mangle_slot mangle) (drop p (entries l)) = drop p (entries l)" by (rule mangled_gaps)
    with None show ?thesis by (simp add: mangle_loop.simps [of mangle l] httpHeaderGetEntry_def)
  next
    case (Some qe)
    obtain q e where qe: "qe = (q, e)" by (cases qe)
    obtain k where k: "entries l = take p (entries l) @ replicate k None @ Some e # drop q (entries l)"
      "q = p + k + 1" "p < length (entries l)"
      by (rule get_entry_split [OF Some [unfolded qe]])
    have g: "httpHeaderGetEntry l p = Some (q, e)" using Some qe by (simp add: httpHeaderGetEntry_def)
    define A B where "A = take p (entries l) @ replicate k None" and "B = drop q (entries l)"
    have es: "entries l = A @ Some e # B" using k(1) by (simp add: A_def B_def)
    have lA: "length A = q - 1" "length A = p + k" using k(2,3) by (simp_all add: A_def)
    have d: "drop p (entries l) = replicate k None @ Some e # B"
      using k(1,3) by (metis B_def append_eq_conv_conj length_take min.absorb4)
    have m: "map (mangle_slot mangle) (drop p (entries l)) =
        replicate k None @ mangle_field mangle e # map (mangle_slot mangle) B" by (simp add: d)
    have s: "entry_len e + sum_list (map entry_len (somes B)) \<le> hlen l" using 1(4) by (simp add: d)
    have goal: "take p (entries l) @ map (mangle_slot mangle) (drop p (entries l)) =
        A @ mangle_field mangle e # map (mangle_slot mangle) B" by (simp add: m A_def)
    have q: "q = Suc (length A)" using lA k(2) by simp
    have B: "sum_list (map entry_len (somes B)) \<le> hlen l" using s entry_len_pos [of e] by linarith
    show ?thesis
    proof (cases "mangle e")
      case Kept
      then have "mangle_loop mangle l p = mangle_loop mangle l q" "mangle_field mangle e = Some e"
        using g by (simp_all add: mangle_loop.simps [of mangle l p] mangle_field_def)
      moreover have "\<exists>l'. mangle_loop mangle l q = Some l' \<and> hmask l' = hmask l \<and>
          entries l' = take q (entries l) @ map (mangle_slot mangle) (drop q (entries l))"
        by (rule 1(1) [OF g refl Kept]) (use B in \<open>simp add: es q\<close>)
      ultimately show ?thesis unfolding goal by (simp add: es q)
    next
      case Denied
      let ?l = "l\<lparr>entries := A @ None # B, hlen := hlen l - entry_len e\<rparr>"
      have "entry_len e \<le> hlen l" using s sum_entry_len_nonneg [of "somes B"] by linarith
      then have del: "httpHeaderDelAt l (q - 1) = Some ?l" using DelAt_eq [OF es] lA(1) by simp
      have "mangle_loop mangle l p = mangle_loop mangle ?l q" "mangle_field mangle e = None"
        using g Denied del by (simp_all add: mangle_loop.simps [of mangle l p] mangle_field_def)
      moreover have "\<exists>l'. mangle_loop mangle ?l q = Some l' \<and> hmask l' = hmask ?l \<and>
          entries l' = take q (entries ?l) @ map (mangle_slot mangle) (drop q (entries ?l))"
        by (rule 1(2) [OF g refl Denied del]) (use s in \<open>simp add: q\<close>)
      ultimately show ?thesis unfolding goal by (simp add: q)
    next
      case (Replaced v)
      let ?l = "l\<lparr>entries := (entries l)[q - 1 := Some (e\<lparr>evalue := v\<rparr>)]\<rparr>"
      have "mangle_loop mangle l p = mangle_loop mangle ?l q" "mangle_field mangle e = Some (e\<lparr>evalue := v\<rparr>)"
        using g Replaced by (simp_all add: mangle_loop.simps [of mangle l p] mangle_field_def)
      moreover have "\<exists>l'. mangle_loop mangle ?l q = Some l' \<and> hmask l' = hmask ?l \<and>
          entries l' = take q (entries ?l) @ map (mangle_slot mangle) (drop q (entries ?l))"
        by (rule 1(3) [OF g refl Replaced]) (use B in \<open>simp add: es q\<close>)
      ultimately show ?thesis unfolding goal by (simp add: es q)
    qed
  qed
qed

lemma mangle_ignores_value: "httpHdrMangle allow conf (e\<lparr>evalue := s\<rparr>) = httpHdrMangle allow conf e"
  by (simp add: httpHdrMangle_def)

lemma mangle_list_ok:
  assumes "hdr_ok hdr"
  obtains h where "httpHdrMangleList allow conf hdr = Some h" "hmask h = hmask hdr"
    and "live h = List.map_filter (mangle_field (httpHdrMangle allow conf)) (live hdr)"
proof -
  have "sum_list (map entry_len (somes (drop 0 (entries hdr)))) \<le> hlen hdr"
    using assms by (simp add: hdr_ok_def HttpHeader.fields_def)
  from mangle_loop_spec [OF this, of "httpHdrMangle allow conf"] that show ?thesis
    by (auto simp: httpHdrMangleList_def HttpHeader.fields_def somes_mangled)
qed



text \<open>
  The mask keeps the bit of a type whose fields were all removed, so the next lookup of that type runs into
  the assertion that guards the linear search.
\<close>

lemma mangled_lookup_aborts:
  assumes "hdr_ok hdr" "i \<in> hmask hdr" "i \<notin> ListHeadersMask"
    and "\<forall>e \<in> set (live hdr). eid e = i \<longrightarrow> httpHdrMangle allow conf e = Denied"
    and "httpHdrMangleList allow conf hdr = Some h"
  shows "httpHeaderFindEntry h i = None"
proof -
  obtain h' where h: "httpHdrMangleList allow conf hdr = Some h'" "hmask h' = hmask hdr"
    "live h' = List.map_filter (mangle_field (httpHdrMangle allow conf)) (live hdr)"
    by (rule mangle_list_ok [OF assms(1)])
  have "\<forall>e \<in> set (live h'). eid e \<noteq> i"
    using assms(4) by (auto simp: h(3) map_filter_def mangle_field_def split: mangled.splits)
  then have "List.find (\<lambda>e. eid e = i) (somes (entries h')) = None" by (auto simp: find_None_iff HttpHeader.fields_def)
  with h(1,2) assms(2,3,5) show ?thesis by (simp add: httpHeaderFindEntry_def find_loop_eq)
qed

end
