(* ===== verification/Spec2Isabelle.thy ===== *)
theory Spec2Isabelle
  imports CfContent PatFile FileSys HashTable UrlEscape HttpParse CfClamav ModuleLoader LibString Uplink Login Chkprog HttpTyped Url
begin

text \<open>
  A verification library for the MyBox appliance: its filtering web proxy (a fork of Squid 2.5 with a
  module host and a set of filter modules, \<^verbatim>\<open>v3.0/src/squid-mybox\<close>) and the appliance's own programs and
  library (\<^verbatim>\<open>v3.1/src/mybox\<close>). All paths below are relative to \<^verbatim>\<open>src/\<close>.

  \<^bold>\<open>The program and its parts.\<close> The proxy loads filter modules (shared libraries) into itself. A module
  registers filter objects by hook: redirection, content type, request header, reply header, content.
  For each request the module host runs the hooks over the URL, the content type, the parsed header and
  every block of the body. Modules get their lists of exempt URLs from pattern files, parse pages with
  the streaming HTML filter, and the virus filter collects data in temporary files that it finds again
  through the proxy's hash table. Beside the proxy run the uplink daemon, which moves the default route,
  the service monitor, which has dead services restarted by the request runner, and the console with the
  login program and the shell; they use the appliance's library of string and file functions.

  \<^bold>\<open>Theories, in the order of their imports.\<close>

    \<^item> \<open>Prelude\<close>: the part of C and of its library that the rest uses. A C string is a list of bytes
      without its NUL; \<open>strchr\<close>, \<open>strstr\<close>, \<open>strcasecmp\<close>, \<open>fgets\<close>, \<open>snprintf\<close>, \<open>atoi\<close> are functions on
      lists; a pointer into a string is an index, NULL is \<open>None\<close>.
    \<^item> \<open>HtmlFilter\<close>, \<open>HtmlStream\<close>, \<open>HtmlParse\<close> (\<^verbatim>\<open>filters/cfmod_htmlfilter.c\<close>, \<^verbatim>\<open>htmlfilter.h\<close>): the record
      \<open>htmlFilterObject\<close> has the fields of the C structure; \<open>html_byte\<close> is the switch over the tokeniser
      state, \<open>htmlCfFilter\<close> the function, \<open>parse_tag\<close> and \<open>processTag0\<close> the tag parser with its scratch
      buffer and argument arrays written out. \<open>HtmlFilter\<close> holds the tokeniser's invariant and the locale
      \<open>tag_processor\<close> (what the tokeniser relies on in a client module), \<open>HtmlStream\<close> what follows for
      whole pages, \<open>HtmlParse\<close> the bounds of the tag parser.
    \<^item> \<open>JsAttrib\<close> (\<^verbatim>\<open>filters/jsattrib.c\<close>): the perfect hash of event attributes against linear search.
    \<^item> \<open>CfContent\<close> (\<^verbatim>\<open>filters/cfmod_content.c\<close>, \<^verbatim>\<open>cfmod_script.c\<close>): the tag processors, which interpret
      the tokeniser's locale, with the properties of the filtered page.
    \<^item> \<open>PatFile\<close> (\<^verbatim>\<open>src/patfile.c\<close>): pattern lists, reloading, matching, substitution.
    \<^item> \<open>UrlEscape\<close> (\<^verbatim>\<open>lib/rfc1738.c\<close>): escaping with the static buffer, unescaping.
    \<^item> \<open>HttpHeader\<close>, \<open>HttpParse\<close> (\<^verbatim>\<open>src/HttpHeader.c\<close>, \<^verbatim>\<open>HttpHeaderTools.c\<close>): the table of fields, the header as a
      list of entries with deleted ones as \<open>None\<close>, its mask and length; searching, deleting, list items,
      merging, packing; the parser. A failing C assertion is the result \<open>None\<close>.
    \<^item> \<open>ModuleHost\<close> (\<^verbatim>\<open>src/module.c\<close>, the hooks): \<open>moduleRedirect\<close>, \<open>moduleRejecttype\<close>, \<open>moduleReqHeader\<close>,
      \<open>moduleRepHeader\<close> and \<open>moduleContFilter\<close>, which runs the chain between two temporary buffers.
    \<^item> \<open>CfMods\<close> (\<^verbatim>\<open>filters/cfmod_cookies.c\<close>, \<^verbatim>\<open>cfmod_rejecttype.c\<close>, \<^verbatim>\<open>cfmod_allowtype.c\<close>, \<^verbatim>\<open>cfmod_redirect.c\<close>): the
      small modules and what each registers.
    \<^item> \<open>ModuleLoader\<close> (\<^verbatim>\<open>src/module.c\<close>, the objects): reference counts, destructors, loading, deferred
      unloading; the objects live in a store from addresses, and a dangling use is an error value.
    \<^item> \<open>FileSys\<close> (\<^verbatim>\<open>v3.1/src/mybox/lib\<close>: \<^verbatim>\<open>xmkdir.c\<close>, \<^verbatim>\<open>is_dir.c\<close>, \<^verbatim>\<open>file_exists.c\<close>, \<^verbatim>\<open>read_oneline.c\<close>,
      \<^verbatim>\<open>save_append_to_file.c\<close>): a file system of nodes with modes and the functions on it.
    \<^item> \<open>HashTable\<close> (\<^verbatim>\<open>lib/hash.c\<close>): the table with its chains, the traversal that survives removals, the
      hash functions on 32-bit words.
    \<^item> \<open>CfTemp\<close>, \<open>CfClamav\<close> (\<^verbatim>\<open>filters/lib.c\<close>, \<^verbatim>\<open>cfmod_clamav.c\<close>): the temporary files and the virus filter.
    \<^item> \<open>LibString\<close> (\<^verbatim>\<open>v3.1/src/mybox/lib\<close>): trimming, searching, cutting, replacing.
    \<^item> \<open>Uplink\<close> (\<^verbatim>\<open>v3.1/src/mybox/src/uplinkd.c\<close>), \<open>Login\<close> (\<^verbatim>\<open>lib/login.c\<close>, \<^verbatim>\<open>init_lang.c\<close>, \<^verbatim>\<open>iosh.c\<close>),
      \<open>Chkprog\<close> (\<^verbatim>\<open>src/chkprog.c\<close>, \<^verbatim>\<open>taskq-check.c\<close>): the programs, as functions on a record of their
      variables and of what they have done to the system.
    \<^item> \<open>Decimal\<close>, \<open>HttpDate\<close> (\<^verbatim>\<open>lib/rfc1123.c\<close>): decimal numbers as printed and read, the parser of the three
      date forms, the printers and the calendar functions of the C library under them.
    \<^item> \<open>HttpFields\<close>, \<open>FieldText\<close> (\<^verbatim>\<open>src/HttpHdrRange.c\<close>, \<^verbatim>\<open>HttpHdrContRange.c\<close>, \<^verbatim>\<open>HttpHdrCc.c\<close>, \<^verbatim>\<open>ETag.c\<close>): fields
      with a structure, each as a record with its parser, printer and operations; \<open>FieldText\<close> has what the
      printed forms read back as.
    \<^item> \<open>Base64\<close> (\<^verbatim>\<open>lib/base64.c\<close>): coding of credentials, with the static buffers.
    \<^item> \<open>HttpTyped\<close> (\<^verbatim>\<open>src/HttpHeader.c\<close>, \<^verbatim>\<open>HttpHeaderTools.c\<close>): storing and reading a field as a number, a
      time, a range and so on, and the anonymizer \<open>httpHdrMangleList\<close>, with the answer of the access
      lists as an argument.
    \<^item> \<open>Url\<close> (\<^verbatim>\<open>src/url.c\<close>): request methods and protocols, the URL parser, the canonical forms, the
      comparison of domain names. The static array of the host name is part of the parser's state, because
      the test for \<open>.nofilter\<close> reads what earlier calls have left in it.
  \<^bold>\<open>Conventions.\<close> A C structure is a record, an enumeration a datatype, a fixed-width integer whose
  wrap-around matters a word, others \<open>nat\<close> or \<open>int\<close>. A failing assertion, an access outside of an
  array, or a use of freed memory is \<open>None\<close> or \<open>Inl\<close>, so that a theorem with \<open>Some\<close> or \<open>Inr\<close> in its
  conclusion states its absence. Loops are structural recursions or functions with a measure; the only
  fuel is that of runs over an external stream of events (console input, rounds of a daemon), where the
  stream itself bounds the run. What is not in the repository is a parameter: the regular expression
  library, the virus scanner, \<open>crypt\<close>, the commands that are run and their exit codes, the time, bytes of
  uninitialised memory.

  \<^bold>\<open>What the lemmas show.\<close>

    \<^item> HTML filter: the assertion of the tokeniser never fails, the tag parser stays inside its arrays,
      the output is independent of how the page is cut into blocks and has the announced length; with
      script removal on, every tag that leaves the content module is free of event handlers.
    \<^item> Interfaces: the tokeniser relies on a module only through \<open>tag_processor\<close> and
      \<open>stream_tag_processor\<close>, the modules on pattern files through \<open>pattern_source\<close>, the temporary files
      on the hash table through \<open>keyed_store\<close>, the chain of content filters on each through
      \<open>length_keeping\<close>; each is interpreted on the code's model.
    \<^item> Data structures: the hash table refines a map, and its traversal a list; header operations keep
      the header consistent and act on the list of fields as their names say; parsing is the inverse of
      packing, unescaping of escaping, \<open>read_oneline\<close> of \<open>save_to_file\<close>.
    \<^item> Module loader: in every reachable state all live code is in memory, and after everything is
      unregistered it is all unloaded.
    \<^item> Daemons and console: which routes the uplink daemon sets, which services the monitor reports,
      that the guarded commands run exactly after the right password.
    \<^item> Structured fields: dates, cache directives, content ranges and credentials are read back as printed
      within the stated limits, ranges are canonized into the body, what the typed functions put into a
      header is what they get from it, the anonymizer edits exactly the denied fields.
    \<^item> URLs: the parser is safe whatever its arrays hold, canonical URLs are read back, the form for logs has
      no password and no control characters, domain names are compared as the access lists need it; the
      switch that the filters added to host names is shown not to work.
    \<^item> Where the code does not do what it means to, a lemma says exactly what it does instead; such
      lemmas stand under the heading \<open>Deviations\<close> or beside the property they limit.

  \<^bold>\<open>What is not modelled.\<close> The rest of the Squid core (sockets, the store, access control, FTP, DNS,
  cache digests, SNMP, authentication helpers, generated configuration parser) is upstream code that only
  moves data in and out and calls the parts above; \<open>hashPrime\<close> is floating-point arithmetic over table
  sizes. Older versions of the same programs (\<^verbatim>\<open>v1.x\<close>, \<^verbatim>\<open>v2.0\<close>, \<^verbatim>\<open>v2.1\<close>, \<^verbatim>\<open>v3.0/src/mybox\<close>, \<^verbatim>\<open>v3.0/src/filters\<close>)
  are superseded by the ones modelled. Third-party programs (p3scan, squidclam, the ping program, the
  SQLite shell, the web server and system logger under \<^verbatim>\<open>v2.1/test\<close>), kernel files and device drivers are not
  the appliance's logic. The small monitors of \<^verbatim>\<open>v3.1/src/mybox/src\<close> (display, load, traffic) print
  numbers with floating-point formatting or talk to a serial device. The web interface is PHP and the
  boot process shell script.
\<close>

end
